(* ===== verification/Prelude.thy ===== *)
theory Prelude
  imports Main "HOL-Library.AList" "HOL-Library.Sublist"
begin

text \<open>
  What the component theories share: names for the types of the model, the fixed-width
  conversions of the C++ source, the container operations behind
  \<^verbatim>\<open>std::unordered_map\<close> and \<^verbatim>\<open>std::string_view\<close>, and the lemma
  collections the component proofs draw on.

  A \<^verbatim>\<open>std::unordered_map\<close> is an association list with distinct keys; the order of
  the list stands for the iteration order of the container, which the standard leaves open.
  Its operations are those of \<^verbatim>\<open>HOL-Library.AList\<close>. A time point of
  \<^verbatim>\<open>std::chrono::steady_clock\<close> is an integer count of nanoseconds.
\<close>

named_theorems wf_preserved \<open>operations preserve the well-formedness of their component\<close>
named_theorems op_defs \<open>unfolding of the operations of a component\<close>

type_synonym time_ns = int
type_synonym clock = "nat \<Rightarrow> time_ns"

definition second_ns :: int where
  "second_ns = 1000000000"

definition milli_ns :: int where
  "milli_ns = 1000000"

text \<open>\<^verbatim>\<open>static_cast<int>\<close> of a 64-bit value: the value modulo \<open>2 ^ 32\<close>.\<close>

definition to_int32 :: "int \<Rightarrow> int" where
  "to_int32 x = (x + 2147483648) mod 4294967296 - 2147483648"

text \<open>\<^verbatim>\<open>duration_cast\<close> to a coarser unit truncates towards zero.\<close>

definition trunc_div :: "int \<Rightarrow> int \<Rightarrow> int" where
  "trunc_div a b = (if 0 \<le> a then a div b else - ((- a) div b))"

lemma to_int32_small [simp]:
  "-2147483648 \<le> x \<Longrightarrow> x < 2147483648 \<Longrightarrow> to_int32 x = x"
  by (simp add: to_int32_def)

lemma to_int32_range: "-2147483648 \<le> to_int32 x \<and> to_int32 x < 2147483648"
proof -
  have "0 \<le> (x + 2147483648) mod 4294967296" and "(x + 2147483648) mod 4294967296 < 4294967296"
    by simp_all
  then show ?thesis unfolding to_int32_def by linarith
qed

section \<open>Association lists with distinct keys\<close>

abbreviation keys :: "('k \<times> 'v) list \<Rightarrow> 'k list" where
  "keys m \<equiv> map fst m"

abbreviation distinct_keys :: "('k \<times> 'v) list \<Rightarrow> bool" where
  "distinct_keys m \<equiv> distinct (keys m)"

lemma map_of_update [simp]: "map_of (AList.update k v m) = (map_of m)(k \<mapsto> v)"
  by (simp add: update_conv')

lemma map_of_delete [simp]: "map_of (AList.delete k m) = (map_of m)(k := None)"
  by (simp add: delete_conv')

lemma distinct_keys_update [simp]: "distinct_keys m \<Longrightarrow> distinct_keys (AList.update k v m)"
  by (rule distinct_update)

lemma distinct_keys_delete [simp]: "distinct_keys m \<Longrightarrow> distinct_keys (AList.delete k m)"
  by (rule distinct_delete)

lemma update_update [simp]: "AList.update k v (AList.update k w m) = AList.update k v m"
  by (induction m) auto

lemma length_update_present: "k \<in> set (keys m) \<Longrightarrow> length (AList.update k v m) = length m"
  by (induction m) auto

lemma length_update_absent: "k \<notin> set (keys m) \<Longrightarrow> length (AList.update k v m) = Suc (length m)"
  by (induction m) auto

lemma length_update: "length (AList.update k v m) = (if map_of m k = None then Suc (length m) else length m)"
  by (auto simp: length_update_present length_update_absent map_of_eq_None_iff image_iff)

lemma length_delete_le [simp]: "length (AList.delete k m) \<le> length m"
  by (induction m) auto

lemma map_of_SomeD_keys: "map_of m k = Some v \<Longrightarrow> k \<in> set (keys m)"
  by (induction m) (auto split: if_splits)

lemma map_of_map_filter:
  "distinct_keys m \<Longrightarrow>
   map_of (filter (\<lambda>(k, v). P k v) m) k =
     (case map_of m k of None \<Rightarrow> None | Some v \<Rightarrow> if P k v then Some v else None)"
  by (induction m) (auto simp: map_of_eq_None_iff split: option.splits)

lemma distinct_keys_filter [simp]: "distinct_keys m \<Longrightarrow> distinct_keys (filter P m)"
  by (induction m) auto

section \<open>Lists\<close>

lemma filter_dropWhile_weaker:
  assumes "\<And>x. P x \<Longrightarrow> \<not> Q x"
  shows "filter P (dropWhile Q xs) = filter P xs"
  using assms by (induction xs) auto

lemma length_filter_mono:
  "(\<And>x. x \<in> set xs \<Longrightarrow> P x \<Longrightarrow> Q x) \<Longrightarrow> length (filter P xs) \<le> length (filter Q xs)"
  by (induction xs) auto


section \<open>Sums over a table\<close>

definition asum :: "('v \<Rightarrow> nat) \<Rightarrow> ('k \<times> 'v) list \<Rightarrow> nat" where
  "asum f m = sum_list (map (\<lambda>kv. f (snd kv)) m)"

lemma asum_simps [simp]: "asum f [] = 0" "asum f (kv # m) = f (snd kv) + asum f m"
  by (simp_all add: asum_def)

lemma asum_append [simp]: "asum f (m @ n) = asum f m + asum f n"
  by (simp add: asum_def)

lemma delete_absent: "k \<notin> set (keys m) \<Longrightarrow> AList.delete k m = m"
  by (induction m) (auto simp: AList.delete_eq)

lemma asum_delete:
  "distinct_keys m \<Longrightarrow> map_of m k = Some v \<Longrightarrow> asum f m = f v + asum f (AList.delete k m)"
proof (induction m)
  case (Cons kv m)
  show ?case
  proof (cases "fst kv = k")
    case True
    then have "AList.delete k m = m" using Cons.prems by (intro delete_absent) auto
    then show ?thesis using True Cons.prems by (cases kv) (simp add: AList.delete_eq)
  next
    case False
    then show ?thesis using Cons by (cases kv) (simp add: AList.delete_eq)
  qed
qed simp

lemma asum_update_absent: "map_of m k = None \<Longrightarrow> asum f (AList.update k v m) = asum f m + f v"
  by (induction m) auto

lemma asum_update_present:
  "distinct_keys m \<Longrightarrow> map_of m k = Some u \<Longrightarrow> asum f (AList.update k v m) + f u = asum f m + f v"
  by (induction m) auto

lemma asum_map: "asum f (map (\<lambda>(k, v). (k, g v)) m) = asum (\<lambda>v. f (g v)) m"
  by (induction m) auto

lemma asum_cong: "(\<And>k v. (k, v) \<in> set m \<Longrightarrow> f v = g v) \<Longrightarrow> asum f m = asum g m"
  unfolding asum_def by (intro arg_cong [where f = sum_list] map_cong) auto

lemma update_absent: "map_of m k = None \<Longrightarrow> AList.update k v m = m @ [(k, v)]"
  by (induction m) auto

section \<open>Invariants of runs\<close>

text \<open>
  The contract every stateful component of the library meets: a step function, the events that
  may occur, and a property each such step keeps. What holds of the start state then holds after
  any sequence of events.
\<close>

locale invariant_step =
  fixes step :: "'s \<Rightarrow> 'e \<Rightarrow> 's"
    and allowed :: "'e \<Rightarrow> bool"
    and inv :: "'s \<Rightarrow> bool"
  assumes step_inv: "inv s \<Longrightarrow> allowed e \<Longrightarrow> inv (step s e)"
begin

lemma run_inv: "inv s \<Longrightarrow> list_all allowed es \<Longrightarrow> inv (foldl step s es)"
  by (induction es arbitrary: s) (auto intro: step_inv)

end

end
