(* ===== verification/Cpp_Strings.thy ===== *)
theory Cpp_Strings
  imports Prelude
begin

text \<open>
  The parts of the C++ string library the kernel's parsers use: character classes, \<open>find\<close>,
  \<open>substr\<close>, \<open>starts_with\<close>, decimal output through a stream and \<open>std::from_chars\<close>
  on a 32-bit \<open>int\<close>; and the library of lemmas about splitting a string at a separator that
  the parser proofs share.
\<close>

section \<open>Characters\<close>

definition char_in :: "char \<Rightarrow> char \<Rightarrow> char \<Rightarrow> bool" where
  "char_in lo hi c \<longleftrightarrow> (of_char lo :: nat) \<le> of_char c \<and> (of_char c :: nat) \<le> of_char hi"

abbreviation is_lower_char :: "char \<Rightarrow> bool" where
  "is_lower_char \<equiv> char_in (CHR ''a'') (CHR ''z'')"

abbreviation is_digit_char :: "char \<Rightarrow> bool" where
  "is_digit_char \<equiv> char_in (CHR ''0'') (CHR ''9'')"

section \<open>Searching and cutting\<close>

text \<open>\<open>s.find(c, p)\<close>: the first index \<open>\<ge> p\<close> holding \<open>c\<close>, \<open>None\<close> standing for \<open>npos\<close>.\<close>

definition find_char :: "char \<Rightarrow> string \<Rightarrow> nat \<Rightarrow> nat option" where
  "find_char c s p =
     (let t = takeWhile (\<lambda>x. x \<noteq> c) (drop p s)
      in if p + length t < length s then Some (p + length t) else None)"

definition substr :: "string \<Rightarrow> nat \<Rightarrow> nat \<Rightarrow> string" where
  "substr s p n = take n (drop p s)"

lemma takeWhile_sep [simp]: "c \<notin> set a \<Longrightarrow> takeWhile (\<lambda>x. x \<noteq> c) (a @ c # b) = a"
  by (induction a) auto

lemma takeWhile_no_sep [simp]: "c \<notin> set a \<Longrightarrow> takeWhile (\<lambda>x. x \<noteq> c) a = a"
  by (induction a) auto

lemma dropWhile_sep [simp]: "c \<notin> set a \<Longrightarrow> dropWhile (\<lambda>x. x \<noteq> c) (a @ c # b) = c # b"
  by (induction a) auto

lemma find_char_hit [simp]:
  "c \<notin> set a \<Longrightarrow> find_char c (pre @ a @ c # b) (length pre) = Some (length pre + length a)"
  by (simp add: find_char_def Let_def)

lemma find_char_none [simp]:
  "c \<notin> set a \<Longrightarrow> find_char c (pre @ a) (length pre) = None"
  by (simp add: find_char_def Let_def)

lemma find_char_SomeD:
  assumes "find_char c s p = Some i"
  shows "p \<le> i \<and> i < length s \<and> s ! i = c \<and> c \<notin> set (take (i - p) (drop p s))"
proof -
  let ?t = "takeWhile (\<lambda>x. x \<noteq> c) (drop p s)"
  from assms have i: "i = p + length ?t" "i < length s"
    by (auto simp: find_char_def Let_def split: if_splits)
  then have "length ?t < length (drop p s)" by simp
  from nth_length_takeWhile [OF this] have "s ! i = c" using i by simp
  moreover have "take (i - p) (drop p s) = ?t"
    using i by (simp add: takeWhile_eq_take [symmetric])
  ultimately show ?thesis using i by (auto dest: set_takeWhileD)
qed

lemma find_char_NoneD:
  "find_char c s p = None \<Longrightarrow> p \<le> length s \<Longrightarrow> c \<notin> set (drop p s)"
proof
  assume n: "find_char c s p = None" and p: "p \<le> length s" and c: "c \<in> set (drop p s)"
  then have "takeWhile (\<lambda>x. x \<noteq> c) (drop p s) \<noteq> drop p s"
    by (auto simp: takeWhile_eq_all_conv)
  then have "length (takeWhile (\<lambda>x. x \<noteq> c) (drop p s)) < length (drop p s)"
    by (metis le_neq_implies_less length_takeWhile_le takeWhile_eq_take take_all order_refl)
  with n p show False by (auto simp: find_char_def Let_def split: if_splits)
qed

section \<open>Separated lists\<close>

text \<open>The pieces between separators; \<open>n\<close> separators give \<open>n + 1\<close> pieces.\<close>

fun split_on :: "char \<Rightarrow> string \<Rightarrow> string list" where
  "split_on c [] = [[]]"
| "split_on c (x # xs) =
     (if x = c then [] # split_on c xs
      else case split_on c xs of [] \<Rightarrow> [[x]] | p # ps \<Rightarrow> (x # p) # ps)"

fun join_with :: "char \<Rightarrow> string list \<Rightarrow> string" where
  "join_with c [] = []"
| "join_with c [p] = p"
| "join_with c (p # q # ps) = p @ c # join_with c (q # ps)"

lemma split_on_ne [simp]: "split_on c s \<noteq> []"
  by (cases s) (auto split: list.splits)

lemma join_with_Cons: "ps \<noteq> [] \<Longrightarrow> join_with c (p # ps) = p @ c # join_with c ps"
  by (cases ps) auto

lemma join_split [simp]: "join_with c (split_on c s) = s"
proof (induction s)
  case (Cons x xs)
  obtain p ps where "split_on c xs = p # ps" by (cases "split_on c xs") auto
  with Cons show ?case by (cases ps) auto
qed simp

lemma split_on_append:
  "c \<notin> set a \<Longrightarrow> split_on c (a @ c # b) = a # split_on c b"
  by (induction a) auto

lemma split_on_single: "c \<notin> set a \<Longrightarrow> split_on c a = [a]"
  by (induction a) auto

lemma split_join:
  "ps \<noteq> [] \<Longrightarrow> \<forall>p\<in>set ps. c \<notin> set p \<Longrightarrow> split_on c (join_with c ps) = ps"
  by (induction c ps rule: join_with.induct) (auto simp: split_on_append split_on_single)

lemma split_on_no_sep: "p \<in> set (split_on c s) \<Longrightarrow> c \<notin> set p"
  by (induction s arbitrary: p) (auto split: if_splits list.splits)

lemma set_split_on: "p \<in> set (split_on c s) \<Longrightarrow> set p \<subseteq> set s"
  by (induction s arbitrary: p) (fastforce split: if_splits list.splits)+

section \<open>Decimal numbers\<close>

definition digit_value :: "char \<Rightarrow> int" where
  "digit_value c = int (of_char c) - 48"

definition dec_value :: "string \<Rightarrow> int" where
  "dec_value ds = foldl (\<lambda>a c. a * 10 + digit_value c) 0 ds"

definition digit_char :: "nat \<Rightarrow> char" where
  "digit_char n = char_of (48 + n)"

fun show_nat :: "nat \<Rightarrow> string" where
  "show_nat n = (if n < 10 then [digit_char n] else show_nat (n div 10) @ [digit_char (n mod 10)])"

declare show_nat.simps [simp del]

text \<open>\<open>stream << i\<close> for an \<open>int\<close>.\<close>

definition show_int :: "int \<Rightarrow> string" where
  "show_int i = (if i < 0 then CHR ''-'' # show_nat (nat (- i)) else show_nat (nat i))"

abbreviation int_max :: int where "int_max \<equiv> 2 ^ 31 - 1"
abbreviation int_min :: int where "int_min \<equiv> - (2 ^ 31)"

text \<open>
  \<open>std::from_chars\<close> into an \<open>int\<close>, base ten: an optional minus sign, then the longest run of
  digits; \<open>None\<close> when there is no digit or the value does not fit, else the value and what
  was left unread.
\<close>

definition from_chars_int :: "string \<Rightarrow> (int \<times> string) option" where
  "from_chars_int s =
     (let neg = (s \<noteq> [] \<and> hd s = CHR ''-'');
          body = (if neg then tl s else s);
          ds = takeWhile is_digit_char body;
          v = (if neg then - dec_value ds else dec_value ds)
      in if ds = [] \<or> v < int_min \<or> int_max < v then None
         else Some (v, dropWhile is_digit_char body))"

lemma is_digit_digit_char [simp]: "n < 10 \<Longrightarrow> is_digit_char (digit_char n)"
  by (simp add: char_in_def digit_char_def)

lemma digit_value_digit_char [simp]: "n < 10 \<Longrightarrow> digit_value (digit_char n) = int n"
  by (simp add: digit_value_def digit_char_def)

lemma dec_value_snoc [simp]: "dec_value (ds @ [c]) = dec_value ds * 10 + digit_value c"
  by (simp add: dec_value_def)

lemma show_nat_digits: "list_all is_digit_char (show_nat n)"
  by (induction n rule: show_nat.induct) (subst show_nat.simps, simp)

lemma show_nat_ne [simp]: "show_nat n \<noteq> []"
  by (subst show_nat.simps) simp

lemma dec_value_show_nat [simp]: "dec_value (show_nat n) = int n"
proof (induction n rule: show_nat.induct)
  case (1 n)
  show ?case
  proof (cases "n < 10")
    case True
    then show ?thesis by (subst show_nat.simps) (simp add: dec_value_def)
  next
    case False
    have "int n = int (n div 10) * 10 + int (n mod 10)"
      by presburger
    with 1 False show ?thesis by (subst show_nat.simps) simp
  qed
qed

lemma digit_value_nonneg: "is_digit_char c \<Longrightarrow> 0 \<le> digit_value c"
  by (simp add: char_in_def digit_value_def)

lemma dec_value_nonneg: "list_all is_digit_char ds \<Longrightarrow> 0 \<le> dec_value ds"
  by (induction ds rule: rev_induct) (auto simp: digit_value_nonneg, simp add: dec_value_def)

lemma hd_digit_not_minus: "is_digit_char c \<Longrightarrow> c \<noteq> CHR ''-''"
  by (auto simp: char_in_def)

lemma from_chars_int_show_nat:
  assumes "int n \<le> int_max"
  shows "from_chars_int (show_nat n) = Some (int n, [])"
proof -
  have d: "list_all is_digit_char (show_nat n)" by (rule show_nat_digits)
  then have "is_digit_char (hd (show_nat n))" by (simp add: list_all_iff)
  then have "hd (show_nat n) \<noteq> CHR ''-''" by (rule hd_digit_not_minus)
  moreover have w: "takeWhile is_digit_char (show_nat n) = show_nat n"
    "dropWhile is_digit_char (show_nat n) = []"
    using d by (auto simp: list_all_iff takeWhile_eq_all_conv dropWhile_eq_Nil_conv)
  ultimately show ?thesis using assms by (simp add: from_chars_int_def Let_def w)
qed

lemma from_chars_int_digitsD:
  assumes "from_chars_int s = Some (v, [])" and "s \<noteq> []" and "is_digit_char (hd s)"
  shows "list_all is_digit_char s \<and> v = dec_value s \<and> v \<le> int_max"
proof -
  have "hd s \<noteq> CHR ''-''" using assms(3) by (rule hd_digit_not_minus)
  with assms(1) have "dropWhile is_digit_char s = []" "v = dec_value (takeWhile is_digit_char s)"
    "v \<le> int_max"
    by (auto simp: from_chars_int_def Let_def split: if_splits)
  moreover from this(1) have "takeWhile is_digit_char s = s"
    by (simp add: dropWhile_eq_Nil_conv takeWhile_eq_all_conv)
  ultimately show ?thesis by (simp add: list_all_iff dropWhile_eq_Nil_conv)
qed

end
