(* ===== verification/Http_Utf8.thy ===== *)
theory Http_Utf8
  imports Cpp_Strings
begin

text \<open>
  The character layer of \<open>extension_http/codec.cpp\<close>: \<open>CodecResult\<close>, the character classes of
  the anonymous namespace and UTF-8 validation. A \<open>std::string\<close> is a list of bytes
  (\<open>char\<close>); an \<open>unsigned char\<close> is its value as a natural number. \<open>CodecResult<T>\<close> is a sum
  whose left side is the \<open>CodecError\<close>.
\<close>

unbundle bit_operations_syntax

section \<open>Results\<close>

datatype codec_error = INVALID | TOO_LARGE

type_synonym 'a codec_result = "codec_error + 'a"

type_synonym headers = "(string \<times> string) list"

text \<open>\<open>if (auto r = ...; !r) return unexpected(r.error())\<close>: go on with the value, or return the error.\<close>

fun on_ok :: "'e + 'a \<Rightarrow> ('a \<Rightarrow> 'e + 'b) \<Rightarrow> 'e + 'b" where
  "on_ok (Inl e) f = Inl e"
| "on_ok (Inr x) f = f x"

lemma on_ok_Inr [simp]: "on_ok r f = Inr y \<longleftrightarrow> (\<exists>x. r = Inr x \<and> f x = Inr y)"
  by (cases r) auto

lemma on_ok_ok: "r = Inr x \<Longrightarrow> on_ok r f = f x"
  by simp

section \<open>Character classes\<close>

abbreviation byte_of :: "char \<Rightarrow> nat" where
  "byte_of c \<equiv> of_char c"

definition lower_alpha :: "char \<Rightarrow> bool" where
  "lower_alpha c \<longleftrightarrow> is_lower_char c"

definition digit :: "char \<Rightarrow> bool" where
  "digit c \<longleftrightarrow> is_digit_char c"

abbreviation is_upper_char :: "char \<Rightarrow> bool" where
  "is_upper_char \<equiv> char_in (CHR ''A'') (CHR ''Z'')"

definition alpha :: "char \<Rightarrow> bool" where
  "alpha c \<longleftrightarrow> lower_alpha c \<or> is_upper_char c"

definition unreserved :: "char \<Rightarrow> bool" where
  "unreserved c \<longleftrightarrow> alpha c \<or> digit c \<or> c = CHR ''-'' \<or> c = CHR ''.'' \<or> c = CHR ''_'' \<or> c = CHR ''~''"

text \<open>The value of a hexadecimal digit, \<open>None\<close> standing for \<open>-1\<close>.\<close>

definition hex :: "char \<Rightarrow> nat option" where
  "hex c =
     (if digit c then Some (byte_of c - byte_of CHR ''0'')
      else if char_in CHR ''a'' CHR ''f'' c then Some (byte_of c - byte_of CHR ''a'' + 10)
      else if char_in CHR ''A'' CHR ''F'' c then Some (byte_of c - byte_of CHR ''A'' + 10)
      else None)"

definition lower_hex :: "char \<Rightarrow> bool" where
  "lower_hex c \<longleftrightarrow> digit c \<or> char_in CHR ''a'' CHR ''f'' c"

definition token :: "char \<Rightarrow> bool" where
  "token c \<longleftrightarrow> alpha c \<or> digit c \<or> c \<in> set (''!#$%&'' @ [CHR 0x27] @ ''*+.^_'' @ [CHR 0x60] @ ''|~-'')"

lemma hex_bound: "hex c = Some v \<Longrightarrow> v < 16"
  by (auto simp: hex_def digit_def char_in_def split: if_splits)

lemma byte_of_bound [simp]: "byte_of c < 256"
  by simp

lemma byte_of_le [simp]: "byte_of c \<le> 255"
  using byte_of_bound [of c] by linarith

lemma byte_of_inj [simp]: "byte_of c = byte_of d \<longleftrightarrow> c = d"
  by simp

section \<open>UTF-8\<close>

text \<open>
  \<open>valid_utf8\<close> reads a lead byte, the number of continuation bytes it announces and the code
  point, then refuses overlong forms, surrogates and values past the last code point. The
  \<open>unsigned int\<close> the code point is collected in never exceeds 21 bits, so it is a natural number.
\<close>

definition utf8_lead :: "nat \<Rightarrow> (nat \<times> nat \<times> nat) option" where
  "utf8_lead first =
     (if 0xc2 \<le> first \<and> first \<le> 0xdf then Some (first AND 0x1f, 1, 0x80)
      else if 0xe0 \<le> first \<and> first \<le> 0xef then Some (first AND 0x0f, 2, 0x800)
      else if 0xf0 \<le> first \<and> first \<le> 0xf4 then Some (first AND 0x07, 3, 0x10000)
      else None)"

fun utf8_tail :: "nat \<Rightarrow> nat \<Rightarrow> string \<Rightarrow> (nat \<times> string) option" where
  "utf8_tail 0 code t = Some (code, t)"
| "utf8_tail (Suc n) code [] = None"
| "utf8_tail (Suc n) code (c # t) =
     (if byte_of c AND 0xc0 \<noteq> 0x80 then None
      else utf8_tail n (push_bit 6 code OR (byte_of c AND 0x3f)) t)"

lemma utf8_tail_length: "utf8_tail n code t = Some (code', t') \<Longrightarrow> length t' \<le> length t"
  by (induction n code t rule: utf8_tail.induct) (auto split: if_splits)

function valid_utf8 :: "string \<Rightarrow> bool" where
  "valid_utf8 [] = True"
| "valid_utf8 (b # t) =
     (if byte_of b < 0x80 then valid_utf8 t
      else case utf8_lead (byte_of b) of
          None \<Rightarrow> False
        | Some (code, count, minimum) \<Rightarrow>
            if length t < count then False
            else case utf8_tail count code t of
                None \<Rightarrow> False
              | Some (code', t') \<Rightarrow>
                  if code' < minimum \<or> 0x10ffff < code' \<or> (0xd800 \<le> code' \<and> code' \<le> 0xdfff)
                  then False else valid_utf8 t')"
  by pat_completeness auto
termination
  by (relation "measure length") (auto dest!: utf8_tail_length)

text \<open>The reference: the Unicode scalar values and their UTF-8 encoding.\<close>

definition scalar_value :: "nat \<Rightarrow> bool" where
  "scalar_value cp \<longleftrightarrow> cp \<le> 0x10ffff \<and> \<not> (0xd800 \<le> cp \<and> cp \<le> 0xdfff)"

definition utf8_encode :: "nat \<Rightarrow> string" where
  "utf8_encode cp =
     (if cp < 0x80 then [char_of cp]
      else if cp < 0x800 then [char_of (0xc0 + cp div 64), char_of (0x80 + cp mod 64)]
      else if cp < 0x10000 then
        [char_of (0xe0 + cp div 4096), char_of (0x80 + cp div 64 mod 64), char_of (0x80 + cp mod 64)]
      else
        [char_of (0xf0 + cp div 262144), char_of (0x80 + cp div 4096 mod 64),
         char_of (0x80 + cp div 64 mod 64), char_of (0x80 + cp mod 64)])"

lemma and_low_bits: "(n::nat) AND 0x3f = n mod 64" "(n::nat) AND 0x1f = n mod 32"
  "(n::nat) AND 0x0f = n mod 16" "(n::nat) AND 0x07 = n mod 8"
  using take_bit_eq_mask [of 6 n] take_bit_eq_mask [of 5 n] take_bit_eq_mask [of 4 n]
    take_bit_eq_mask [of 3 n]
  by (simp_all add: mask_eq_exp_minus_1 take_bit_eq_mod)

lemma continuation_byte:
  assumes n: "n < 256"
  shows "(n::nat) AND 0xc0 = 0x80 \<longleftrightarrow> 0x80 \<le> n \<and> n < 0xc0"
proof -
  have p: "(192::nat) = push_bit 6 3" by (simp add: push_bit_eq_mult)
  have "n AND push_bit 6 3 = push_bit 6 (drop_bit 6 n AND 3)"
    by (rule bit_eqI) (auto simp only: bit_and_iff bit_push_bit_iff bit_drop_bit_eq comp_def
        le_add_diff_inverse possible_bit_nat)
  also have "drop_bit 6 n AND 3 = drop_bit 6 n"
    using take_bit_eq_mask [of 2 "drop_bit 6 n"] n
    by (simp add: mask_eq_exp_minus_1 take_bit_eq_mod drop_bit_eq_div)
  finally have "n AND 0xc0 = 64 * (n div 64)"
    by (simp only: p) (simp add: push_bit_eq_mult drop_bit_eq_div)
  then show ?thesis using n by auto
qed

lemma push_or_low: "push_bit 6 (a::nat) OR (b mod 64) = a * 64 + b mod 64"
proof -
  have "push_bit 6 a AND take_bit 6 b = 0"
    by (rule bit_eqI) (auto simp only: bit_and_iff bit_push_bit_iff bit_take_bit_iff bit_0_eq bot_apply
        bot_bool_def)
  then have "push_bit 6 a OR take_bit 6 b = push_bit 6 a + take_bit 6 b"
    by (rule disjunctive_add_eq_or [symmetric])
  then show ?thesis by (simp add: push_bit_eq_mult take_bit_eq_mod)
qed

lemma utf8_tail_Cons:
  "utf8_tail (Suc n) code (c # t) =
     (if 0x80 \<le> byte_of c \<and> byte_of c < 0xc0 then utf8_tail n (code * 64 + byte_of c mod 64) t else None)"
  by (simp add: continuation_byte and_low_bits push_or_low)

lemmas utf8_tail_simps = utf8_tail.simps(1,2) utf8_tail_Cons

declare utf8_tail.simps [simp del] valid_utf8.simps(2) [simp del]

lemma char_of_byte: "n = byte_of c \<Longrightarrow> char_of n = c"
  by simp

lemma byte_of_char_of: "n < 256 \<Longrightarrow> byte_of (char_of n) = n"
  by simp

lemma utf8_tail_encoded:
  "utf8_tail (Suc n) (v div 64) (char_of (0x80 + v mod 64) # t) = utf8_tail n v t"
proof -
  have "(2 * 64 + v mod 64) mod 64 = v mod 64" by (simp only: mod_mult_self3 mod_mod_trivial)
  then have "(0x80 + v mod 64) mod 64 = v mod 64" by simp
  moreover have "v div 64 * 64 + v mod 64 = v" by (rule div_mult_mod_eq)
  ultimately show ?thesis by (simp add: utf8_tail_simps)
qed

lemma div_64_chain: "(cp::nat) div 4096 = cp div 64 div 64" "cp div 262144 = cp div 4096 div 64"
  by (simp_all add: div_mult2_eq [symmetric])

text \<open>The encoding of a scalar value is read back as one character.\<close>

lemma valid_utf8_encode:
  assumes "scalar_value cp"
  shows "valid_utf8 (utf8_encode cp @ t) = valid_utf8 t"
proof -
  consider "cp < 0x80" | "0x80 \<le> cp" "cp < 0x800" | "0x800 \<le> cp" "cp < 0x10000"
    | "0x10000 \<le> cp" "cp \<le> 0x10ffff"
    using assms by (fastforce simp: scalar_value_def)
  then show ?thesis
  proof cases
    case 1
    then show ?thesis by (simp add: utf8_encode_def valid_utf8.simps(2))
  next
    case 2
    then have e: "utf8_encode cp = [char_of (0xc0 + cp div 64), char_of (0x80 + cp mod 64)]"
      by (simp add: utf8_encode_def)
    from 2 have b: "byte_of (char_of (0xc0 + cp div 64)) = 0xc0 + cp div 64"
      by (intro byte_of_char_of) auto
    from 2 have l: "utf8_lead (0xc0 + cp div 64) = Some (cp div 64, Suc 0, 0x80)"
      by (auto simp: utf8_lead_def and_low_bits mod_if)
    from 2 assms l b show ?thesis
      by (auto simp: e valid_utf8.simps(2) scalar_value_def utf8_tail_encoded utf8_tail.simps(1))
  next
    case 3
    then have e: "utf8_encode cp = [char_of (0xe0 + cp div 4096), char_of (0x80 + cp div 64 mod 64),
        char_of (0x80 + cp mod 64)]"
      by (simp add: utf8_encode_def)
    from 3 have b: "byte_of (char_of (0xe0 + cp div 4096)) = 0xe0 + cp div 4096"
      by (intro byte_of_char_of) auto
    from 3 have l: "utf8_lead (0xe0 + cp div 4096) = Some (cp div 64 div 64, Suc (Suc 0), 0x800)"
      by (auto simp: utf8_lead_def and_low_bits mod_if div_mult2_eq [symmetric])
    from 3 assms l b show ?thesis
      by (auto simp: e valid_utf8.simps(2) scalar_value_def utf8_tail_encoded utf8_tail.simps(1))
  next
    case 4
    then have e: "utf8_encode cp = [char_of (0xf0 + cp div 262144), char_of (0x80 + cp div 4096 mod 64),
        char_of (0x80 + cp div 64 mod 64), char_of (0x80 + cp mod 64)]"
      by (simp add: utf8_encode_def)
    from 4 have b: "byte_of (char_of (0xf0 + cp div 262144)) = 0xf0 + cp div 262144"
      by (intro byte_of_char_of) auto
    from 4 have l: "utf8_lead (0xf0 + cp div 262144) =
        Some (cp div 64 div 64 div 64, Suc (Suc (Suc 0)), 0x10000)"
      by (auto simp: utf8_lead_def and_low_bits mod_if div_mult2_eq [symmetric])
    have c: "cp div 4096 = cp div 64 div 64" by (rule div_64_chain)
    from 4 assms l b show ?thesis
      by (auto simp: e valid_utf8.simps(2) scalar_value_def utf8_tail_encoded utf8_tail.simps(1) c)
  qed
qed

text \<open>Conversely, a valid text starts with the encoding of a scalar value.\<close>

lemma block_mod: "m * a \<le> n \<Longrightarrow> n < m * Suc a \<Longrightarrow> m * a + n mod m = (n::nat)"
  using div_nat_eqI [of m a n] mult_div_mod_eq [of m n] by simp

lemma utf8_tail_SomeD:
  "utf8_tail n code t = Some (cp, u) \<Longrightarrow>
   t = map (\<lambda>i. char_of (0x80 + cp div 64 ^ i mod 64)) (rev [0..<n]) @ u \<and> cp div 64 ^ n = code"
proof (induction n arbitrary: code t)
  case (Suc n)
  obtain c t' where t: "t = c # t'" and c: "0x80 \<le> byte_of c" "byte_of c < 0xc0"
    and r: "utf8_tail n (code * 64 + byte_of c mod 64) t' = Some (cp, u)"
    using Suc.prems by (cases t) (auto simp: utf8_tail_simps split: if_splits)
  note ih = Suc.IH [OF r]
  have "cp div 64 ^ n mod 64 = byte_of c mod 64" and d: "cp div 64 ^ n div 64 = code"
    using ih by simp_all
  then have "0x80 + cp div 64 ^ n mod 64 = byte_of c" using c block_mod [of 64 2 "byte_of c"] by simp
  then have "char_of (0x80 + cp div 64 ^ n mod 64) = c" by (rule char_of_byte)
  moreover have "cp div 64 ^ Suc n = code"
    using d by (simp only: power_Suc2 div_mult2_eq)
  ultimately show ?case using ih t by simp
qed (simp add: utf8_tail_simps)

lemma valid_utf8_multiE:
  assumes "\<not> byte_of b < 0x80" and "valid_utf8 (b # t)"
  obtains code count minimum cp u where "utf8_lead (byte_of b) = Some (code, count, minimum)"
    and "utf8_tail count code t = Some (cp, u)" and "minimum \<le> cp" "scalar_value cp" "valid_utf8 u"
proof -
  obtain code count minimum where l: "utf8_lead (byte_of b) = Some (code, count, minimum)"
    using assms by (cases "utf8_lead (byte_of b)") (auto simp: valid_utf8.simps(2))
  moreover obtain cp u where "utf8_tail count code t = Some (cp, u)"
    using assms l by (cases "utf8_tail count code t") (auto simp: valid_utf8.simps(2) split: if_splits)
  ultimately show ?thesis
    using that assms by (simp add: valid_utf8.simps(2) scalar_value_def split: if_splits)
qed

lemma utf8_lead_cases [consumes 1]:
  assumes "utf8_lead n = Some (code, count, minimum)"
  obtains "0xc2 \<le> n" "n \<le> 0xdf" "code = n mod 32" "count = Suc 0" "minimum = 0x80"
    | "0xe0 \<le> n" "n \<le> 0xef" "code = n mod 16" "count = Suc (Suc 0)" "minimum = 0x800"
    | "0xf0 \<le> n" "n \<le> 0xf4" "code = n mod 8" "count = Suc (Suc (Suc 0))" "minimum = 0x10000"
  using assms unfolding utf8_lead_def and_low_bits
  by (simp split: if_splits add: numeral_2_eq_2 numeral_3_eq_3)

lemma valid_utf8_first:
  assumes "valid_utf8 (b # t)"
  shows "\<exists>cp u. scalar_value cp \<and> b # t = utf8_encode cp @ u \<and> valid_utf8 u"
proof (cases "byte_of b < 0x80")
  case True
  then have "scalar_value (byte_of b) \<and> b # t = utf8_encode (byte_of b) @ t \<and> valid_utf8 t"
    using assms by (simp add: valid_utf8.simps(2) scalar_value_def utf8_encode_def)
  then show ?thesis by blast
next
  case False
  then obtain code count minimum cp u where l: "utf8_lead (byte_of b) = Some (code, count, minimum)"
    and t: "utf8_tail count code t = Some (cp, u)" and v: "minimum \<le> cp" "scalar_value cp" "valid_utf8 u"
    using assms by (rule valid_utf8_multiE)
  from l have "b # t = utf8_encode cp @ u"
  proof (cases rule: utf8_lead_cases)
    case 1
    note t1 = utf8_tail_SomeD [OF t [unfolded 1(3,4)], simplified]
    have b: "0xc0 + cp div 64 = byte_of b" using t1 1 block_mod [of 32 6 "byte_of b"] by simp
    then have "cp < 0x800" using 1 by simp
    then have "utf8_encode cp = [char_of (0xc0 + cp div 64), char_of (0x80 + cp mod 64)]"
      using v 1 by (simp add: utf8_encode_def)
    then show ?thesis using t1 char_of_byte [OF b] by simp
  next
    case 2
    note t2 = utf8_tail_SomeD [OF t [unfolded 2(3,4)], simplified]
    have b: "0xe0 + cp div 4096 = byte_of b" using t2 2 block_mod [of 16 14 "byte_of b"] by simp
    then have "cp < 0x10000" using 2 by simp
    then have "utf8_encode cp = [char_of (0xe0 + cp div 4096), char_of (0x80 + cp div 64 mod 64),
        char_of (0x80 + cp mod 64)]"
      using v 2 by (simp add: utf8_encode_def)
    then show ?thesis using t2 char_of_byte [OF b] by simp
  next
    case 3
    note t3 = utf8_tail_SomeD [OF t [unfolded 3(3,4)], simplified]
    have b: "0xf0 + cp div 262144 = byte_of b" using t3 3 block_mod [of 8 30 "byte_of b"] by simp
    have "utf8_encode cp = [char_of (0xf0 + cp div 262144), char_of (0x80 + cp div 4096 mod 64),
        char_of (0x80 + cp div 64 mod 64), char_of (0x80 + cp mod 64)]"
      using v 3 by (simp add: utf8_encode_def)
    then show ?thesis using t3 char_of_byte [OF b] by simp
  qed
  with v show ?thesis by blast
qed

text \<open>
  C26: The byte strings the validator accepts are exactly the UTF-8 encodings of sequences of Unicode
  scalar values: no overlong form, no surrogate, nothing above \<open>10FFFF\<close>, no truncated sequence.
\<close>

theorem valid_utf8_iff:
  "valid_utf8 t \<longleftrightarrow> (\<exists>cps. list_all scalar_value cps \<and> t = concat (map utf8_encode cps))"
proof
  show "valid_utf8 t \<Longrightarrow> \<exists>cps. list_all scalar_value cps \<and> t = concat (map utf8_encode cps)"
  proof (induction t rule: length_induct)
    case (1 t)
    show ?case
    proof (cases t)
      case (Cons b t')
      then obtain cp u where u: "scalar_value cp" "t = utf8_encode cp @ u" "valid_utf8 u"
        using valid_utf8_first 1(2) by blast
      moreover have "utf8_encode cp \<noteq> []" by (simp add: utf8_encode_def)
      ultimately obtain cps where "list_all scalar_value cps" "u = concat (map utf8_encode cps)"
        using 1(1) by (metis length_append length_greater_0_conv less_add_same_cancel2)
      then show ?thesis using u by (intro exI [of _ "cp # cps"]) simp
    qed (auto intro: exI [of _ "[]"])
  qed
next
  have "list_all scalar_value cps \<Longrightarrow> valid_utf8 (concat (map utf8_encode cps))" for cps
    by (induction cps) (simp_all add: valid_utf8_encode)
  then show "\<exists>cps. list_all scalar_value cps \<and> t = concat (map utf8_encode cps) \<Longrightarrow> valid_utf8 t"
    by blast
qed

end
