(* ===== verification/Http_Text.thy ===== *)
theory Http_Text
  imports Http_Utf8
begin

text \<open>
  The lexical layer of \<open>extension_http/codec.cpp\<close>: the grammars of the identifiers a dispatch
  carries (UUID, SHA-256, nanosecond counts, package names and versions, methods, path claims),
  and the validation of request targets and headers.
\<close>

section \<open>Identifiers\<close>

definition valid_uuid :: "string \<Rightarrow> bool" where
  "valid_uuid t \<longleftrightarrow> length t = 36 \<and>
     list_all (\<lambda>i. if i = 8 \<or> i = 13 \<or> i = 18 \<or> i = 23 then t ! i = CHR ''-'' else lower_hex (t ! i))
       [0..<length t]"

definition valid_hex256 :: "string \<Rightarrow> bool" where
  "valid_hex256 t \<longleftrightarrow> length t = 64 \<and> list_all lower_hex t"

text \<open>
  \<open>std::from_chars\<close> into a \<open>std::uint64_t\<close>: the longest run of digits, no sign; \<open>None\<close> when
  there is none or the value does not fit, else the value and what was left unread.
\<close>

definition from_chars_u64 :: "string \<Rightarrow> (nat \<times> string) option" where
  "from_chars_u64 s =
     (let ds = takeWhile digit s; v = nat (dec_value ds)
      in if ds = [] \<or> 2 ^ 64 \<le> v then None else Some (v, dropWhile digit s))"

definition parse_ns :: "string \<Rightarrow> nat codec_result" where
  "parse_ns t =
     (if t = [] \<or> 20 < length t \<or> (1 < length t \<and> hd t = CHR ''0'') \<or> \<not> list_all digit t then Inl INVALID
      else case from_chars_u64 t of
          None \<Rightarrow> Inl INVALID
        | Some (v, rest) \<Rightarrow> if rest \<noteq> [] then Inl INVALID else Inr v)"

definition valid_name :: "string \<Rightarrow> bool" where
  "valid_name t \<longleftrightarrow> 2 \<le> length t \<and> length t \<le> 64 \<and> lower_alpha (hd t) \<and>
     list_all (\<lambda>c. lower_alpha c \<or> digit c \<or> c = CHR ''-'') t"

definition valid_method :: "string \<Rightarrow> bool" where
  "valid_method t \<longleftrightarrow> t \<noteq> [] \<and> length t \<le> 32 \<and> is_upper_char (hd t) \<and>
     list_all (\<lambda>c. token c \<and> \<not> lower_alpha c) t"

text \<open>
  \<open>valid_version\<close>: \<open>pos\<close> is what is left of the text. One round of the first loop reads a number
  and, but for the last, the dot after it; the inner loop of the second reads identifiers
  separated by dots.
\<close>

fun version_fields :: "nat \<Rightarrow> string \<Rightarrow> string option" where
  "version_fields 0 s = Some s"
| "version_fields (Suc n) s =
     (let ds = takeWhile digit s; rest = dropWhile digit s
      in if ds = [] \<or> (1 < length ds \<and> hd ds = CHR ''0'') then None
         else if n = 0 then Some rest
         else case rest of
             [] \<Rightarrow> None
           | c # rest' \<Rightarrow> if c \<noteq> CHR ''.'' then None else version_fields n rest')"

definition ident_char :: "char \<Rightarrow> bool" where
  "ident_char c \<longleftrightarrow> alpha c \<or> digit c \<or> c = CHR ''-''"

function version_idents :: "char \<Rightarrow> string \<Rightarrow> string option" where
  "version_idents d s =
     (let part = takeWhile ident_char s; rest = dropWhile ident_char s
      in if part = [] \<or> (d = CHR ''-'' \<and> list_all digit part \<and> 1 < length part \<and> hd part = CHR ''0'')
         then None
         else if rest = [] \<or> hd rest \<noteq> CHR ''.'' then Some rest
         else version_idents d (tl rest))"
  by pat_completeness auto
termination
proof (relation "measure (\<lambda>(d, s). length s)", goal_cases)
  case (2 d s part rest)
  then have "length (tl rest) < length rest" by (cases rest) auto
  moreover have "length rest \<le> length s" using 2 by (simp add: length_dropWhile_le)
  ultimately show ?case by simp
qed simp

definition version_suffix :: "char \<Rightarrow> string \<Rightarrow> string option" where
  "version_suffix d s = (if s = [] \<or> hd s \<noteq> d then Some s else version_idents d (tl s))"

definition valid_version :: "string \<Rightarrow> bool" where
  "valid_version t \<longleftrightarrow> t \<noteq> [] \<and> length t \<le> 256 \<and>
     (case version_fields 3 t of
        None \<Rightarrow> False
      | Some s \<Rightarrow> (case version_suffix CHR ''-'' s of
          None \<Rightarrow> False
        | Some s' \<Rightarrow> version_suffix CHR ''+'' s' = Some []))"

declare version_idents.simps [simp del]

section \<open>Nanosecond counts\<close>

lemma digit_is_digit_char: "digit = is_digit_char"
  by (simp add: digit_def fun_eq_iff)

lemma digit_char_digit_value: "is_digit_char c \<Longrightarrow> digit_char (nat (digit_value c)) = c"
  by (auto simp: digit_char_def digit_value_def char_in_def intro!: char_of_byte)

lemma digit_value_lt: "is_digit_char c \<Longrightarrow> nat (digit_value c) < 10"
  by (auto simp: digit_value_def char_in_def)

lemma dec_value_pos:
  "list_all is_digit_char ds \<Longrightarrow> ds \<noteq> [] \<Longrightarrow> hd ds \<noteq> CHR ''0'' \<Longrightarrow> 0 < dec_value ds"
proof (induction ds rule: rev_induct)
  case (snoc c ds)
  show ?case
  proof (cases "ds = []")
    case True
    have "byte_of c \<noteq> byte_of CHR ''0''" using snoc.prems True by (simp del: of_char_Char)
    then show ?thesis using snoc.prems True by (simp add: dec_value_def digit_value_def char_in_def)
  next
    case False
    then have "0 < dec_value ds" using snoc by simp
    moreover have "0 \<le> digit_value c" using snoc.prems by (simp add: digit_value_nonneg)
    ultimately show ?thesis by simp
  qed
qed simp

text \<open>Decimal output and a digit string without a superfluous leading zero determine each other.\<close>

lemma show_nat_dec_value:
  "list_all is_digit_char ds \<Longrightarrow> ds \<noteq> [] \<Longrightarrow> length ds = 1 \<or> hd ds \<noteq> CHR ''0'' \<Longrightarrow>
   show_nat (nat (dec_value ds)) = ds"
proof (induction ds rule: rev_induct)
  case (snoc c ds)
  let ?v = "nat (digit_value c)"
  have c: "?v < 10" "0 \<le> digit_value c" "digit_char ?v = c"
    using snoc.prems by (auto simp: digit_value_lt digit_value_nonneg digit_char_digit_value)
  show ?case
  proof (cases "ds = []")
    case True
    then show ?thesis using c by (simp add: dec_value_def show_nat.simps)
  next
    case False
    then have p: "0 < dec_value ds" and ih: "show_nat (nat (dec_value ds)) = ds"
      using snoc dec_value_pos [of ds] by auto
    have "nat (dec_value (ds @ [c])) = nat (dec_value ds) * 10 + ?v"
      using p c by (simp add: nat_add_distrib nat_mult_distrib)
    moreover have "\<not> nat (dec_value ds) * 10 + ?v < 10" using p by simp
    ultimately show ?thesis using c ih by (subst show_nat.simps) simp
  qed
qed simp

lemma show_nat_length: "n < 10 ^ k \<Longrightarrow> 0 < k \<Longrightarrow> length (show_nat n) \<le> k"
proof (induction k arbitrary: n)
  case (Suc k)
  then show ?case
    by (subst show_nat.simps) (cases k, auto simp: less_mult_imp_div_less)
qed simp

lemma show_nat_head: "10 \<le> n \<Longrightarrow> hd (show_nat n) \<noteq> CHR ''0''"
proof (induction n rule: show_nat.induct)
  case (1 n)
  have "hd (show_nat n) = hd (show_nat (n div 10))"
    using 1(2) by (subst show_nat.simps) simp
  moreover have "hd (show_nat (n div 10)) \<noteq> CHR ''0''" if "n div 10 < 10"
  proof -
    have "byte_of (digit_char (n div 10)) \<noteq> byte_of CHR ''0''"
      using that 1(2) by (simp add: digit_char_def)
    then show ?thesis using that by (subst show_nat.simps) auto
  qed
  ultimately show ?case using 1 by (cases "n div 10 < 10") auto
qed

text \<open>
  Nanosecond counts: the accepted texts are the canonical decimal forms of the 64-bit values, and
  each is read as the value it denotes.
\<close>

lemma parse_ns_canonical: "parse_ns t = Inr n \<longleftrightarrow> n < 2 ^ 64 \<and> t = show_nat n"
proof
  assume r: "parse_ns t = Inr n"
  then have t: "t \<noteq> []" "list_all is_digit_char t" "length t = 1 \<or> hd t \<noteq> CHR ''0''"
    by (auto simp: parse_ns_def digit_is_digit_char split: if_splits intro: Suc_lessI)
  then have w: "takeWhile digit t = t" "dropWhile digit t = []"
    by (auto simp: digit_is_digit_char list_all_iff takeWhile_eq_all_conv dropWhile_eq_Nil_conv)
  from r have "n = nat (dec_value t)" "n < 2 ^ 64"
    by (auto simp: parse_ns_def from_chars_u64_def Let_def w split: if_splits)
  with t show "n < 2 ^ 64 \<and> t = show_nat n" by (simp add: show_nat_dec_value)
next
  assume n: "n < 2 ^ 64 \<and> t = show_nat n"
  have d: "list_all digit (show_nat n)" by (simp add: digit_is_digit_char show_nat_digits)
  then have w: "takeWhile digit (show_nat n) = show_nat n" "dropWhile digit (show_nat n) = []"
    by (auto simp: list_all_iff takeWhile_eq_all_conv dropWhile_eq_Nil_conv)
  have l: "length (show_nat n) \<le> 20" using n by (intro show_nat_length) auto
  have h: "\<not> (1 < length (show_nat n) \<and> hd (show_nat n) = CHR ''0'')"
    using show_nat_head [of n] by (cases "n < 10") (simp_all add: show_nat.simps [of n])
  show "parse_ns t = Inr n" using n d l h by (simp add: parse_ns_def from_chars_u64_def Let_def w)
qed

section \<open>Versions\<close>

text \<open>The reference: the grammar of Semantic Versioning 2.0.0.\<close>

definition numeric_ident :: "string \<Rightarrow> bool" where
  "numeric_ident d \<longleftrightarrow> d \<noteq> [] \<and> list_all digit d \<and> \<not> (1 < length d \<and> hd d = CHR ''0'')"

definition suffix_ident :: "char \<Rightarrow> string \<Rightarrow> bool" where
  "suffix_ident d p \<longleftrightarrow> p \<noteq> [] \<and> list_all ident_char p \<and>
     \<not> (d = CHR ''-'' \<and> list_all digit p \<and> 1 < length p \<and> hd p = CHR ''0'')"

definition suffix_text :: "char \<Rightarrow> string list \<Rightarrow> string" where
  "suffix_text d ps = (if ps = [] then [] else d # join_with CHR ''.'' ps)"

definition semver :: "string \<Rightarrow> bool" where
  "semver t \<longleftrightarrow>
     (\<exists>a b c pre build.
        numeric_ident a \<and> numeric_ident b \<and> numeric_ident c \<and>
        list_all (suffix_ident CHR ''-'') pre \<and> list_all (suffix_ident CHR ''+'') build \<and>
        t = a @ CHR ''.'' # b @ CHR ''.'' # c @ suffix_text CHR ''-'' pre @ suffix_text CHR ''+'' build)"

text \<open>A maximal run: what \<open>while (pos < size && P(text[pos])) ++pos\<close> reads and leaves.\<close>

definition stops :: "(char \<Rightarrow> bool) \<Rightarrow> string \<Rightarrow> bool" where
  "stops P r \<longleftrightarrow> r = [] \<or> \<not> P (hd r)"

lemma stops_simps [simp]: "stops P []" "stops P (c # r) = (\<not> P c)"
  by (simp_all add: stops_def)

lemma run_read:
  "list_all P p \<Longrightarrow> stops P r \<Longrightarrow> takeWhile P (p @ r) = p \<and> dropWhile P (p @ r) = r"
  by (induction p) (auto simp: stops_def takeWhile_eq_Nil_iff dropWhile_eq_self_iff)

lemma run_split: "list_all P (takeWhile P s)" "stops P (dropWhile P s)"
  using hd_dropWhile [of P s] by (auto simp: list_all_iff stops_def dest: set_takeWhileD)

lemma not_digit_dot [simp]: "\<not> digit CHR ''.''" "\<not> ident_char CHR ''.''"
  "\<not> ident_char CHR ''+''" "\<not> digit CHR ''-''" "\<not> digit CHR ''+''"
  by (simp_all add: digit_def char_in_def ident_char_def alpha_def lower_alpha_def)

lemma version_fields_last:
  "version_fields (Suc 0) s = Some r \<longleftrightarrow> (\<exists>a. numeric_ident a \<and> s = a @ r \<and> stops digit r)"
proof
  assume "version_fields (Suc 0) s = Some r"
  then show "\<exists>a. numeric_ident a \<and> s = a @ r \<and> stops digit r"
    using run_split [of digit s]
    by (intro exI [of _ "takeWhile digit s"]) (auto simp: numeric_ident_def Let_def split: if_splits)
next
  assume "\<exists>a. numeric_ident a \<and> s = a @ r \<and> stops digit r"
  then obtain a where a: "numeric_ident a" "s = a @ r" "stops digit r" by blast
  then show "version_fields (Suc 0) s = Some r"
    using run_read [of digit a r] by (simp add: numeric_ident_def Let_def)
qed

lemma version_fields_more:
  "version_fields (Suc (Suc n)) s = Some r \<longleftrightarrow>
   (\<exists>a s'. numeric_ident a \<and> s = a @ CHR ''.'' # s' \<and> version_fields (Suc n) s' = Some r)"
  (is "?l \<longleftrightarrow> ?r")
proof
  assume l: ?l
  define d where "d = takeWhile digit s"
  obtain s' where s': "dropWhile digit s = CHR ''.'' # s'" "version_fields (Suc n) s' = Some r"
    and d: "\<not> (d = [] \<or> (1 < length d \<and> hd d = CHR ''0''))"
    using l unfolding version_fields.simps(2) [of "Suc n"] Let_def d_def
    by (auto split: if_splits list.splits simp del: version_fields.simps)
  moreover have "numeric_ident d" using d run_split(1) [of digit s] by (simp add: numeric_ident_def d_def)
  moreover have "s = d @ CHR ''.'' # s'"
    using s'(1) takeWhile_dropWhile_id [of digit s] by (simp add: d_def)
  ultimately show ?r by blast
next
  assume ?r
  then obtain a s' where a: "numeric_ident a" "s = a @ CHR ''.'' # s'" "version_fields (Suc n) s' = Some r"
    by blast
  then show ?l
    using run_read [of digit a "CHR ''.'' # s'"] unfolding version_fields.simps(2) [of "Suc n"] Let_def
    by (simp add: numeric_ident_def del: version_fields.simps)
qed

lemma version_fields_three:
  "version_fields 3 t = Some s \<longleftrightarrow>
   (\<exists>a b c. numeric_ident a \<and> numeric_ident b \<and> numeric_ident c \<and>
      t = a @ CHR ''.'' # b @ CHR ''.'' # c @ s \<and> stops digit s)"
  unfolding numeral_3_eq_3 version_fields_more version_fields_last by blast

lemma version_idents_sound:
  "version_idents d s = Some r \<Longrightarrow>
   \<exists>ps. ps \<noteq> [] \<and> list_all (suffix_ident d) ps \<and> s = join_with CHR ''.'' ps @ r \<and> stops ident_char r \<and> stops ((=) CHR ''.'') r"
proof (induction d s rule: version_idents.induct)
  case (1 d s)
  define p where "p = takeWhile ident_char s"
  define q where "q = dropWhile ident_char s"
  have s: "s = p @ q" and p: "list_all ident_char p" and q: "stops ident_char q"
    using run_split [of ident_char s] by (simp_all add: p_def q_def)
  have ok: "suffix_ident d p"
    using 1(2) p by (subst (asm) version_idents.simps)
      (auto simp: suffix_ident_def Let_def p_def [symmetric] split: if_splits)
  show ?case
  proof (cases "q = [] \<or> hd q \<noteq> CHR ''.''")
    case True
    then have "r = q"
      using 1(2) by (subst (asm) version_idents.simps) (auto simp: Let_def q_def [symmetric] split: if_splits)
    then show ?thesis using True s q ok by (intro exI [of _ "[p]"]) (auto simp: stops_def)
  next
    case False
    then have q': "q = CHR ''.'' # tl q" by (cases q) auto
    have r: "version_idents d (tl q) = Some r"
      using 1(2) False by (subst (asm) version_idents.simps)
        (auto simp: Let_def q_def [symmetric] split: if_splits)
    have "\<exists>ps. ps \<noteq> [] \<and> list_all (suffix_ident d) ps \<and> tl q = join_with CHR ''.'' ps @ r \<and>
        stops ident_char r \<and> stops ((=) CHR ''.'') r"
      using ok False r
      by (intro "1.IH" [OF p_def q_def]) (auto simp: suffix_ident_def)
    then obtain ps where "ps \<noteq> []" "list_all (suffix_ident d) ps" "tl q = join_with CHR ''.'' ps @ r"
      "stops ident_char r" "stops ((=) CHR ''.'') r"
      by blast
    then show ?thesis using s q' ok by (intro exI [of _ "p # ps"]) (simp add: join_with_Cons)
  qed
qed

lemma version_idents_complete:
  "ps \<noteq> [] \<Longrightarrow> list_all (suffix_ident d) ps \<Longrightarrow> stops ident_char r \<Longrightarrow> stops ((=) CHR ''.'') r \<Longrightarrow>
   version_idents d (join_with CHR ''.'' ps @ r) = Some r"
proof (induction ps)
  case (Cons p ps)
  have p: "suffix_ident d p" using Cons.prems by simp
  show ?case
  proof (cases "ps = []")
    case True
    have "takeWhile ident_char (p @ r) = p \<and> dropWhile ident_char (p @ r) = r"
      using p Cons.prems by (intro run_read) (auto simp: suffix_ident_def)
    then show ?thesis using True p Cons.prems
      by (subst version_idents.simps) (auto simp: Let_def suffix_ident_def stops_def)
  next
    case False
    have "takeWhile ident_char (p @ CHR ''.'' # join_with CHR ''.'' ps @ r) = p \<and>
        dropWhile ident_char (p @ CHR ''.'' # join_with CHR ''.'' ps @ r) = CHR ''.'' # join_with CHR ''.'' ps @ r"
      using p by (intro run_read) (auto simp: suffix_ident_def)
    then show ?thesis using False p Cons
      by (subst version_idents.simps) (auto simp: Let_def suffix_ident_def join_with_Cons)
  qed
qed simp

lemma version_suffix_sound:
  assumes "version_suffix d s = Some r"
  shows "\<exists>ps. list_all (suffix_ident d) ps \<and> s = suffix_text d ps @ r"
proof (cases "s = [] \<or> hd s \<noteq> d")
  case True
  then show ?thesis using assms by (intro exI [of _ "[]"]) (auto simp: version_suffix_def suffix_text_def)
next
  case False
  then have s: "s = d # tl s" by (cases s) auto
  have "version_idents d (tl s) = Some r" using False assms by (simp add: version_suffix_def)
  from version_idents_sound [OF this] obtain ps where "ps \<noteq> []" "list_all (suffix_ident d) ps"
    "tl s = join_with CHR ''.'' ps @ r" by blast
  then show ?thesis using s by (intro exI [of _ ps]) (simp add: suffix_text_def)
qed

lemma version_suffix_complete:
  assumes "list_all (suffix_ident d) ps" and "stops ident_char r" "stops ((=) CHR ''.'') r" "stops ((=) d) r"
  shows "version_suffix d (suffix_text d ps @ r) = Some r"
  using assms version_idents_complete [of ps d r]
  by (auto simp: version_suffix_def suffix_text_def stops_def)

text \<open>
  The version texts accepted are exactly those of the semantic versioning grammar, three numeric
  fields without leading zeros, an optional pre-release part and optional build metadata, of at most
  256 characters.
\<close>

lemma version_grammar: "valid_version t \<longleftrightarrow> semver t \<and> length t \<le> 256"
proof
  assume v: "valid_version t"
  then obtain s s' where f: "version_fields 3 t = Some s" and "version_suffix CHR ''-'' s = Some s'"
    and "version_suffix CHR ''+'' s' = Some []"
    by (auto simp: valid_version_def split: option.splits)
  then obtain pre build where "list_all (suffix_ident CHR ''-'') pre" "list_all (suffix_ident CHR ''+'') build"
    and s: "s = suffix_text CHR ''-'' pre @ suffix_text CHR ''+'' build"
    by (fastforce dest!: version_suffix_sound)
  moreover from f obtain a b c where "numeric_ident a" "numeric_ident b" "numeric_ident c"
    "t = a @ CHR ''.'' # b @ CHR ''.'' # c @ s"
    by (auto simp: version_fields_three)
  ultimately have "semver t" unfolding semver_def by blast
  then show "semver t \<and> length t \<le> 256" using v by (simp add: valid_version_def)
next
  assume "semver t \<and> length t \<le> 256"
  then obtain a b c pre build where n: "numeric_ident a" "numeric_ident b" "numeric_ident c"
    and pb: "list_all (suffix_ident CHR ''-'') pre" "list_all (suffix_ident CHR ''+'') build"
    and t: "t = a @ CHR ''.'' # b @ CHR ''.'' # c @ suffix_text CHR ''-'' pre @ suffix_text CHR ''+'' build"
    and len: "length t \<le> 256"
    unfolding semver_def by blast
  let ?r = "suffix_text CHR ''+'' build" and ?s = "suffix_text CHR ''-'' pre @ suffix_text CHR ''+'' build"
  have "stops digit ?s" by (simp add: suffix_text_def)
  then have "version_fields 3 t = Some ?s" using n t
    unfolding version_fields_three by blast
  moreover have "version_suffix CHR ''-'' ?s = Some ?r"
    using pb by (intro version_suffix_complete) (auto simp: suffix_text_def)
  moreover have "version_suffix CHR ''+'' ?r = Some []"
    using version_suffix_complete [of "CHR ''+''" build "[]"] pb by simp
  ultimately show "valid_version t" using t len by (simp add: valid_version_def)
qed

end
