(* ===== verification/Http_Target.thy ===== *)
theory Http_Target
  imports Http_Text
begin

text \<open>
  Paths, claims, request targets and headers of \<open>extension_http/codec.cpp\<close>:
  \<open>path_segments\<close>, \<open>matches\<close>, \<open>valid_claim\<close>, \<open>validate_target\<close>, \<open>validate_headers\<close> and
  \<open>filter_request_headers\<close>. The index a loop of the source moves along a string is what is left
  of the string. The lemmas relate the target the framework decoded to the one it received, segment by
  segment, and the headers handed on to the ones that came in.
\<close>

section \<open>Paths and claims\<close>

definition bad_segment :: "string \<Rightarrow> bool" where
  "bad_segment part \<longleftrightarrow> part = [] \<or> part = ''.'' \<or> part = ''..''"

function path_parts :: "string \<Rightarrow> bool" where
  "path_parts s =
     (if s = [] then True
      else let part = takeWhile (\<lambda>c. c \<noteq> CHR ''/'') s
           in if bad_segment part then False else path_parts (drop (Suc (length part)) s))"
  by pat_completeness auto
termination
  by (relation "measure length") auto

definition path_segments :: "string \<Rightarrow> bool" where
  "path_segments path =
     (if path = [] \<or> hd path \<noteq> CHR ''/'' then False
      else if path = ''/'' then True
      else path_parts (tl path))"

declare path_parts.simps [simp del]

definition ends_with :: "string \<Rightarrow> string \<Rightarrow> bool" where
  "ends_with s e \<longleftrightarrow> length e \<le> length s \<and> drop (length s - length e) s = e"

definition starts_with :: "string \<Rightarrow> string \<Rightarrow> bool" where
  "starts_with s p \<longleftrightarrow> take (length p) s = p"

definition remove_suffix :: "string \<Rightarrow> nat \<Rightarrow> string" where
  "remove_suffix s n = take (length s - n) s"

definition matches :: "string \<Rightarrow> string \<Rightarrow> bool" where
  "matches claim path =
     (if \<not> ends_with claim ''/*'' then claim = path
      else let claim = remove_suffix claim 2
           in path = claim \<or>
              (starts_with path claim \<and> length claim < length path \<and> path ! length claim = CHR ''/''))"

definition valid_claim :: "string \<Rightarrow> bool" where
  "valid_claim t =
     (if 256 < length t then False
      else let t = (if ends_with t ''/*'' then remove_suffix t 2 else t)
           in 1 < length t \<and> hd t = CHR ''/'' \<and> last t \<noteq> CHR ''/'' \<and> path_segments t \<and>
              list_all (\<lambda>c. c = CHR ''/'' \<or> unreserved c) t)"

section \<open>Targets\<close>

definition MAX_TARGET_BYTES :: nat where "MAX_TARGET_BYTES = 8192"
definition MAX_HEADER_PAIRS :: nat where "MAX_HEADER_PAIRS = 64"
definition MAX_HEADER_BYTES :: nat where "MAX_HEADER_BYTES = 32768"

abbreviation backslash :: char where "backslash \<equiv> CHR 0x5C"

definition path_char_bad :: "char \<Rightarrow> bool" where
  "path_char_bad c \<longleftrightarrow> byte_of c < 0x20 \<or> byte_of c = 0x7f \<or> c = backslash \<or> c = CHR ''#''"

definition raw_char_bad :: "char \<Rightarrow> bool" where
  "raw_char_bad c \<longleftrightarrow> byte_of c \<le> 0x20 \<or> byte_of c = 0x7f \<or> c = backslash \<or> c = CHR ''#'' \<or> c = CHR ''?''"

text \<open>
  The loop over \<open>original\<close>: each literal byte or percent triple must be the next byte of
  \<open>path\<close>, and both must end together.
\<close>

fun target_match :: "string \<Rightarrow> string \<Rightarrow> unit codec_result" where
  "target_match [] path = (if path \<noteq> [] then Inl INVALID else Inr ())"
| "target_match (c # rest) path =
     (if raw_char_bad c then Inl INVALID
      else if c = CHR ''%'' then
        (case rest of
           h # l # rest' \<Rightarrow>
             (case (hex h, hex l) of
                (Some x, Some y) \<Rightarrow>
                  (let d = char_of (x * 16 + y)
                   in if d = CHR ''/'' \<or> d = backslash \<or> unreserved d then Inl INVALID
                      else (case path of
                              [] \<Rightarrow> Inl INVALID
                            | p # path' \<Rightarrow> if d \<noteq> p then Inl INVALID else target_match rest' path'))
              | _ \<Rightarrow> Inl INVALID)
         | _ \<Rightarrow> Inl INVALID)
      else (case path of
              [] \<Rightarrow> Inl INVALID
            | p # path' \<Rightarrow> if c \<noteq> p then Inl INVALID else target_match rest path'))"

fun query_scan :: "string \<Rightarrow> unit codec_result" where
  "query_scan [] = Inr ()"
| "query_scan (c # rest) =
     (if byte_of c < 0x21 \<or> 0x7e < byte_of c \<or> c = CHR ''#'' then Inl INVALID
      else if c = CHR ''%'' then
        (case rest of
           h # l # rest' \<Rightarrow> if hex h = None \<or> hex l = None then Inl INVALID else query_scan rest'
         | _ \<Rightarrow> Inl INVALID)
      else query_scan rest)"

definition validate_target :: "string \<Rightarrow> string \<Rightarrow> string \<Rightarrow> unit codec_result" where
  "validate_target original path query =
     (if MAX_TARGET_BYTES < length original \<or> MAX_TARGET_BYTES < length path \<or> MAX_TARGET_BYTES < length query
      then Inl TOO_LARGE
      else if \<not> valid_utf8 original \<or> \<not> valid_utf8 path \<or> \<not> path_segments path then Inl INVALID
      else if list_ex path_char_bad path then Inl INVALID
      else on_ok (target_match original path) (\<lambda>_. query_scan query))"

section \<open>Headers\<close>

definition hop_header :: "string \<Rightarrow> bool" where
  "hop_header name \<longleftrightarrow> name \<in> set [''connection'', ''keep-alive'', ''proxy-connection'',
     ''proxy-authenticate'', ''proxy-authorization'', ''te'', ''trailer'', ''transfer-encoding'', ''upgrade'']"

definition request_forbidden :: "string \<Rightarrow> bool" where
  "request_forbidden name \<longleftrightarrow> hop_header name \<or> name = ''cookie'' \<or> name = ''authorization'' \<or>
     name = ''x-plinth-csrf'' \<or> name = ''host'' \<or> name = ''forwarded'' \<or> starts_with name ''x-forwarded-''"

definition response_forbidden :: "string \<Rightarrow> bool" where
  "response_forbidden name \<longleftrightarrow> hop_header name \<or> name = ''set-cookie'' \<or> name = ''cookie'' \<or>
     name = ''authorization'' \<or> name = ''www-authenticate'' \<or> name = ''authentication-info'' \<or>
     name = ''proxy-authentication-info'' \<or> name = ''content-length'' \<or> starts_with name ''access-control-''"

definition header_bytes :: "headers \<Rightarrow> nat" where
  "header_bytes hs = sum_list (map (\<lambda>(name, v). length name + length v) hs)"

definition header_name_ok :: "string \<Rightarrow> bool" where
  "header_name_ok name \<longleftrightarrow> name \<noteq> [] \<and> list_all (\<lambda>c. token c \<and> \<not> is_upper_char c) name"

definition header_value_ok :: "string \<Rightarrow> bool" where
  "header_value_ok v \<longleftrightarrow> valid_utf8 v \<and>
     \<not> list_ex (\<lambda>c. (byte_of c < 0x20 \<and> byte_of c \<noteq> 9) \<or> byte_of c = 0x7f) v"

fun header_scan :: "nat \<Rightarrow> headers \<Rightarrow> unit codec_result" where
  "header_scan sofar [] = Inr ()"
| "header_scan sofar ((name, v) # hs) =
     (if \<not> header_name_ok name then Inl INVALID
      else if 128 < length name \<or> 8192 < length v then Inl TOO_LARGE
      else if \<not> header_value_ok v then Inl INVALID
      else if MAX_HEADER_BYTES - sofar < length name + length v then Inl TOO_LARGE
      else header_scan (sofar + (length name + length v)) hs)"

definition validate_headers :: "headers \<Rightarrow> unit codec_result" where
  "validate_headers hs = (if MAX_HEADER_PAIRS < length hs then Inl TOO_LARGE else header_scan 0 hs)"

definition blank :: "char \<Rightarrow> bool" where
  "blank c \<longleftrightarrow> c = CHR '' '' \<or> byte_of c = 9"

definition trim :: "string \<Rightarrow> string" where
  "trim s = rev (dropWhile blank (rev (dropWhile blank s)))"

definition to_lower :: "char \<Rightarrow> char" where
  "to_lower c = (if is_upper_char c then char_of (byte_of c - byte_of CHR ''A'' + byte_of CHR ''a'') else c)"

text \<open>
  The inner loop of \<open>filter_request_headers\<close> cuts a \<open>Connection\<close> value at its commas and collects the
  names; an item that is not a token ends the call.
\<close>

fun nominate_items :: "string list \<Rightarrow> string list \<Rightarrow> string list codec_result" where
  "nominate_items [] nominated = Inr nominated"
| "nominate_items (piece # pieces) nominated =
     (let item = trim piece
      in if item = [] \<or> 128 < length item \<or> \<not> list_all token item then Inl INVALID
         else nominate_items pieces (List.insert (map to_lower item) nominated))"

fun nominate :: "headers \<Rightarrow> string list \<Rightarrow> string list codec_result" where
  "nominate [] nominated = Inr nominated"
| "nominate ((name, v) # hs) nominated =
     (if name \<noteq> ''connection'' then nominate hs nominated
      else on_ok (nominate_items (split_on CHR '','' v) nominated) (nominate hs))"

definition filter_request_headers :: "headers \<Rightarrow> headers codec_result" where
  "filter_request_headers hs =
     on_ok (validate_headers hs) (\<lambda>_.
     on_ok (nominate hs []) (\<lambda>nominated.
     Inr (filter (\<lambda>h. \<not> request_forbidden (fst h) \<and> fst h \<notin> set nominated) hs)))"

section \<open>Segments\<close>

abbreviation slash_split :: "string \<Rightarrow> string list" where
  "slash_split \<equiv> split_on CHR ''/''"

lemma slash_run:
  obtains (last) "CHR ''/'' \<notin> set s" "takeWhile (\<lambda>c. c \<noteq> CHR ''/'') s = s"
    | (more_parts) p r where "s = p @ CHR ''/'' # r" "CHR ''/'' \<notin> set p"
        "takeWhile (\<lambda>c. c \<noteq> CHR ''/'') s = p"
proof (cases "CHR ''/'' \<in> set s")
  case True
  then obtain p r where "s = p @ CHR ''/'' # r" "CHR ''/'' \<notin> set p"
    by (blast dest: split_list_first)
  then show ?thesis by (intro more_parts) auto
qed (auto intro: last)

lemma segment_list_Cons:
  assumes "qs \<noteq> []"
  shows "(\<exists>segs. list_all P segs \<and> (p # qs = segs \<or> p # qs = segs @ [[]])) \<longleftrightarrow>
    P p \<and> (\<exists>segs. list_all P segs \<and> (qs = segs \<or> qs = segs @ [[]]))" (is "?l \<longleftrightarrow> ?r")
proof
  assume ?l
  then obtain segs where s: "list_all P segs" "p # qs = segs \<or> p # qs = segs @ [[]]" by blast
  then obtain segs' where "segs = p # segs'" using assms by (cases segs) auto
  with s show ?r by auto
next
  assume ?r
  then obtain segs where "P p" "list_all P segs" "qs = segs \<or> qs = segs @ [[]]" by blast
  then show ?l by (intro exI [of _ "p # segs"]) auto
qed

lemma path_parts_iff:
  "path_parts s \<longleftrightarrow>
   (\<exists>segs. list_all (\<lambda>p. \<not> bad_segment p) segs \<and> (slash_split s = segs \<or> slash_split s = segs @ [[]]))"
proof (induction s rule: path_parts.induct)
  case (1 s)
  show ?case
  proof (cases "s = []")
    case True
    then show ?thesis by (auto simp: path_parts.simps intro: exI [of _ "[]"])
  next
    case False
    show ?thesis
    proof (cases s rule: slash_run)
      case last
      then have "path_parts s \<longleftrightarrow> \<not> bad_segment s"
        using False by (simp add: path_parts.simps [of s] path_parts.simps [of "[]"] Let_def)
      moreover have "slash_split s = [s]" using last by (simp add: split_on_single)
      ultimately show ?thesis using False by (auto simp: bad_segment_def)
    next
      case (more_parts p r)
      then have sp: "slash_split s = p # slash_split r" by (simp add: split_on_append)
      have "path_parts s \<longleftrightarrow> \<not> bad_segment p \<and> path_parts r"
        using more_parts False by (subst path_parts.simps) (simp add: Let_def)
      also have "\<dots> \<longleftrightarrow> \<not> bad_segment p \<and>
          (\<exists>segs. list_all (\<lambda>p. \<not> bad_segment p) segs \<and> (slash_split r = segs \<or> slash_split r = segs @ [[]]))"
        using 1 [OF False refl] more_parts by auto
      also have "\<dots> \<longleftrightarrow> (\<exists>segs. list_all (\<lambda>p. \<not> bad_segment p) segs \<and>
          (p # slash_split r = segs \<or> p # slash_split r = segs @ [[]]))"
        by (rule segment_list_Cons [symmetric]) simp
      finally show ?thesis by (simp add: sp)
    qed
  qed
qed

lemma path_segments_slash: "path_segments (CHR ''/'' # t) = path_parts t"
  by (simp add: path_segments_def path_parts.simps [of "[]"])

lemma path_segments_iff:
  "path_segments p \<longleftrightarrow>
   p \<noteq> [] \<and> (\<exists>segs. list_all (\<lambda>s. \<not> bad_segment s) segs \<and>
     (slash_split p = [] # segs \<or> slash_split p = [] # segs @ [[]]))"
proof (cases p)
  case (Cons c t)
  show ?thesis
  proof (cases "c = CHR ''/''")
    case True
    then show ?thesis using Cons by (simp add: path_segments_slash path_parts_iff)
  next
    case False
    then show ?thesis using Cons by (auto simp: path_segments_def split: list.splits)
  qed
qed (simp add: path_segments_def)

section \<open>Percent decoding\<close>

text \<open>The reference: every percent triple is replaced by the byte it names, all else is kept.\<close>

fun pct_decode :: "string \<Rightarrow> string option" where
  "pct_decode [] = Some []"
| "pct_decode (c # rest) =
     (if c = CHR ''%'' then
        (case rest of
           h # l # rest' \<Rightarrow>
             (case (hex h, hex l) of
                (Some x, Some y) \<Rightarrow> map_option (Cons (char_of (x * 16 + y))) (pct_decode rest')
              | _ \<Rightarrow> None)
         | _ \<Rightarrow> None)
      else map_option (Cons c) (pct_decode rest))"

lemma hex_slash [simp]: "hex CHR ''/'' = None"
  by (simp add: hex_def digit_def char_in_def)

lemma split_on_Cons_other:
  "x \<noteq> c \<Longrightarrow> split_on c (x # s) = (x # hd (split_on c s)) # tl (split_on c s)"
  by (cases "split_on c s") simp_all

lemma slash_split_decode_Cons:
  "map pct_decode (slash_split s) = map Some (slash_split p) \<Longrightarrow>
   pct_decode (hd (slash_split s)) = Some (hd (slash_split p)) \<and>
   map pct_decode (tl (slash_split s)) = map Some (tl (slash_split p))"
  by (cases "slash_split s"; cases "slash_split p") auto

lemma target_match_ConsE:
  assumes "target_match (c # rest) path = Inr ()"
  obtains (triple) h l rest' x y path' where "c = CHR ''%''" "rest = h # l # rest'" "hex h = Some x"
      "hex l = Some y" "path = char_of (x * 16 + y) # path'" "char_of (x * 16 + y) \<noteq> CHR ''/''"
      "target_match rest' path' = Inr ()"
    | (literal) path' where "c \<noteq> CHR ''%''" "path = c # path'" "target_match rest path' = Inr ()"
proof (cases "c = CHR ''%''")
  case True
  then obtain h l rest' where r: "rest = h # l # rest'"
    using assms by (simp split: list.splits if_splits)
  then obtain x y where x: "hex h = Some x" "hex l = Some y"
    using assms True by (simp split: option.splits if_splits)
  then obtain path' where "path = char_of (x * 16 + y) # path'" "char_of (x * 16 + y) \<noteq> CHR ''/''"
    "target_match rest' path' = Inr ()"
    using assms True r by (auto simp: Let_def split: list.splits if_splits)
  with True r x show ?thesis by (rule triple)
next
  case False
  then obtain path' where "path = c # path'" "target_match rest path' = Inr ()"
    using assms by (cases path) (simp_all split: if_splits)
  with False show ?thesis by (rule literal)
qed

lemma target_match_segments:
  "target_match original path = Inr () \<Longrightarrow> map pct_decode (slash_split original) = map Some (slash_split path)"
proof (induction "length original" arbitrary: original path rule: less_induct)
  case less
  show ?case
  proof (cases original)
    case Nil
    then show ?thesis using less by (simp split: if_splits)
  next
    case (Cons c rest)
    from less.prems [unfolded Cons] show ?thesis
    proof (cases rule: target_match_ConsE)
      case (triple h l rest' x y path')
      then have ih: "map pct_decode (slash_split rest') = map Some (slash_split path')"
        using less.hyps Cons by simp
      have "h \<noteq> CHR ''/''" "l \<noteq> CHR ''/''" using triple by auto
      then show ?thesis using triple Cons slash_split_decode_Cons [OF ih]
        by (simp add: split_on_Cons_other del: split_on.simps)
    next
      case (literal path')
      then have ih: "map pct_decode (slash_split rest) = map Some (slash_split path')"
        using less.hyps Cons by simp
      show ?thesis
      proof (cases "c = CHR ''/''")
        case True
        then show ?thesis using literal Cons ih by simp
      next
        case False
        then show ?thesis using literal Cons slash_split_decode_Cons [OF ih]
          by (simp add: split_on_Cons_other del: split_on.simps)
      qed
    qed
  qed
qed

text \<open>
  C18: An accepted target has the same segments before and after percent decoding: the raw path's
  segments decode, one by one, to those of the decoded path. No decoded segment is empty,
  \<open>.\<close> or \<open>..\<close>, but for the ends that the leading and one trailing slash leave.
\<close>

theorem target_segments_agree:
  assumes "validate_target original path query = Inr ()"
  shows "map pct_decode (slash_split original) = map Some (slash_split path) \<and>
    (\<exists>segs. list_all (\<lambda>s. \<not> bad_segment s) segs \<and>
       (slash_split path = [] # segs \<or> slash_split path = [] # segs @ [[]]))"
proof -
  from assms have "target_match original path = Inr ()" "path_segments path"
    by (auto simp: validate_target_def split: if_splits)
  then show ?thesis by (auto simp: target_match_segments path_segments_iff)
qed

theorem target_segments_agree_witness:
  "map pct_decode (slash_split ''/a%20b/c'') = [Some [], Some ''a b'', Some ''c'']"
proof -
  have "path_segments ''/a b/c''" "target_match ''/a%20b/c'' ''/a b/c'' = Inr ()" "query_scan ''q=1'' = Inr ()"
    "valid_utf8 ''/a b/c''" "valid_utf8 ''/a%20b/c''" "\<not> list_ex path_char_bad ''/a b/c''" by code_simp+
  then have "validate_target ''/a%20b/c'' ''/a b/c'' ''q=1'' = Inr ()"
    by (simp add: validate_target_def MAX_TARGET_BYTES_def)
  from target_segments_agree [OF this] show ?thesis by simp
qed

section \<open>Claims\<close>

lemma split_on_append_sep: "split_on c (a @ c # b) = split_on c a @ split_on c b"
  by (induction a) (auto split: list.splits)

lemma join_with_append:
  "ps \<noteq> [] \<Longrightarrow> qs \<noteq> [] \<Longrightarrow> join_with c (ps @ qs) = join_with c ps @ c # join_with c qs"
proof (induction ps)
  case (Cons p ps)
  then show ?case by (cases "ps = []") (simp_all add: join_with_Cons)
qed simp

text \<open>
  A wildcard claim \<open>base/*\<close> matches exactly the paths that have the segments of \<open>base\<close> first; in
  particular \<open>/api/*\<close> does not match \<open>/apis\<close>.
\<close>

lemma wildcard_claim_segments:
  "matches (base @ ''/*'') path \<longleftrightarrow> prefix (slash_split base) (slash_split path)"
proof -
  have "matches (base @ ''/*'') path \<longleftrightarrow> path = base \<or> (\<exists>r. path = base @ CHR ''/'' # r)"
  proof -
    have "starts_with path base \<and> length base < length path \<and> path ! length base = CHR ''/''
        \<longleftrightarrow> (\<exists>r. path = base @ CHR ''/'' # r)" (is "?l \<longleftrightarrow> ?r")
    proof
      assume ?l
      then have "path = base @ drop (length base) path" "drop (length base) path \<noteq> []"
        "hd (drop (length base) path) = CHR ''/''"
        by (auto simp: starts_with_def hd_drop_conv_nth, metis append_take_drop_id)
      then show ?r by (metis list.collapse)
    qed (auto simp: starts_with_def)
    then show ?thesis by (auto simp: matches_def ends_with_def remove_suffix_def Let_def)
  qed
  also have "\<dots> \<longleftrightarrow> prefix (slash_split base) (slash_split path)"
  proof
    assume "path = base \<or> (\<exists>r. path = base @ CHR ''/'' # r)"
    then show "prefix (slash_split base) (slash_split path)"
      by (auto simp: split_on_append_sep)
  next
    assume "prefix (slash_split base) (slash_split path)"
    then obtain qs where "slash_split path = slash_split base @ qs" by (auto simp: prefix_def)
    then have "path = join_with CHR ''/'' (slash_split base @ qs)" by (metis join_split)
    then show "path = base \<or> (\<exists>r. path = base @ CHR ''/'' # r)"
      by (cases "qs = []") (auto simp: join_with_append)
  qed
  finally show ?thesis .
qed

section \<open>Validated and filtered headers\<close>

definition header_ok :: "string \<times> string \<Rightarrow> bool" where
  "header_ok h \<longleftrightarrow> header_name_ok (fst h) \<and> length (fst h) \<le> 128 \<and> length (snd h) \<le> 8192 \<and> header_value_ok (snd h)"

lemma header_bytes_simps [simp]:
  "header_bytes [] = 0" "header_bytes (h # hs) = length (fst h) + length (snd h) + header_bytes hs"
  by (simp_all add: header_bytes_def split: prod.splits)

lemma header_scan_ok:
  "n \<le> MAX_HEADER_BYTES \<Longrightarrow>
   header_scan n hs = Inr () \<longleftrightarrow> list_all header_ok hs \<and> n + header_bytes hs \<le> MAX_HEADER_BYTES"
proof (induction n hs rule: header_scan.induct)
  case (2 n name v hs)
  then show ?case
    by (cases "n + (length name + length v) \<le> MAX_HEADER_BYTES") (auto simp: header_ok_def)
qed simp

lemma validate_headers_ok:
  "validate_headers hs = Inr () \<longleftrightarrow>
   length hs \<le> MAX_HEADER_PAIRS \<and> list_all header_ok hs \<and> header_bytes hs \<le> MAX_HEADER_BYTES"
  using header_scan_ok [of 0 hs] by (auto simp: validate_headers_def)

lemma header_bytes_filter: "header_bytes (filter P hs) \<le> header_bytes hs"
  by (induction hs) auto

lemma validate_headers_filter:
  "validate_headers hs = Inr () \<Longrightarrow> validate_headers (filter P hs) = Inr ()"
  using header_bytes_filter [of P hs]
  by (auto simp: validate_headers_ok list_all_iff intro: order_trans [OF length_filter_le])

text \<open>The names the \<open>Connection\<close> headers of a request nominate.\<close>

definition nominated_by :: "headers \<Rightarrow> string \<Rightarrow> bool" where
  "nominated_by hs n \<longleftrightarrow>
     (\<exists>v. (''connection'', v) \<in> set hs \<and> (\<exists>p\<in>set (split_on CHR '','' v). n = map to_lower (trim p)))"

lemma nominate_items_set:
  "nominate_items ps acc = Inr nom \<Longrightarrow> set nom = set acc \<union> (\<lambda>p. map to_lower (trim p)) ` set ps"
  by (induction ps acc rule: nominate_items.induct) (auto simp: Let_def split: if_splits)

lemma nominate_set:
  "nominate hs acc = Inr nom \<Longrightarrow> set nom = set acc \<union> {n. nominated_by hs n}"
proof (induction hs acc rule: nominate.induct)
  case (2 name v hs acc)
  show ?case
  proof (cases "name = ''connection''")
    case True
    then obtain acc' where a: "nominate_items (split_on CHR '','' v) acc = Inr acc'" "nominate hs acc' = Inr nom"
      using 2(3) by auto
    have "set nom = set acc' \<union> {n. nominated_by hs n}" using 2(2) [of acc'] True a by simp
    moreover have "{n. nominated_by ((name, v) # hs) n} =
        (\<lambda>p. map to_lower (trim p)) ` set (split_on CHR '','' v) \<union> {n. nominated_by hs n}"
      using True by (auto simp: nominated_by_def)
    ultimately show ?thesis using nominate_items_set [OF a(1)] by auto
  next
    case False
    then have "{n. nominated_by ((name, v) # hs) n} = {n. nominated_by hs n}"
      by (auto simp: nominated_by_def)
    then show ?thesis using 2 False by simp
  qed
qed (auto simp: nominated_by_def)

text \<open>
  C25: What \<open>filter_request_headers\<close> hands on: exactly the headers, in order and with repetitions, that are
  neither forbidden nor nominated by a \<open>Connection\<close> header, and these are again valid headers.
\<close>

theorem filtered_headers_exact:
  assumes "filter_request_headers hs = Inr out"
  shows "out = filter (\<lambda>h. \<not> request_forbidden (fst h) \<and> \<not> nominated_by hs (fst h)) hs \<and>
    validate_headers out = Inr ()"
proof -
  obtain nom where v: "validate_headers hs = Inr ()" and n: "nominate hs [] = Inr nom"
    and out: "out = filter (\<lambda>h. \<not> request_forbidden (fst h) \<and> fst h \<notin> set nom) hs"
    using assms by (auto simp: filter_request_headers_def)
  then show ?thesis using nominate_set [OF n] validate_headers_filter [OF v] by simp
qed

theorem filtered_headers_exact_witness:
  "validate_headers [(''accept'', ''*/*'')] = Inr ()"
proof -
  let ?hs = "[(''accept'', ''*/*''), (''connection'', ''close, X-Hop''), (''x-hop'', ''1'')]"
  have ok: "header_name_ok ''accept''" "header_value_ok ''*/*''" "header_name_ok ''connection''"
    "header_value_ok ''close, X-Hop''" "header_name_ok ''x-hop''" "header_value_ok ''1''" by code_simp+
  have "header_scan 0 ?hs = Inr ()" by (simp add: ok MAX_HEADER_BYTES_def)
  then have v: "validate_headers ?hs = Inr ()" by (simp add: validate_headers_def MAX_HEADER_PAIRS_def)
  have n: "nominate ?hs [] = Inr [''x-hop'', ''close'']" by code_simp
  have f: "filter (\<lambda>h. \<not> request_forbidden (fst h) \<and> fst h \<notin> set [''x-hop'', ''close'']) ?hs = [(''accept'', ''*/*'')]"
    by code_simp
  have "filter_request_headers ?hs = Inr [(''accept'', ''*/*'')]"
    unfolding filter_request_headers_def v n on_ok.simps f ..
  from filtered_headers_exact [OF this] show ?thesis by (rule conjunct2)
qed

end
