(* ===== verification/Http_Base64.thy ===== *)
theory Http_Base64
  imports Http_Utf8 "HOL-Library.Word"
begin

text \<open>
  \<open>encode_body64\<close> and \<open>decode_body64\<close> of \<open>extension_http/codec.cpp\<close>. A \<open>Binary\<close> is a list
  of bytes (\<open>8 word\<close>), the \<open>unsigned int\<close>s of both routines are \<open>32 word\<close>s with the source's
  shifts and masks. The loops take three bytes or four characters at a time. The two routines are
  inverse to each other, so every body has exactly one accepted spelling.
\<close>

type_synonym binary = "8 word list"
type_synonym u32 = "32 word"

definition MAX_BODY_BYTES :: nat where "MAX_BODY_BYTES = 8 * 1024 * 1024"
definition MAX_BODY64 :: nat where "MAX_BODY64 = (MAX_BODY_BYTES + 2) div 3 * 4"

definition BASE64 :: string where
  "BASE64 = ''ABCDEFGHIJKLMNOPQRSTUVWXYZabcdefghijklmnopqrstuvwxyz0123456789+/''"

definition base64_char :: "u32 \<Rightarrow> char" where
  "base64_char k = BASE64 ! unat k"

definition pad :: char where "pad = CHR ''=''"

fun encode_groups :: "binary \<Rightarrow> string" where
  "encode_groups [] = []"
| "encode_groups [x] =
     (let a = ucast x :: u32; b = 0 :: u32
      in [base64_char (drop_bit 2 a), base64_char (push_bit 4 (a AND 3) OR drop_bit 4 b), pad, pad])"
| "encode_groups [x, y] =
     (let a = ucast x :: u32; b = ucast y :: u32; c = 0 :: u32
      in [base64_char (drop_bit 2 a), base64_char (push_bit 4 (a AND 3) OR drop_bit 4 b),
          base64_char (push_bit 2 (b AND 15) OR drop_bit 6 c), pad])"
| "encode_groups (x # y # z # body) =
     (let a = ucast x :: u32; b = ucast y :: u32; c = ucast z :: u32
      in [base64_char (drop_bit 2 a), base64_char (push_bit 4 (a AND 3) OR drop_bit 4 b),
          base64_char (push_bit 2 (b AND 15) OR drop_bit 6 c), base64_char (c AND 63)]
         @ encode_groups body)"

definition encode_body64 :: "binary \<Rightarrow> string codec_result" where
  "encode_body64 body = (if MAX_BODY_BYTES < length body then Inl TOO_LARGE else Inr (encode_groups body))"

text \<open>\<open>BASE64.find(c)\<close>.\<close>

definition base64_find :: "char \<Rightarrow> u32 option" where
  "base64_find c = map_option of_nat (find_char c BASE64 0)"

definition padding_of :: "string \<Rightarrow> nat" where
  "padding_of t =
     (if 2 \<le> length t \<and> drop (length t - 2) t = [pad, pad] then 2
      else if 1 \<le> length t \<and> drop (length t - 1) t = [pad] then 1 else 0)"

text \<open>
  One entry of the quad: the character at position \<open>j\<close> of a quad that is the last one or not.
\<close>

definition quad_entry :: "nat \<Rightarrow> bool \<Rightarrow> nat \<Rightarrow> char \<Rightarrow> u32 option" where
  "quad_entry padding final j c =
     (if c = pad \<and> final \<and> 4 - padding \<le> j then Some 0 else base64_find c)"

fun decode_quads :: "nat \<Rightarrow> nat \<Rightarrow> string \<Rightarrow> binary \<Rightarrow> binary codec_result" where
  "decode_quads padding sz (c0 # c1 # c2 # c3 # rest) out =
     (let final = (rest = [])
      in case (quad_entry padding final 0 c0, quad_entry padding final 1 c1,
               quad_entry padding final 2 c2, quad_entry padding final 3 c3) of
           (Some q0, Some q1, Some q2, Some q3) \<Rightarrow>
             (if (padding = 2 \<and> final \<and> q1 AND 15 \<noteq> 0) \<or> (padding = 1 \<and> final \<and> q2 AND 3 \<noteq> 0)
              then Inl INVALID
              else let out = out @ [ucast (push_bit 2 q0 OR drop_bit 4 q1)];
                       out = (if length out < sz then out @ [ucast (push_bit 4 q1 OR drop_bit 2 q2)] else out);
                       out = (if length out < sz then out @ [ucast (push_bit 6 q2 OR q3)] else out)
                   in decode_quads padding sz rest out)
         | _ \<Rightarrow> Inl INVALID)"
| "decode_quads padding sz _ out = Inr out"

definition decode_body64 :: "string \<Rightarrow> binary codec_result" where
  "decode_body64 t =
     (if MAX_BODY64 < length t then Inl TOO_LARGE
      else if length t mod 4 \<noteq> 0 then Inl INVALID
      else let padding = padding_of t; sz = length t div 4 * 3 - padding
           in if MAX_BODY_BYTES < sz then Inl TOO_LARGE
              else decode_quads padding sz t [])"

section \<open>The alphabet\<close>

lemma length_BASE64 [simp]: "length BASE64 = 64"
  by (simp add: BASE64_def)

lemma distinct_BASE64: "distinct BASE64"
  unfolding BASE64_def by code_simp

lemma pad_not_BASE64: "pad \<notin> set BASE64"
  by (simp add: BASE64_def pad_def)

lemma find_char_distinct: "distinct s \<Longrightarrow> i < length s \<Longrightarrow> find_char (s ! i) s 0 = Some i"
proof -
  assume d: "distinct s" and i: "i < length s"
  have "takeWhile (\<lambda>x. x \<noteq> s ! i) s = take i s"
    using d i by (intro takeWhile_eq_take_P_nth) (auto simp: nth_eq_iff_index_eq)
  then show ?thesis using i by (simp add: find_char_def Let_def)
qed

lemma sextet_bound: "(k::u32) < 64 \<longleftrightarrow> unat k < 64"
  by (simp add: word_less_nat_alt)

lemma base64_find_char: "k < 64 \<Longrightarrow> base64_find (base64_char k) = Some k"
  using find_char_distinct [OF distinct_BASE64, of "unat k"]
  by (simp add: base64_find_def base64_char_def sextet_bound)

lemma base64_char_not_pad: "k < 64 \<Longrightarrow> base64_char k \<noteq> pad"
  using pad_not_BASE64 nth_mem [of "unat k" BASE64] by (metis base64_char_def length_BASE64 sextet_bound)

lemma base64_find_SomeD: "base64_find c = Some k \<Longrightarrow> k < 64 \<and> base64_char k = c \<and> c \<noteq> pad"
proof -
  assume "base64_find c = Some k"
  then obtain i where i: "find_char c BASE64 0 = Some i" "k = of_nat i" by (auto simp: base64_find_def)
  from find_char_SomeD [OF i(1)] have "i < 64" "BASE64 ! i = c" by simp_all
  moreover from this have "unat k = i" by (simp add: i unat_of_nat)
  ultimately show ?thesis
    using pad_not_BASE64 nth_mem [of i BASE64] by (auto simp: sextet_bound base64_char_def)
qed

section \<open>Bytes and sextets\<close>

lemma sextet_take_bit: "(k::u32) < 64 \<longleftrightarrow> take_bit 6 k = k"
proof -
  have "take_bit 6 k = k \<longleftrightarrow> take_bit 6 (unat k) = unat k"
    by (simp add: word_unat_eq_iff unsigned_take_bit_eq)
  then show ?thesis by (simp add: sextet_bound take_bit_nat_eq_self_iff)
qed

lemma sextet_no_bit: "(k::u32) < 64 \<Longrightarrow> 6 \<le> n \<Longrightarrow> \<not> bit k n"
  unfolding sextet_take_bit using bit_take_bit_iff [of 6 k n] by auto

lemma sextetI:
  assumes "\<And>n. bit (k::u32) n \<Longrightarrow> n < 6"
  shows "k < 64"
  unfolding sextet_take_bit by (rule bit_word_eqI) (auto simp: bit_take_bit_iff assms)

lemma and_masks: "(a::u32) AND 3 = take_bit 2 a" "a AND 15 = take_bit 4 a" "a AND 63 = take_bit 6 a"
  by (simp_all add: take_bit_eq_mask mask_eq_exp_minus_1)

lemma byte_no_bit: "8 \<le> n \<Longrightarrow> \<not> bit (x :: 8 word) n"
  using bit_imp_le_length [of x n] by auto

lemma sextets_of_bytes:
  fixes x y z :: "8 word"
  shows "drop_bit 2 (ucast x :: u32) < 64"
    "push_bit 4 ((ucast x :: u32) AND 3) OR drop_bit 4 (ucast y) < 64"
    "push_bit 2 ((ucast y :: u32) AND 15) OR drop_bit 6 (ucast z) < 64"
    "(ucast z :: u32) AND 63 < 64"
  unfolding and_masks
  by (rule sextetI, auto simp: bit_simps dest: bit_imp_le_length)+

lemma less_8_cases:
  assumes "(n::nat) < 8"
  obtains "n = 0" | "n = 1" | "n = 2" | "n = 3" | "n = 4" | "n = 5" | "n = 6" | "n = 7"
proof -
  have "n \<in> set [0..<8]" using assms by simp
  moreover have "[0..<8] = [0::nat, 1, 2, 3, 4, 5, 6, 7]" by (simp add: upt_rec)
  ultimately have "n = 0 \<or> n = 1 \<or> n = 2 \<or> n = 3 \<or> n = 4 \<or> n = 5 \<or> n = 6 \<or> n = 7"
    by (simp only: set_simps insert_iff empty_iff simp_thms)
  then show ?thesis using that by blast
qed

lemma byte_eqI:
  assumes "bit x 0 = bit y 0" "bit x 1 = bit y 1" "bit x 2 = bit y 2" "bit x 3 = bit y 3"
    "bit x 4 = bit y 4" "bit x 5 = bit y 5" "bit x 6 = bit y 6" "bit x 7 = bit y 7"
  shows "(x :: 8 word) = y"
proof (rule bit_word_eqI)
  fix n assume "n < LENGTH(8)"
  then have "n < 8" by simp
  then show "bit x n = bit y n" by (cases rule: less_8_cases) (simp_all only: assms)
qed

lemma sextet_eqI:
  assumes "k < 64" "l < 64" "bit k 0 = bit l 0" "bit k 1 = bit l 1" "bit k 2 = bit l 2"
    "bit k 3 = bit l 3" "bit k 4 = bit l 4" "bit k 5 = bit l 5"
  shows "(k :: u32) = l"
proof (rule bit_word_eqI)
  fix n assume "n < LENGTH(32)"
  show "bit k n = bit l n"
  proof (cases "n < 6")
    case True
    then have "n < 8" by simp
    then show ?thesis using True by (cases rule: less_8_cases) (simp_all add: assms [unfolded One_nat_def])
  next
    case False
    then show ?thesis using sextet_no_bit [of k n] sextet_no_bit [of l n] assms by simp
  qed
qed

lemma bytes_of_sextets_of_bytes:
  fixes x y z :: "8 word"
  shows "ucast (push_bit 2 (drop_bit 2 (ucast x :: u32)) OR
      drop_bit 4 (push_bit 4 ((ucast x :: u32) AND 3) OR drop_bit 4 (ucast y))) = x"
    "ucast (push_bit 4 (push_bit 4 ((ucast x :: u32) AND 3) OR drop_bit 4 (ucast y)) OR
      drop_bit 2 (push_bit 2 ((ucast y :: u32) AND 15) OR drop_bit 6 (ucast z))) = y"
    "ucast (push_bit 6 (push_bit 2 ((ucast y :: u32) AND 15) OR drop_bit 6 (ucast z)) OR
      ((ucast z :: u32) AND 63)) = z"
  unfolding and_masks
  by (rule byte_eqI; simp add: bit_simps byte_no_bit)+

text \<open>Conversely the sextets are read off the bytes they were packed into.\<close>

lemma sextets_of_bytes_of_sextets:
  fixes p q r s :: u32
  assumes k: "p < 64" "q < 64" "r < 64" "s < 64"
  defines "x \<equiv> ucast (push_bit 2 p OR drop_bit 4 q) :: 8 word"
    and "y \<equiv> ucast (push_bit 4 q OR drop_bit 2 r) :: 8 word"
    and "z \<equiv> ucast (push_bit 6 r OR s) :: 8 word"
  shows "drop_bit 2 (ucast x :: u32) = p"
    "push_bit 4 ((ucast x :: u32) AND 3) OR drop_bit 4 (ucast y) = q"
    "push_bit 2 ((ucast y :: u32) AND 15) OR drop_bit 6 (ucast z) = r"
    "(ucast z :: u32) AND 63 = s"
  using sextets_of_bytes(1) [of x] sextets_of_bytes(2) [of x y] sextets_of_bytes(3) [of y z]
    sextets_of_bytes(4) [of z] k unfolding and_masks
  by - (rule sextet_eqI, assumption, assumption; simp add: x_def y_def z_def bit_simps sextet_no_bit)+

section \<open>Round trip\<close>

definition pad_len :: "nat \<Rightarrow> nat" where
  "pad_len n = (3 - n mod 3) mod 3"

lemma groups_Suc: "(5 + n) div 3 = Suc (Suc (Suc n) div 3)"
  using div_add_self2 [of 3 "n + 2"] by (simp add: add.commute)

lemma encode_groups_length: "length (encode_groups b) = (length b + 2) div 3 * 4"
  by (induction b rule: encode_groups.induct) (simp_all add: Let_def groups_Suc)

lemma encode_groups_Nil [simp]: "encode_groups b = [] \<longleftrightarrow> b = []"
  by (cases b rule: encode_groups.cases) (simp_all add: Let_def)

lemma padding_of_append: "4 \<le> length u \<Longrightarrow> padding_of (t @ u) = padding_of u"
  by (simp add: padding_of_def)

lemma padding_of_quad: "4 \<le> length u \<Longrightarrow> padding_of (c0 # c1 # c2 # c3 # u) = padding_of u"
  using padding_of_append [of u "[c0, c1, c2, c3]"] by simp

lemma padding_of_encode: "padding_of (encode_groups b) = pad_len (length b)"
proof (induction b rule: encode_groups.induct)
  case (4 x y z body)
  show ?case
  proof (cases "body = []")
    case True
    then show ?thesis
      using sextets_of_bytes(4) [of z]
      by (simp add: Let_def padding_of_def pad_len_def base64_char_not_pad)
  next
    case False
    then have "4 \<le> length (encode_groups body)"
      by (cases body rule: encode_groups.cases) (simp_all add: Let_def)
    then show ?thesis using 4 by (simp add: Let_def padding_of_quad pad_len_def)
  qed
next
  case (3 x y)
  show ?case using sextets_of_bytes(3) [of y 0]
    by (simp add: Let_def padding_of_def pad_len_def base64_char_not_pad)
qed (simp_all add: Let_def padding_of_def pad_len_def)

lemma quad_entry_char: "k < 64 \<Longrightarrow> quad_entry padding final j (base64_char k) = Some k"
  by (simp add: quad_entry_def base64_find_char base64_char_not_pad)

lemma quad_entry_pad: "4 - padding \<le> j \<Longrightarrow> quad_entry padding True j pad = Some 0"
  by (simp add: quad_entry_def)

lemma ucast_0 [simp]: "(ucast (0 :: 8 word) :: u32) = 0"
  by simp

lemma short_group_low_bits:
  "(push_bit 4 ((ucast x :: u32) AND 3) OR drop_bit 4 (ucast (0 :: 8 word))) AND 15 = 0"
  "(push_bit 2 ((ucast y :: u32) AND 15) OR drop_bit 6 (ucast (0 :: 8 word))) AND 3 = 0"
  unfolding and_masks by (rule bit_word_eqI; auto simp: bit_simps)+

lemma decode_encode_groups:
  "padding = pad_len (length b) \<Longrightarrow> sz = length out + length b \<Longrightarrow>
   decode_quads padding sz (encode_groups b) out = Inr (out @ b)"
proof (induction b arbitrary: out rule: encode_groups.induct)
  case (2 x)
  define p q where "p = drop_bit 2 (ucast x :: u32)"
    and "q = push_bit 4 ((ucast x :: u32) AND 3) OR drop_bit 4 (ucast (0 :: 8 word))"
  have e: "encode_groups [x] = [base64_char p, base64_char q, pad, pad]"
    by (simp add: p_def q_def Let_def)
  have "p < 64" "q < 64" "q AND 15 = 0" "ucast (push_bit 2 p OR drop_bit 4 q) = x"
    unfolding p_def q_def
    by (rule sextets_of_bytes short_group_low_bits bytes_of_sextets_of_bytes)+
  moreover have "padding = 2" using 2(1) by (simp add: pad_len_def)
  ultimately show ?case using 2(2) unfolding e
    by (simp add: Let_def quad_entry_char quad_entry_pad)
next
  case (3 x y)
  define p q r where "p = drop_bit 2 (ucast x :: u32)"
    and "q = push_bit 4 ((ucast x :: u32) AND 3) OR drop_bit 4 (ucast y)"
    and "r = push_bit 2 ((ucast y :: u32) AND 15) OR drop_bit 6 (ucast (0 :: 8 word))"
  have e: "encode_groups [x, y] = [base64_char p, base64_char q, base64_char r, pad]"
    by (simp add: p_def q_def r_def Let_def)
  have "p < 64" "q < 64" "r < 64" "r AND 3 = 0" "ucast (push_bit 2 p OR drop_bit 4 q) = x"
    "ucast (push_bit 4 q OR drop_bit 2 r) = y"
    unfolding p_def q_def r_def
    by (rule sextets_of_bytes short_group_low_bits bytes_of_sextets_of_bytes)+
  moreover have "padding = 1" using 3(1) by (simp add: pad_len_def)
  ultimately show ?case using 3(2) unfolding e
    by (simp add: Let_def quad_entry_char quad_entry_pad)
next
  case (4 x y z body)
  define p q r s where "p = drop_bit 2 (ucast x :: u32)"
    and "q = push_bit 4 ((ucast x :: u32) AND 3) OR drop_bit 4 (ucast y)"
    and "r = push_bit 2 ((ucast y :: u32) AND 15) OR drop_bit 6 (ucast z)"
    and "s = (ucast z :: u32) AND 63"
  have e: "encode_groups (x # y # z # body) =
      base64_char p # base64_char q # base64_char r # base64_char s # encode_groups body"
    by (simp add: p_def q_def r_def s_def Let_def)
  have "p < 64" "q < 64" "r < 64" "s < 64" "ucast (push_bit 2 p OR drop_bit 4 q) = x"
    "ucast (push_bit 4 q OR drop_bit 2 r) = y" "ucast (push_bit 6 r OR s) = z"
    unfolding p_def q_def r_def s_def
    by (rule sextets_of_bytes bytes_of_sextets_of_bytes)+
  moreover have "decode_quads padding sz (encode_groups body) (out @ [x, y, z]) = Inr ((out @ [x, y, z]) @ body)"
    using 4 by (simp add: pad_len_def)
  moreover have "padding = 0" if "body = []" using that 4(2) by (simp add: pad_len_def)
  ultimately show ?case using 4(3) unfolding e
    by (auto simp: Let_def quad_entry_char)
qed simp

text \<open>Conversely, whatever is decoded is the unique spelling of what it decodes to.\<close>

lemma quad_entry_open:
  "quad_entry padding final j c = Some k \<Longrightarrow> \<not> (c = pad \<and> final \<and> 4 - padding \<le> j) \<Longrightarrow>
   k < 64 \<and> base64_char k = c"
  using base64_find_SomeD by (auto simp: quad_entry_def split: if_splits)

lemma encode_groups_packed:
  assumes "p < 64" "q < 64" "r < 64" "s < 64"
  shows "encode_groups (ucast (push_bit 2 p OR drop_bit 4 q) # ucast (push_bit 4 q OR drop_bit 2 r) #
      ucast (push_bit 6 r OR s) # body) =
    base64_char p # base64_char q # base64_char r # base64_char s # encode_groups body"
  unfolding encode_groups.simps(4) Let_def by (simp only: sextets_of_bytes_of_sextets [OF assms] append.simps)

lemma dropped_bits:
  "(q::u32) AND 15 = 0 \<Longrightarrow> (ucast (push_bit 4 q OR drop_bit 2 0) :: 8 word) = 0"
  "(r::u32) AND 3 = 0 \<Longrightarrow> (ucast (push_bit 6 r OR 0) :: 8 word) = 0"
proof -
  show "(ucast (push_bit 4 q OR drop_bit 2 0) :: 8 word) = 0" if "q AND 15 = 0"
  proof (rule bit_word_eqI)
    fix n
    have "\<not> bit (take_bit 4 q) (n - 4)" using that by (simp add: and_masks)
    then show "n < LENGTH(8) \<Longrightarrow> bit (ucast (push_bit 4 q OR drop_bit 2 0) :: 8 word) n = bit 0 n"
      by (auto simp: bit_simps)
  qed
  show "(ucast (push_bit 6 r OR 0) :: 8 word) = 0" if "r AND 3 = 0"
  proof (rule bit_word_eqI)
    fix n
    have "\<not> bit (take_bit 2 r) (n - 6)" using that by (simp add: and_masks)
    then show "n < LENGTH(8) \<Longrightarrow> bit (ucast (push_bit 6 r OR 0) :: 8 word) n = bit 0 n"
      by (auto simp: bit_simps)
  qed
qed

lemma encode_groups_packed_short:
  "p < 64 \<Longrightarrow> q < 64 \<Longrightarrow> q AND 15 = 0 \<Longrightarrow>
   encode_groups [ucast (push_bit 2 p OR drop_bit 4 q)] = [base64_char p, base64_char q, pad, pad]"
  "p < 64 \<Longrightarrow> q < 64 \<Longrightarrow> r < 64 \<Longrightarrow> r AND 3 = 0 \<Longrightarrow>
   encode_groups [ucast (push_bit 2 p OR drop_bit 4 q), ucast (push_bit 4 q OR drop_bit 2 r)] =
     [base64_char p, base64_char q, base64_char r, pad]"
  using sextets_of_bytes_of_sextets(1,2) [of p q 0 0] sextets_of_bytes_of_sextets(1-3) [of p q r 0]
    dropped_bits(1) [of q] dropped_bits(2) [of r]
  unfolding encode_groups.simps(2,3) Let_def ucast_0 [symmetric] by simp_all

lemma padding_of_four:
  "padding_of [c0, c1, c2, c3] = (if c3 = pad then if c2 = pad then 2 else 1 else 0)"
  by (simp add: padding_of_def)

lemma decode_final_quad:
  assumes "padding = padding_of [c0, c1, c2, c3]" and "sz = length out + (3 - padding)"
    and "decode_quads padding sz [c0, c1, c2, c3] out = Inr r"
  shows "\<exists>b. r = out @ b \<and> encode_groups b = [c0, c1, c2, c3] \<and> length b = 3 - padding"
proof -
  obtain q0 q1 q2 q3 where e: "quad_entry padding True 0 c0 = Some q0" "quad_entry padding True 1 c1 = Some q1"
    "quad_entry padding True 2 c2 = Some q2" "quad_entry padding True 3 c3 = Some q3"
    and low: "\<not> ((padding = 2 \<and> q1 AND 15 \<noteq> 0) \<or> (padding = 1 \<and> q2 AND 3 \<noteq> 0))"
    using assms(3) by (simp add: Let_def split: option.splits if_splits)
  have le: "padding \<le> 2" using assms(1) by (simp add: padding_of_four)
  have q01: "q0 < 64 \<and> base64_char q0 = c0" "q1 < 64 \<and> base64_char q1 = c1"
    using e le by (auto intro!: quad_entry_open)
  consider (none) "padding = 0" | (one) "padding = 1" "c3 = pad" "c2 \<noteq> pad" | (two) "padding = 2" "c3 = pad" "c2 = pad"
    using assms(1) by (auto simp: padding_of_four split: if_splits)
  then show ?thesis
  proof cases
    case none
    then have q23: "q2 < 64 \<and> base64_char q2 = c2" "q3 < 64 \<and> base64_char q3 = c3"
      using e by (auto intro!: quad_entry_open)
    have "r = out @ [ucast (push_bit 2 q0 OR drop_bit 4 q1), ucast (push_bit 4 q1 OR drop_bit 2 q2),
        ucast (push_bit 6 q2 OR q3)]"
      using assms(2,3) e none low by (simp add: Let_def)
    then show ?thesis using q01 q23 none encode_groups_packed [of q0 q1 q2 q3 "[]"] by simp
  next
    case one
    then have q2: "q2 < 64 \<and> base64_char q2 = c2" using e by (auto intro!: quad_entry_open)
    have "r = out @ [ucast (push_bit 2 q0 OR drop_bit 4 q1), ucast (push_bit 4 q1 OR drop_bit 2 q2)]"
      using assms(2,3) e one low by (simp add: Let_def)
    then show ?thesis using q01 q2 one low encode_groups_packed_short(2) [of q0 q1 q2] by simp
  next
    case two
    have "r = out @ [ucast (push_bit 2 q0 OR drop_bit 4 q1)]"
      using assms(2,3) e two low by (simp add: Let_def)
    then show ?thesis using q01 two low encode_groups_packed_short(1) [of q0 q1] by simp
  qed
qed

lemma decode_quads_sound:
  "4 dvd length t \<Longrightarrow> padding = padding_of t \<Longrightarrow> sz = length out + (length t div 4 * 3 - padding) \<Longrightarrow>
   decode_quads padding sz t out = Inr r \<Longrightarrow>
   \<exists>b. r = out @ b \<and> encode_groups b = t \<and> length b = length t div 4 * 3 - padding"
proof (induction "length t" arbitrary: t out rule: less_induct)
  case less
  show ?case
  proof (cases "t = []")
    case True
    then show ?thesis using less.prems by (intro exI [of _ "[]"]) simp
  next
    case False
    then have "4 \<le> length t" using less.prems(1) by (auto dest: dvd_imp_le)
    then obtain c0 c1 c2 c3 rest where t: "t = c0 # c1 # c2 # c3 # rest"
      by (auto simp: Suc_le_length_iff eval_nat_numeral)
    show ?thesis
    proof (cases "rest = []")
      case True
      then show ?thesis using less.prems decode_final_quad [of padding c0 c1 c2 c3 sz out r] t by simp
    next
      case False
      have d: "4 dvd length rest" using less.prems(1) t by simp presburger
      then have l: "4 \<le> length rest" using False by (auto dest: dvd_imp_le)
      have pr: "padding = padding_of rest" using less.prems(2) t l by (simp add: padding_of_quad)
      then have le: "padding \<le> 2" by (simp add: padding_of_def)
      obtain q0 q1 q2 q3 where e: "quad_entry padding False 0 c0 = Some q0"
        "quad_entry padding False 1 c1 = Some q1" "quad_entry padding False 2 c2 = Some q2"
        "quad_entry padding False 3 c3 = Some q3"
        using less.prems(4) t False by (simp add: Let_def split: option.splits)
      have q: "q0 < 64 \<and> base64_char q0 = c0" "q1 < 64 \<and> base64_char q1 = c1"
        "q2 < 64 \<and> base64_char q2 = c2" "q3 < 64 \<and> base64_char q3 = c3"
        using e by (auto intro!: quad_entry_open)
      define x y z where "x = (ucast (push_bit 2 q0 OR drop_bit 4 q1) :: 8 word)"
        and "y = (ucast (push_bit 4 q1 OR drop_bit 2 q2) :: 8 word)"
        and "z = (ucast (push_bit 6 q2 OR q3) :: 8 word)"
      have n: "1 \<le> length rest div 4" using l by linarith
      have t4: "length t div 4 = Suc (length rest div 4)"
        using div_add_self1 [of 4 "length rest"] t by simp
      have sz: "sz = length (out @ [x, y, z]) + (length rest div 4 * 3 - padding)"
        using less.prems(3) le n by (simp add: t4)
      then have big: "Suc (length out) < sz" "Suc (Suc (length out)) < sz" using n le by simp_all
      have "decode_quads padding sz rest (out @ [x, y, z]) = Inr r"
        using less.prems(4) t False e big by (simp add: Let_def x_def y_def z_def)
      from less.hyps [OF _ d pr sz this] t obtain b where b: "r = (out @ [x, y, z]) @ b"
        "encode_groups b = rest" "length b = length rest div 4 * 3 - padding" by auto
      then have "encode_groups (x # y # z # b) = t"
        using q t encode_groups_packed [of q0 q1 q2 q3 b] by (simp add: x_def y_def z_def)
      then show ?thesis using b n le by (intro exI [of _ "x # y # z # b"]) (simp add: t4)
    qed
  qed
qed

lemma pad_len_size: "(n + 2) div 3 * 3 - pad_len n = n"
proof -
  have n: "n = n mod 3 + 3 * (n div 3)" by simp
  consider "n mod 3 = 0" | "n mod 3 = 1" | "n mod 3 = 2" by linarith
  then show ?thesis
  proof cases
    case 1
    then obtain k where "n = 3 * k" using n by auto
    then show ?thesis by (simp add: pad_len_def)
  next
    case 2
    then obtain k where "n = 1 + 3 * k" using n by metis
    then show ?thesis by (simp add: pad_len_def)
  next
    case 3
    then obtain k where "n = 2 + 3 * k" using n by metis
    with 3 show ?thesis by (simp only: pad_len_def) simp
  qed
qed

lemma body64_inverse: "decode_body64 t = Inr b \<longleftrightarrow> encode_body64 b = Inr t"
proof
  assume "decode_body64 t = Inr b"
  then have d: "4 dvd length t" and s: "length t div 4 * 3 - padding_of t \<le> MAX_BODY_BYTES"
    and q: "decode_quads (padding_of t) (length t div 4 * 3 - padding_of t) t [] = Inr b"
    by (auto simp: decode_body64_def Let_def dvd_eq_mod_eq_0 split: if_splits)
  from decode_quads_sound [OF d refl _ q] s show "encode_body64 b = Inr t"
    by (auto simp: encode_body64_def)
next
  assume "encode_body64 b = Inr t"
  then have t: "t = encode_groups b" and b: "length b \<le> MAX_BODY_BYTES"
    by (auto simp: encode_body64_def split: if_splits)
  have l: "length t = (length b + 2) div 3 * 4" by (simp add: t encode_groups_length)
  have m: "length t \<le> MAX_BODY64"
    unfolding l MAX_BODY64_def using b by (intro mult_le_mono1 div_le_mono) simp
  have s: "length t div 4 * 3 - padding_of t = length b"
    using pad_len_size [of "length b"] by (simp add: l) (simp add: t padding_of_encode)
  have "decode_quads (padding_of t) (length b) t [] = Inr b"
    unfolding t by (subst decode_encode_groups) (simp_all add: padding_of_encode)
  then show "decode_body64 t = Inr b"
    using m b s l by (simp add: decode_body64_def Let_def)
qed

text \<open>
  C15: A text decodes to a body exactly when it is the encoding of that body: the two routines are
  inverse to each other, and every body has one accepted spelling.
\<close>

theorem body64_round_trip: "decode_body64 t = Inr b \<longleftrightarrow> encode_body64 b = Inr t"
  by (rule body64_inverse)

end
