(* ===== verification/Json.thy ===== *)
theory Json
  imports Cpp_Strings
begin

text \<open>
  The part of \<open>Json::Value\<close> the kernel uses. \<open>JInt\<close> is a number JsonCpp reports as integral,
  \<open>JReal\<close> any other number, by its text. Objects are association lists with distinct keys;
  JsonCpp's ordering of members shows only in its writer, which is not part of the repository.
\<close>

datatype json =
    JNull
  | JBool bool
  | JInt int
  | JReal string
  | JString string
  | JArray "json list"
  | JObject "(string \<times> json) list"

fun is_array :: "json \<Rightarrow> bool" where
  "is_array (JArray _) = True"
| "is_array _ = False"

fun is_object :: "json \<Rightarrow> bool" where
  "is_object (JObject _) = True"
| "is_object _ = False"

fun is_string :: "json \<Rightarrow> bool" where
  "is_string (JString _) = True"
| "is_string _ = False"

text \<open>\<open>isInt\<close>: integral and within 32 bits.\<close>

fun is_int :: "json \<Rightarrow> bool" where
  "is_int (JInt i) \<longleftrightarrow> int_min \<le> i \<and> i \<le> int_max"
| "is_int _ = False"

fun elems :: "json \<Rightarrow> json list" where
  "elems (JArray xs) = xs"
| "elems _ = []"

fun members :: "json \<Rightarrow> (string \<times> json) list" where
  "members (JObject ms) = ms"
| "members _ = []"

definition is_member :: "string \<Rightarrow> json \<Rightarrow> bool" where
  "is_member k v \<longleftrightarrow> map_of (members v) k \<noteq> None"

text \<open>\<open>v[k]\<close> on a constant object: null when the member is absent.\<close>

definition get_member :: "string \<Rightarrow> json \<Rightarrow> json" where
  "get_member k v = (case map_of (members v) k of Some x \<Rightarrow> x | None \<Rightarrow> JNull)"

text \<open>\<open>v[k] = x\<close>.\<close>

definition set_member :: "string \<Rightarrow> json \<Rightarrow> json \<Rightarrow> json" where
  "set_member k x v = JObject (AList.update k x (members v))"

fun as_string :: "json \<Rightarrow> string" where
  "as_string (JString s) = s"
| "as_string _ = []"

lemma get_set_member [simp]: "get_member k (set_member j x v) = (if k = j then x else get_member k v)"
  by (simp add: get_member_def set_member_def map_of_update)

lemma is_object_set_member [simp]: "is_object (set_member k x v)"
  by (simp add: set_member_def)

end
