(* ===== verification/Http_Sax.thy ===== *)
theory Http_Sax
  imports Http_Target Http_Base64 Json
begin

text \<open>
  The JSON interface of \<open>extension_http\<close>. The codec and the frame reader use
  \<open>nlohmann::ordered_json\<close> in three ways, which are the parameters of the model: \<open>parse\<close> without
  exceptions (\<open>None\<close> is a discarded value), \<open>dump\<close>, and \<open>sax_parse\<close>, given by the events a
  text produces up to its end or its first syntax error and by whether it is well formed. The events
  are handed to a reader until it returns false.

  The second half is the schema-aware prepass of \<open>codec.cpp\<close>, the class \<open>Preflight\<close>, as a
  step function on events, with the theorem that on the events of a document it computes a
  property of the document tree.
\<close>

section \<open>The JSON library\<close>

datatype sax_event =
    SaxNull
  | SaxBool bool
  | SaxInt int
  | SaxFloat string
  | SaxString string
  | SaxBinary
  | SaxStartObject
  | SaxKey string
  | SaxEndObject
  | SaxStartArray
  | SaxEndArray

record json_lib =
  json_parse :: "string \<Rightarrow> json option"
  json_dump :: "json \<Rightarrow> string"
  json_sax :: "string \<Rightarrow> sax_event list \<times> bool"

fun feed :: "('s \<Rightarrow> sax_event \<Rightarrow> bool \<times> 's) \<Rightarrow> sax_event list \<Rightarrow> 's \<Rightarrow> bool \<times> 's" where
  "feed h [] st = (True, st)"
| "feed h (e # es) st = (case h st e of (ok, st') \<Rightarrow> if ok then feed h es st' else (False, st'))"

definition sax_parse :: "json_lib \<Rightarrow> ('s \<Rightarrow> sax_event \<Rightarrow> bool \<times> 's) \<Rightarrow> 's \<Rightarrow> string \<Rightarrow> bool \<times> 's" where
  "sax_parse lib h st raw =
     (case json_sax lib raw of (es, well_formed) \<Rightarrow> (case feed h es st of (ok, st') \<Rightarrow> (ok \<and> well_formed, st')))"

text \<open>The events of a document, in document order; objects may repeat a key.\<close>

fun doc_events :: "json \<Rightarrow> sax_event list"
  and member_events :: "(string \<times> json) list \<Rightarrow> sax_event list"
  and elem_events :: "json list \<Rightarrow> sax_event list" where
  "doc_events JNull = [SaxNull]"
| "doc_events (JBool b) = [SaxBool b]"
| "doc_events (JInt i) = [SaxInt i]"
| "doc_events (JReal s) = [SaxFloat s]"
| "doc_events (JString s) = [SaxString s]"
| "doc_events (JArray xs) = SaxStartArray # elem_events xs @ [SaxEndArray]"
| "doc_events (JObject ms) = SaxStartObject # member_events ms @ [SaxEndObject]"
| "member_events [] = []"
| "member_events ((k, v) # ms) = SaxKey k # doc_events v @ member_events ms"
| "elem_events [] = []"
| "elem_events (x # xs) = doc_events x @ elem_events xs"

lemma feed_append:
  "feed h (xs @ ys) st = (case feed h xs st of (ok, st') \<Rightarrow> if ok then feed h ys st' else (False, st'))"
  by (induction xs arbitrary: st) (auto split: prod.splits)

lemma feed_append_ok: "feed h xs st = (True, st') \<Longrightarrow> feed h (xs @ ys) st = feed h ys st'"
  by (simp add: feed_append)

lemma feed_append_fail: "\<not> fst (feed h xs st) \<Longrightarrow> \<not> fst (feed h (xs @ ys) st)"
  by (auto simp: feed_append split: prod.splits)

section \<open>The codec's prepass\<close>

definition MAX_WIRE_BYTES :: nat where "MAX_WIRE_BYTES = 12 * 1024 * 1024"
definition MAX_METADATA_BYTES :: nat where "MAX_METADATA_BYTES = 65536"
definition MAX_ENCODED_METADATA_BYTES :: nat where "MAX_ENCODED_METADATA_BYTES = 524288"

datatype role = REQUEST | RESPONSE | CONTEXT | PRINCIPAL | EXTENSION | HEADERS | PAIR

fun allowed_key :: "role \<Rightarrow> string \<Rightarrow> bool" where
  "allowed_key REQUEST key = (key \<in> set [''schema'', ''request_id'', ''method'', ''path'', ''original_path'',
     ''query'', ''headers'', ''body_b64''])"
| "allowed_key RESPONSE key = (key \<in> set [''schema'', ''status'', ''headers'', ''body_b64''])"
| "allowed_key CONTEXT key = (key \<in> set [''schema'', ''dispatch_id'', ''owner_epoch'', ''adapter_epoch'',
     ''clock_domain_id'', ''admitted_at_ns'', ''execution_cutoff_ns'', ''matched_prefix'', ''principal'',
     ''extension''])"
| "allowed_key PRINCIPAL key = (key \<in> set [''kind'', ''user_id'', ''pat_id''])"
| "allowed_key EXTENSION key = (key \<in> set [''package_id'', ''name'', ''version'', ''artifact_sha256'',
     ''generation_receipt_id''])"
| "allowed_key HEADERS key = False"
| "allowed_key PAIR key = False"

text \<open>The stack grows at the head of the list: \<open>stack.back()\<close> is its first element.\<close>

record scope =
  sc_role :: role
  sc_keys :: "string list"
  sc_key :: string

record preflight =
  pf_root :: role
  pf_stack :: "scope list"
  pf_nodes :: nat
  pf_metadata :: nat
  pf_error :: codec_error

definition preflight_init :: "role \<Rightarrow> preflight" where
  "preflight_init root =
     \<lparr>pf_root = root, pf_stack = [], pf_nodes = 0, pf_metadata = 0, pf_error = INVALID\<rparr>"

definition pf_value :: "preflight \<Rightarrow> bool \<times> preflight" where
  "pf_value st =
     (if 8 \<le> length (pf_stack st) \<or> pf_nodes st = 1024 then (False, st\<lparr>pf_error := TOO_LARGE\<rparr>)
      else (True, st\<lparr>pf_nodes := pf_nodes st + 1\<rparr>))"

definition pf_push :: "role \<Rightarrow> preflight \<Rightarrow> preflight" where
  "pf_push r st = st\<lparr>pf_stack := \<lparr>sc_role = r, sc_keys = [], sc_key = []\<rparr> # pf_stack st\<rparr>"

definition pf_string :: "preflight \<Rightarrow> string \<Rightarrow> bool \<times> preflight" where
  "pf_string st0 text =
     (case pf_value st0 of (ok, st) \<Rightarrow>
        if \<not> ok then (False, st)
        else if pf_stack st = [] \<or> sc_key (hd (pf_stack st)) \<noteq> ''body_b64'' then
          (if MAX_METADATA_BYTES - pf_metadata st < length text then (False, st\<lparr>pf_error := TOO_LARGE\<rparr>)
           else (True, st\<lparr>pf_metadata := pf_metadata st + length text\<rparr>))
        else (True, st))"

definition pf_start_object :: "preflight \<Rightarrow> bool \<times> preflight" where
  "pf_start_object st0 =
     (case pf_value st0 of (ok, st) \<Rightarrow>
        if \<not> ok then (False, st)
        else (case pf_stack st of
            [] \<Rightarrow> (True, pf_push (pf_root st) st)
          | parent # _ \<Rightarrow>
              if sc_role parent \<noteq> CONTEXT then (False, st)
              else if sc_key parent = ''principal'' then (True, pf_push PRINCIPAL st)
              else if sc_key parent = ''extension'' then (True, pf_push EXTENSION st)
              else (False, st)))"

definition pf_key :: "preflight \<Rightarrow> string \<Rightarrow> bool \<times> preflight" where
  "pf_key st key_text =
     (case pf_stack st of
        [] \<Rightarrow> (False, st)
      | s # rest \<Rightarrow>
          if \<not> allowed_key (sc_role s) key_text \<or> key_text \<in> set (sc_keys s) then (False, st)
          else (True, st\<lparr>pf_stack := s\<lparr>sc_keys := key_text # sc_keys s, sc_key := key_text\<rparr> # rest\<rparr>))"

definition pf_start_array :: "preflight \<Rightarrow> bool \<times> preflight" where
  "pf_start_array st0 =
     (case pf_value st0 of (ok, st) \<Rightarrow>
        if \<not> ok then (False, st)
        else (case pf_stack st of
            [] \<Rightarrow> (False, st)
          | parent # _ \<Rightarrow>
              if sc_role parent = HEADERS then (True, pf_push PAIR st)
              else if (sc_role parent = REQUEST \<or> sc_role parent = RESPONSE) \<and> sc_key parent = ''headers''
                then (True, pf_push HEADERS st)
              else (False, st)))"

definition pf_pop :: "preflight \<Rightarrow> bool \<times> preflight" where
  "pf_pop st = (case pf_stack st of [] \<Rightarrow> (False, st) | _ # rest \<Rightarrow> (True, st\<lparr>pf_stack := rest\<rparr>))"

fun pf_step :: "preflight \<Rightarrow> sax_event \<Rightarrow> bool \<times> preflight" where
  "pf_step st SaxNull = pf_value st"
| "pf_step st (SaxBool _) = pf_value st"
| "pf_step st (SaxInt _) = pf_value st"
| "pf_step st (SaxFloat _) = pf_value st"
| "pf_step st (SaxString text) = pf_string st text"
| "pf_step st SaxBinary = (False, st)"
| "pf_step st SaxStartObject = pf_start_object st"
| "pf_step st (SaxKey key) = pf_key st key"
| "pf_step st SaxEndObject = pf_pop st"
| "pf_step st SaxStartArray = pf_start_array st"
| "pf_step st SaxEndArray = pf_pop st"

section \<open>The prepass as a property of the document\<close>

text \<open>
  The reference: how many values a document has, how many bytes its strings have outside
  \<open>body_b64\<close>, and whether its shape is that of the closed record of a role. A place
  is the role and key a value stands under, \<open>None\<close> for the whole document.
\<close>

fun doc_nodes :: "json \<Rightarrow> nat" and member_nodes :: "(string \<times> json) list \<Rightarrow> nat"
  and elem_nodes :: "json list \<Rightarrow> nat" where
  "doc_nodes (JArray xs) = Suc (elem_nodes xs)"
| "doc_nodes (JObject ms) = Suc (member_nodes ms)"
| "doc_nodes _ = 1"
| "member_nodes [] = 0"
| "member_nodes ((k, v) # ms) = doc_nodes v + member_nodes ms"
| "elem_nodes [] = 0"
| "elem_nodes (x # xs) = doc_nodes x + elem_nodes xs"

fun doc_metadata :: "string \<Rightarrow> json \<Rightarrow> nat" and member_metadata :: "(string \<times> json) list \<Rightarrow> nat"
  and elem_metadata :: "json list \<Rightarrow> nat" where
  "doc_metadata key (JString s) = (if key = ''body_b64'' then 0 else length s)"
| "doc_metadata key (JArray xs) = elem_metadata xs"
| "doc_metadata key (JObject ms) = member_metadata ms"
| "doc_metadata key _ = 0"
| "member_metadata [] = 0"
| "member_metadata ((k, v) # ms) = doc_metadata k v + member_metadata ms"
| "elem_metadata [] = 0"
| "elem_metadata (x # xs) = doc_metadata [] x + elem_metadata xs"

type_synonym place = "(role \<times> string) option"

fun object_role :: "role \<Rightarrow> place \<Rightarrow> role option" where
  "object_role root None = Some root"
| "object_role root (Some (r, k)) =
     (if r = CONTEXT \<and> k = ''principal'' then Some PRINCIPAL
      else if r = CONTEXT \<and> k = ''extension'' then Some EXTENSION else None)"

fun array_role :: "place \<Rightarrow> role option" where
  "array_role None = None"
| "array_role (Some (r, k)) =
     (if r = HEADERS then Some PAIR
      else if (r = REQUEST \<or> r = RESPONSE) \<and> k = ''headers'' then Some HEADERS else None)"

fun closed_value :: "role \<Rightarrow> place \<Rightarrow> json \<Rightarrow> bool"
  and closed_members :: "role \<Rightarrow> role \<Rightarrow> (string \<times> json) list \<Rightarrow> bool"
  and closed_elems :: "role \<Rightarrow> role \<Rightarrow> json list \<Rightarrow> bool" where
  "closed_value root ctx (JObject ms) =
     (case object_role root ctx of
        None \<Rightarrow> False
      | Some r \<Rightarrow> distinct (map fst ms) \<and> list_all (\<lambda>kv. allowed_key r (fst kv)) ms \<and> closed_members root r ms)"
| "closed_value root ctx (JArray xs) =
     (case array_role ctx of None \<Rightarrow> False | Some r \<Rightarrow> closed_elems root r xs)"
| "closed_value root ctx _ = True"
| "closed_members root r [] = True"
| "closed_members root r ((k, v) # ms) = (closed_value root (Some (r, k)) v \<and> closed_members root r ms)"
| "closed_elems root r [] = True"
| "closed_elems root r (x # xs) = (closed_value root (Some (r, [])) x \<and> closed_elems root r xs)"

definition pf_ctx :: "preflight \<Rightarrow> place" where
  "pf_ctx st = (case pf_stack st of [] \<Rightarrow> None | s # _ \<Rightarrow> Some (sc_role s, sc_key s))"

definition ctx_key :: "place \<Rightarrow> string" where
  "ctx_key ctx = (case ctx of None \<Rightarrow> [] | Some (r, k) \<Rightarrow> k)"

text \<open>How deep a role stands: the bound of eight on the stack is never what refuses a document.\<close>

fun role_depth :: "role \<Rightarrow> nat" where
  "role_depth PAIR = 3"
| "role_depth HEADERS = 2"
| "role_depth PRINCIPAL = 2"
| "role_depth EXTENSION = 2"
| "role_depth _ = 1"

definition pf_depth_ok :: "preflight \<Rightarrow> bool" where
  "pf_depth_ok st \<longleftrightarrow> role_depth (pf_root st) = 1 \<and>
     (case pf_stack st of [] \<Rightarrow> True | s # rest \<Rightarrow> length (pf_stack st) = role_depth (sc_role s))"

definition pf_fits :: "preflight \<Rightarrow> nat \<Rightarrow> nat \<Rightarrow> bool" where
  "pf_fits st n m \<longleftrightarrow> pf_nodes st + n \<le> 1024 \<and> pf_metadata st + m \<le> MAX_METADATA_BYTES"

definition pf_grow :: "preflight \<Rightarrow> nat \<Rightarrow> nat \<Rightarrow> preflight" where
  "pf_grow st n m = st\<lparr>pf_nodes := pf_nodes st + n, pf_metadata := pf_metadata st + m\<rparr>"

definition pf_bounded :: "preflight \<Rightarrow> bool" where
  "pf_bounded st \<longleftrightarrow> pf_depth_ok st \<and> pf_nodes st \<le> 1024 \<and> pf_metadata st \<le> MAX_METADATA_BYTES"

lemma role_depth_le: "role_depth r \<le> 3"
  by (cases r) simp_all

lemma pf_bounded_depth: "pf_bounded st \<Longrightarrow> length (pf_stack st) < 8"
  using role_depth_le
  by (force simp: pf_bounded_def pf_depth_ok_def split: list.splits
      intro: le_less_trans [of _ 3])

lemma pf_value_eq:
  "pf_bounded st \<Longrightarrow> pf_value st =
     (if pf_nodes st = 1024 then (False, st\<lparr>pf_error := TOO_LARGE\<rparr>) else (True, pf_grow st 1 0))"
  using pf_bounded_depth [of st] by (simp add: pf_value_def pf_grow_def)

lemma pf_grow_simps [simp]:
  "pf_root (pf_grow st n m) = pf_root st" "pf_stack (pf_grow st n m) = pf_stack st"
  "pf_nodes (pf_grow st n m) = pf_nodes st + n" "pf_metadata (pf_grow st n m) = pf_metadata st + m"
  "pf_grow (pf_grow st n m) n' m' = pf_grow st (n + n') (m + m')"
  "pf_ctx (pf_grow st n m) = pf_ctx st" "pf_grow st 0 0 = st"
  "pf_depth_ok (pf_grow st n m) = pf_depth_ok st"
  by (simp_all add: pf_grow_def pf_ctx_def pf_depth_ok_def split: list.split)

text \<open>What reading a value does: it is accepted exactly if it fits and is closed, and is then counted.\<close>

definition reads :: "preflight \<Rightarrow> sax_event list \<Rightarrow> bool \<Rightarrow> nat \<Rightarrow> nat \<Rightarrow> bool" where
  "reads st es ok n m \<longleftrightarrow>
     (if ok \<and> pf_fits st n m then feed pf_step es st = (True, pf_grow st n m)
      else \<not> fst (feed pf_step es st))"

lemma reads_scalar:
  assumes "pf_bounded st" and "\<And>t. pf_step t e = pf_value t"
  shows "reads st [e] True (Suc 0) 0"
  using assms by (auto simp: reads_def pf_fits_def pf_value_eq pf_bounded_def)

lemma reads_string:
  assumes "pf_bounded st"
  shows "reads st [SaxString s] True 1 (doc_metadata (ctx_key (pf_ctx st)) (JString s))"
proof -
  have k: "(pf_stack st = [] \<or> sc_key (hd (pf_stack st)) \<noteq> ''body_b64'') \<longleftrightarrow> ctx_key (pf_ctx st) \<noteq> ''body_b64''"
    by (simp add: ctx_key_def pf_ctx_def split: list.splits)
  show ?thesis
    using assms k unfolding reads_def pf_step.simps pf_string_def
    by (auto simp: pf_fits_def pf_value_eq pf_bounded_def pf_string_def pf_grow_def)
qed

lemma pf_fits_grow: "pf_fits st n m \<Longrightarrow> pf_fits (pf_grow st n m) n' m' = pf_fits st (n + n') (m + m')"
  by (simp add: pf_fits_def add.assoc)

lemma pf_fits_less: "pf_fits st (n + n') (m + m') \<Longrightarrow> pf_fits st n m"
  by (simp add: pf_fits_def)

lemma pf_bounded_grow: "pf_bounded st \<Longrightarrow> pf_fits st n m \<Longrightarrow> pf_bounded (pf_grow st n m)"
  by (simp add: pf_bounded_def pf_fits_def)

lemma reads_append:
  assumes "reads st es ok n m"
    and "ok \<Longrightarrow> pf_fits st n m \<Longrightarrow> reads (pf_grow st n m) es' ok' n' m'"
  shows "reads st (es @ es') (ok \<and> ok') (n + n') (m + m')"
proof (cases "ok \<and> pf_fits st n m")
  case True
  then have "feed pf_step (es @ es') st = feed pf_step es' (pf_grow st n m)"
    using assms(1) by (intro feed_append_ok) (simp add: reads_def)
  then show ?thesis using True assms(2) by (simp add: reads_def pf_fits_grow add.assoc)
next
  case False
  then have "\<not> fst (feed pf_step es st)" using assms(1) by (auto simp: reads_def split: if_splits)
  then show ?thesis using False feed_append_fail [of pf_step es st es'] pf_fits_less [of st n n' m m']
    by (auto simp: reads_def)
qed

text \<open>Inside an object or array, the innermost scope may change; closing it restores the stack.\<close>

definition reads_in :: "preflight \<Rightarrow> sax_event list \<Rightarrow> bool \<Rightarrow> nat \<Rightarrow> nat \<Rightarrow> bool" where
  "reads_in st es ok n m \<longleftrightarrow>
     (if ok \<and> pf_fits st n m
      then \<exists>s. feed pf_step es st = (True, (pf_grow st n m)\<lparr>pf_stack := s # tl (pf_stack st)\<rparr>)
      else \<not> fst (feed pf_step es st))"

lemma reads_in_of_reads: "pf_stack st \<noteq> [] \<Longrightarrow> reads st es ok n m \<Longrightarrow> reads_in st es ok n m"
  unfolding reads_def reads_in_def
  by (cases "pf_stack st") (auto intro!: exI [of _ "hd (pf_stack st)"] simp: pf_grow_def)

lemma pf_push_simps [simp]:
  "pf_root (pf_push r st) = pf_root st" "pf_nodes (pf_push r st) = pf_nodes st"
  "pf_metadata (pf_push r st) = pf_metadata st"
  "pf_stack (pf_push r st) = \<lparr>sc_role = r, sc_keys = [], sc_key = []\<rparr> # pf_stack st"
  by (simp_all add: pf_push_def)

lemma pf_bounded_push:
  "pf_bounded st \<Longrightarrow> pf_nodes st < 1024 \<Longrightarrow> role_depth r = Suc (length (pf_stack st)) \<Longrightarrow>
   pf_bounded (pf_push r (pf_grow st 1 0))"
  by (auto simp: pf_bounded_def pf_depth_ok_def)

lemma reads_nested:
  assumes b: "pf_bounded st"
    and start: "pf_nodes st < 1024 \<Longrightarrow> pf_step st e =
      (case r of None \<Rightarrow> (False, pf_grow st 1 0) | Some q \<Rightarrow> (True, pf_push q (pf_grow st 1 0)))"
    and full: "pf_nodes st = 1024 \<Longrightarrow> \<not> fst (pf_step st e)"
    and stop: "\<And>t. pf_step t e' = pf_pop t"
    and inside: "\<And>q. r = Some q \<Longrightarrow> pf_nodes st < 1024 \<Longrightarrow> reads_in (pf_push q (pf_grow st 1 0)) es (ok q) n m"
  shows "reads st (e # es @ [e']) (case r of None \<Rightarrow> False | Some q \<Rightarrow> ok q) (Suc n) m"
proof (cases "pf_nodes st = 1024")
  case True
  then show ?thesis using full by (auto simp: reads_def pf_fits_def split: prod.splits)
next
  case False
  then have nn: "pf_nodes st < 1024" using b by (simp add: pf_bounded_def)
  show ?thesis
  proof (cases r)
    case None
    then show ?thesis using start [OF nn] by (simp add: reads_def)
  next
    case (Some q)
    let ?t = "pf_push q (pf_grow st 1 0)"
    have f: "pf_fits ?t n m = pf_fits st (Suc n) m" by (simp add: pf_fits_def)
    have s: "feed pf_step (e # es @ [e']) st = feed pf_step (es @ [e']) ?t"
      using start [OF nn] Some by simp
    show ?thesis
    proof (cases "ok q \<and> pf_fits ?t n m")
      case True
      then obtain sc where "feed pf_step es ?t = (True, (pf_grow ?t n m)\<lparr>pf_stack := sc # pf_stack st\<rparr>)"
        using inside [OF Some nn] by (auto simp: reads_in_def)
      then have "feed pf_step (es @ [e']) ?t = (True, (pf_grow ?t n m)\<lparr>pf_stack := pf_stack st\<rparr>)"
        by (simp add: feed_append stop pf_pop_def)
      then show ?thesis using True Some f s by (simp add: reads_def pf_grow_def pf_push_def)
    next
      case False
      then have "\<not> fst (feed pf_step es ?t)" using inside [OF Some nn] by (auto simp: reads_in_def split: if_splits)
      then show ?thesis using False Some f s feed_append_fail [of pf_step es ?t "[e']"]
        by (auto simp: reads_def)
    qed
  qed
qed

definition members_ok :: "role \<Rightarrow> scope \<Rightarrow> (string \<times> json) list \<Rightarrow> bool" where
  "members_ok root s ms \<longleftrightarrow> distinct (map fst ms) \<and> set (map fst ms) \<inter> set (sc_keys s) = {} \<and>
     list_all (\<lambda>kv. allowed_key (sc_role s) (fst kv)) ms \<and> closed_members root (sc_role s) ms"

lemma members_ok_Cons:
  "members_ok root s ((k, v) # ms) \<longleftrightarrow>
   (allowed_key (sc_role s) k \<and> k \<notin> set (sc_keys s)) \<and> closed_value root (Some (sc_role s, k)) v \<and>
   members_ok root (s\<lparr>sc_keys := k # sc_keys s, sc_key := k\<rparr>) ms"
  by (auto simp: members_ok_def)

lemma reads_in_member:
  assumes st: "pf_stack st = s # rest"
    and s1: "s1 = s\<lparr>sc_keys := k # sc_keys s, sc_key := k\<rparr>"
    and v: "reads (st\<lparr>pf_stack := s1 # rest\<rparr>) ev okv nv mv"
    and ms: "okv \<Longrightarrow> pf_fits st nv mv \<Longrightarrow> reads_in (pf_grow (st\<lparr>pf_stack := s1 # rest\<rparr>) nv mv) es okm nm mm"
  shows "reads_in st (SaxKey k # ev @ es)
    ((allowed_key (sc_role s) k \<and> k \<notin> set (sc_keys s)) \<and> okv \<and> okm) (nv + nm) (mv + mm)"
proof (cases "allowed_key (sc_role s) k \<and> k \<notin> set (sc_keys s)")
  case False
  then have "\<not> fst (feed pf_step (SaxKey k # ev @ es) st)"
    using st by (auto simp: pf_key_def)
  then show ?thesis using False unfolding reads_in_def by auto
next
  case True
  let ?t = "st\<lparr>pf_stack := s1 # rest\<rparr>"
  have k: "feed pf_step (SaxKey k # ev @ es) st = feed pf_step (ev @ es) ?t"
    using True st by (simp add: pf_key_def s1)
  have f: "pf_fits ?t n m = pf_fits st n m" for n m by (simp add: pf_fits_def)
  show ?thesis
  proof (cases "okv \<and> pf_fits st nv mv")
    case okv: True
    then have "feed pf_step (ev @ es) ?t = feed pf_step es (pf_grow ?t nv mv)"
      using v f by (intro feed_append_ok) (simp add: reads_def)
    moreover have "pf_fits (pf_grow ?t nv mv) nm mm = pf_fits st (nv + nm) (mv + mm)"
      using okv f by (simp add: pf_fits_grow)
    ultimately show ?thesis
      using ms okv True k st unfolding reads_in_def by (auto simp: pf_grow_def add.assoc)
  next
    case False
    then have "\<not> fst (feed pf_step ev ?t)" using v f by (auto simp: reads_def split: if_splits)
    then show ?thesis
      using False k feed_append_fail [of pf_step ev ?t es] pf_fits_less [of st nv nm mv mm]
      unfolding reads_in_def by auto
  qed
qed

lemma pf_start_object_eq:
  "pf_bounded st \<Longrightarrow> pf_nodes st < 1024 \<Longrightarrow> pf_start_object st =
     (case object_role (pf_root st) (pf_ctx st) of
        None \<Rightarrow> (False, pf_grow st 1 0) | Some q \<Rightarrow> (True, pf_push q (pf_grow st 1 0)))"
  by (simp add: pf_start_object_def pf_value_eq pf_ctx_def split: list.splits)

lemma pf_start_array_eq:
  "pf_bounded st \<Longrightarrow> pf_nodes st < 1024 \<Longrightarrow> pf_start_array st =
     (case array_role (pf_ctx st) of
        None \<Rightarrow> (False, pf_grow st 1 0) | Some q \<Rightarrow> (True, pf_push q (pf_grow st 1 0)))"
  by (simp add: pf_start_array_def pf_value_eq pf_ctx_def split: list.splits)

lemma pf_start_full:
  assumes "pf_bounded st" and "pf_nodes st = 1024"
  shows "\<not> fst (pf_start_object st)" "\<not> fst (pf_start_array st)"
  using assms by (simp_all add: pf_start_object_def pf_start_array_def pf_value_eq)

lemma nested_depth:
  assumes "pf_bounded st"
  shows "object_role (pf_root st) (pf_ctx st) = Some q \<Longrightarrow> role_depth q = Suc (length (pf_stack st))"
    and "array_role (pf_ctx st) = Some q \<Longrightarrow> role_depth q = Suc (length (pf_stack st))"
  using assms
  by (auto simp: pf_bounded_def pf_depth_ok_def pf_ctx_def split: list.splits if_splits)

lemma preflight_reads:
  "pf_bounded st \<Longrightarrow>
   reads st (doc_events j) (closed_value (pf_root st) (pf_ctx st) j) (doc_nodes j)
     (doc_metadata (ctx_key (pf_ctx st)) j)"
  "pf_bounded st \<Longrightarrow> pf_stack st = s # rest \<Longrightarrow>
   reads_in st (member_events ms) (members_ok (pf_root st) s ms) (member_nodes ms) (member_metadata ms)"
  "pf_bounded st \<Longrightarrow> pf_stack st = s # rest \<Longrightarrow> sc_key s = [] \<Longrightarrow>
   reads st (elem_events xs) (closed_elems (pf_root st) (sc_role s) xs) (elem_nodes xs) (elem_metadata xs)"
proof (induction j and ms and xs arbitrary: st and st s rest and st s rest
    rule: doc_events_member_events_elem_events.induct)
  case (6 xs)
  let ?r = "array_role (pf_ctx st)" and ?ok = "\<lambda>q. closed_elems (pf_root st) q xs"
  have "reads st (SaxStartArray # elem_events xs @ [SaxEndArray])
      (case ?r of None \<Rightarrow> False | Some q \<Rightarrow> ?ok q) (Suc (elem_nodes xs)) (elem_metadata xs)"
  proof (rule reads_nested [OF 6(2)])
    fix q assume q: "?r = Some q" and n: "pf_nodes st < 1024"
    let ?t = "pf_push q (pf_grow st 1 0)"
    have "pf_bounded ?t" using 6(2) n nested_depth(2) [OF 6(2) q] by (rule pf_bounded_push)
    from 6(1) [OF this] have "reads ?t (elem_events xs) (?ok q) (elem_nodes xs) (elem_metadata xs)" by simp
    then show "reads_in ?t (elem_events xs) (?ok q) (elem_nodes xs) (elem_metadata xs)"
      by (intro reads_in_of_reads) simp_all
  qed (use 6(2) in \<open>simp_all add: pf_start_array_eq pf_start_full\<close>)
  then show ?case by simp
next
  case (7 ms)
  let ?r = "object_role (pf_root st) (pf_ctx st)"
    and ?ok = "\<lambda>q. distinct (map fst ms) \<and> list_all (\<lambda>kv. allowed_key q (fst kv)) ms \<and> closed_members (pf_root st) q ms"
  have "reads st (SaxStartObject # member_events ms @ [SaxEndObject])
      (case ?r of None \<Rightarrow> False | Some q \<Rightarrow> ?ok q) (Suc (member_nodes ms)) (member_metadata ms)"
  proof (rule reads_nested [OF 7(2)])
    fix q assume q: "?r = Some q" and n: "pf_nodes st < 1024"
    let ?t = "pf_push q (pf_grow st 1 0)"
    have "pf_bounded ?t" using 7(2) n nested_depth(1) [OF 7(2) q] by (rule pf_bounded_push)
    from 7(1) [OF this pf_push_simps(4)]
    show "reads_in ?t (member_events ms) (?ok q) (member_nodes ms) (member_metadata ms)"
      by (simp add: members_ok_def)
  qed (use 7(2) in \<open>simp_all add: pf_start_object_eq pf_start_full\<close>)
  then show ?case by simp
next
  case (9 k v ms)
  define s1 where "s1 = s\<lparr>sc_keys := k # sc_keys s, sc_key := k\<rparr>"
  let ?t = "st\<lparr>pf_stack := s1 # rest\<rparr>"
  have b: "pf_bounded ?t" using 9(3,4) by (simp add: pf_bounded_def pf_depth_ok_def s1_def)
  have f: "pf_fits ?t n m = pf_fits st n m" for n m by (simp add: pf_fits_def)
  have c: "pf_ctx ?t = Some (sc_role s, k)" by (simp add: pf_ctx_def s1_def)
  have "reads_in st (SaxKey k # doc_events v @ member_events ms)
      ((allowed_key (sc_role s) k \<and> k \<notin> set (sc_keys s)) \<and> closed_value (pf_root st) (Some (sc_role s, k)) v \<and>
        members_ok (pf_root st) s1 ms) (doc_nodes v + member_nodes ms) (doc_metadata k v + member_metadata ms)"
  proof (rule reads_in_member [OF 9(4) s1_def])
    show "reads ?t (doc_events v) (closed_value (pf_root st) (Some (sc_role s, k)) v) (doc_nodes v)
        (doc_metadata k v)"
      using 9(1) [OF b] c by (simp add: ctx_key_def)
    assume "pf_fits st (doc_nodes v) (doc_metadata k v)"
    then have "pf_bounded (pf_grow ?t (doc_nodes v) (doc_metadata k v))"
      using b f by (intro pf_bounded_grow) simp_all
    from 9(2) [OF this, of s1 rest]
    show "reads_in (pf_grow ?t (doc_nodes v) (doc_metadata k v)) (member_events ms)
        (members_ok (pf_root st) s1 ms) (member_nodes ms) (member_metadata ms)"
      by simp
  qed
  then show ?case by (simp add: members_ok_Cons s1_def)
next
  case (11 x xs)
  have c: "pf_ctx st = Some (sc_role s, [])" using 11(4,5) by (simp add: pf_ctx_def)
  have "reads st (doc_events x @ elem_events xs)
      (closed_value (pf_root st) (Some (sc_role s, [])) x \<and> closed_elems (pf_root st) (sc_role s) xs)
      (doc_nodes x + elem_nodes xs) (doc_metadata [] x + elem_metadata xs)"
  proof (rule reads_append)
    show "reads st (doc_events x) (closed_value (pf_root st) (Some (sc_role s, [])) x) (doc_nodes x)
        (doc_metadata [] x)"
      using 11(1) [OF 11(3)] c by (simp add: ctx_key_def)
    assume "pf_fits st (doc_nodes x) (doc_metadata [] x)"
    with 11(3) have "pf_bounded (pf_grow st (doc_nodes x) (doc_metadata [] x))" by (rule pf_bounded_grow)
    from 11(2) [OF this, of s rest] 11(4,5)
    show "reads (pf_grow st (doc_nodes x) (doc_metadata [] x)) (elem_events xs)
        (closed_elems (pf_root st) (sc_role s) xs) (elem_nodes xs) (elem_metadata xs)"
      by simp
  qed
  then show ?case by simp
next
  case (5 s)
  then show ?case using reads_string by simp
next
  case 8
  then show ?case by (auto simp: reads_in_def pf_fits_def members_ok_def pf_bounded_def intro!: exI [of _ s])
next
  case 10
  then show ?case by (auto simp: reads_def pf_fits_def pf_bounded_def)
qed (simp_all add: reads_scalar)

lemma preflight_iff:
  assumes "root = REQUEST \<or> root = RESPONSE \<or> root = CONTEXT"
  shows "fst (feed pf_step (doc_events j) (preflight_init root)) \<longleftrightarrow>
    closed_value root None j \<and> doc_nodes j \<le> 1024 \<and> doc_metadata [] j \<le> MAX_METADATA_BYTES"
proof -
  have "pf_bounded (preflight_init root)"
    using assms by (auto simp: pf_bounded_def pf_depth_ok_def preflight_init_def)
  from preflight_reads(1) [OF this, of j] show ?thesis
    by (auto simp: reads_def pf_fits_def preflight_init_def pf_ctx_def ctx_key_def split: if_splits)
qed

text \<open>
  C13: The prepass accepts the events of a document exactly if the document has the closed shape of its
  role, with allowed and distinct keys in every record, has at most 1024 values and at most
  64 KiB of strings outside the body.
\<close>

theorem preflight_accepts_iff:
  assumes "root = REQUEST \<or> root = RESPONSE \<or> root = CONTEXT"
  shows "fst (feed pf_step (doc_events j) (preflight_init root)) \<longleftrightarrow>
    closed_value root None j \<and> doc_nodes j \<le> 1024 \<and> doc_metadata [] j \<le> MAX_METADATA_BYTES"
  using assms by (rule preflight_iff)

theorem preflight_accepts_iff_witness:
  "fst (feed pf_step (doc_events (JObject [(''schema'', JInt 1), (''status'', JInt 200), (''headers'', JArray []),
     (''body_b64'', JString ''AQID'')])) (preflight_init RESPONSE))"
proof -
  let ?j = "JObject [(''schema'', JInt 1), (''status'', JInt 200), (''headers'', JArray []), (''body_b64'', JString ''AQID'')]"
  have "closed_value RESPONSE None ?j" by code_simp
  moreover have "doc_nodes ?j \<le> 1024" "doc_metadata [] ?j \<le> MAX_METADATA_BYTES"
    by (simp_all add: MAX_METADATA_BYTES_def)
  ultimately show ?thesis using preflight_accepts_iff [of RESPONSE ?j] by (simp only: simp_thms)
qed

end
