(* ===== verification/Http_Codec.thy ===== *)
theory Http_Codec
  imports Http_Sax
begin

text \<open>
  The values, validators and wire documents of \<open>extension_http/codec.cpp\<close>: native requests and
  responses, dispatch contexts, the bounds on a raw document (\<open>encoded_bounds\<close>), reading and
  writing JSON, and the three pairs of \<open>parse_*\<close> and \<open>serialize_*\<close>. A \<open>std::uint64_t\<close> of a
  value is a \<open>64 word\<close>. The lemmas show that what a serializer writes its parser reads back, and that no
  serializer hands a string to \<open>dump\<close> that is not UTF-8, which is the case in which \<open>dump\<close> throws.
\<close>

section \<open>Values\<close>

record target =
  tg_original_path :: string
  tg_path :: string
  tg_query :: string

record request_data =
  rq_request_id :: string
  rq_method :: string
  rq_target :: target
  rq_headers :: headers

datatype principal_kind = ANONYMOUS | PAT

record principal =
  pr_kind :: principal_kind
  pr_user_id :: string
  pr_pat_id :: string

record extension =
  ex_package_id :: string
  ex_name :: string
  ex_version :: string
  ex_artifact_sha256 :: string
  ex_generation_receipt_id :: string

record context_data =
  cx_dispatch_id :: string
  cx_owner_epoch :: string
  cx_adapter_epoch :: string
  cx_clock_domain_id :: string
  cx_admitted_at_ns :: "64 word"
  cx_execution_cutoff_ns :: "64 word"
  cx_matched_prefix :: string
  cx_principal :: principal
  cx_extension :: extension

record native_request =
  nr_data :: request_data
  nr_body :: binary

record native_response =
  rs_status :: int
  rs_headers :: headers
  rs_body :: binary

section \<open>Validation\<close>

definition validate_request :: "native_request \<Rightarrow> unit codec_result" where
  "validate_request request =
     (let d = nr_data request; t = rq_target d
      in if MAX_BODY_BYTES < length (nr_body request) then Inl TOO_LARGE
         else if \<not> valid_uuid (rq_request_id d) \<or> \<not> valid_method (rq_method d) then Inl INVALID
         else on_ok (validate_target (tg_original_path t) (tg_path t) (tg_query t)) (\<lambda>_.
              on_ok (validate_headers (rq_headers d)) (\<lambda>_.
                if list_ex (\<lambda>h. request_forbidden (fst h)) (rq_headers d) then Inl INVALID
                else if MAX_METADATA_BYTES <
                    length (rq_request_id d) + length (rq_method d) + length (tg_path t) +
                    length (tg_original_path t) + length (tg_query t) + header_bytes (rq_headers d)
                  then Inl TOO_LARGE
                else Inr ())))"

definition validate_response :: "native_response \<Rightarrow> unit codec_result" where
  "validate_response response =
     (if rs_status response < 200 \<or> 599 < rs_status response then Inl INVALID
      else if MAX_BODY_BYTES < length (rs_body response) then Inl TOO_LARGE
      else on_ok (validate_headers (rs_headers response)) (\<lambda>_.
        if list_ex (\<lambda>h. response_forbidden (fst h)) (rs_headers response) then Inl INVALID else Inr ()))"

definition validate_context :: "context_data \<Rightarrow> unit codec_result" where
  "validate_context c =
     (let e = cx_extension c; p = cx_principal c
      in if \<not> valid_uuid (cx_dispatch_id c) \<or> \<not> valid_uuid (cx_owner_epoch c) \<or>
            \<not> valid_uuid (cx_adapter_epoch c) \<or> \<not> valid_uuid (cx_clock_domain_id c) \<or>
            cx_execution_cutoff_ns c < cx_admitted_at_ns c \<or> \<not> valid_claim (cx_matched_prefix c) \<or>
            \<not> valid_uuid (ex_package_id e) \<or> \<not> valid_name (ex_name e) \<or> \<not> valid_version (ex_version e) \<or>
            \<not> valid_hex256 (ex_artifact_sha256 e) \<or> \<not> valid_uuid (ex_generation_receipt_id e)
         then Inl INVALID
         else if pr_kind p = ANONYMOUS then
           (if pr_user_id p \<noteq> [] \<or> pr_pat_id p \<noteq> [] then Inl INVALID else Inr ())
         else if pr_kind p \<noteq> PAT \<or> \<not> valid_uuid (pr_user_id p) \<or> \<not> valid_uuid (pr_pat_id p) then Inl INVALID
         else Inr ())"

definition validate_call_data :: "native_request \<Rightarrow> context_data \<Rightarrow> unit codec_result" where
  "validate_call_data request c =
     on_ok (validate_request request) (\<lambda>_.
     on_ok (validate_context c) (\<lambda>_.
       if rq_request_id (nr_data request) \<noteq> cx_dispatch_id c \<or>
          \<not> matches (cx_matched_prefix c) (tg_path (rq_target (nr_data request)))
       then Inl INVALID else Inr ()))"

section \<open>Raw documents\<close>

definition whitespace :: "char \<Rightarrow> bool" where
  "whitespace c \<longleftrightarrow> byte_of c = 0x20 \<or> byte_of c = 0x09 \<or> byte_of c = 0x0d \<or> byte_of c = 0x0a"

abbreviation quote :: char where "quote \<equiv> CHR 0x22"

text \<open>
  The inner loop over a string token: its raw contents and what follows its closing quote,
  \<open>None\<close> when the text ends first.
\<close>

fun scan_token :: "string \<Rightarrow> (string \<times> string) option" where
  "scan_token [] = None"
| "scan_token (c # rest) =
     (if c = quote then Some ([], rest)
      else if c = backslash then
        (case rest of
           [] \<Rightarrow> None
         | d # rest' \<Rightarrow> map_option (\<lambda>(tok, r). (c # d # tok, r)) (scan_token rest'))
      else map_option (\<lambda>(tok, r). (c # tok, r)) (scan_token rest))"

text \<open>The literal body after its opening quote: no escape may occur.\<close>

fun scan_body :: "string \<Rightarrow> (string \<times> string) option" where
  "scan_body [] = None"
| "scan_body (c # rest) =
     (if c = quote then Some ([], rest)
      else if c = backslash then None
      else map_option (\<lambda>(b, r). (c # b, r)) (scan_body rest))"

lemma scan_token_length: "scan_token s = Some (tok, r) \<Longrightarrow> length r < length s"
  by (induction s arbitrary: tok r rule: scan_token.induct) (auto split: if_splits list.splits intro!: less_SucI)

lemma scan_body_length: "scan_body s = Some (b, r) \<Longrightarrow> length r < length s"
  by (induction s arbitrary: b r) (auto split: if_splits)

lemma tl_dropWhile_length: "length (tl (dropWhile P s)) \<le> length s"
  using length_dropWhile_le [of P s] by simp

text \<open>
  The loop of \<open>encoded_bounds\<close>, over what is left of the text; the result is the length of the one
  \<open>body_b64\<close> literal, 0 without one. \<open>key_of\<close> decodes a key token.
\<close>

function bounds_scan :: "(string \<Rightarrow> string option) \<Rightarrow> string \<Rightarrow> bool \<Rightarrow> nat \<Rightarrow> nat codec_result" where
  "bounds_scan key_of s found body_bytes =
     (case s of
        [] \<Rightarrow> Inr body_bytes
      | c # rest \<Rightarrow>
          if c \<noteq> quote then bounds_scan key_of rest found body_bytes
          else case scan_token rest of
              None \<Rightarrow> Inl INVALID
            | Some (tok, after) \<Rightarrow>
                (let next = dropWhile whitespace after
                 in if next = [] \<or> hd next \<noteq> CHR '':'' then bounds_scan key_of after found body_bytes
                    else if 128 < length tok + 1 then Inl INVALID
                    else case key_of (quote # tok @ [quote]) of
                        None \<Rightarrow> Inl INVALID
                      | Some key \<Rightarrow>
                          if key \<noteq> ''body_b64'' then bounds_scan key_of after found body_bytes
                          else if found then Inl INVALID
                          else (let lit = dropWhile whitespace (tl next)
                                in if lit = [] \<or> hd lit \<noteq> quote then Inl INVALID
                                   else case scan_body (tl lit) of
                                       None \<Rightarrow> Inl INVALID
                                     | Some (b, after_body) \<Rightarrow>
                                         if MAX_BODY64 < length b then Inl TOO_LARGE
                                         else bounds_scan key_of after_body True (length b))))"
  by pat_completeness auto
termination
proof (relation "measure (\<lambda>(k, s, f, b). length s)", goal_cases)
  case (3 k s f b c rest p tok after nx)
  then show ?case by (auto dest: scan_token_length)
next
  case (4 k s f b c rest p tok after nx key)
  then show ?case by (auto dest: scan_token_length)
next
  case (5 k s f b c rest p tok after nx key lit q body after_body)
  then have "length after_body < length (tl lit)" by (auto dest: scan_body_length)
  also have "length (tl lit) \<le> length (tl nx)" using 5 tl_dropWhile_length by metis
  also have "length (tl nx) \<le> length after" using 5 tl_dropWhile_length by metis
  also have "length after < length rest" using 5 by (auto dest: scan_token_length)
  finally show ?case using 5 by simp
qed auto

declare bounds_scan.simps [simp del]

definition raw_bounds_with :: "(string \<Rightarrow> string option) \<Rightarrow> string \<Rightarrow> unit codec_result" where
  "raw_bounds_with key_of raw =
     (if raw = [] then Inl INVALID
      else if MAX_WIRE_BYTES < length raw then Inl TOO_LARGE
      else if \<not> valid_utf8 raw then Inl INVALID
      else on_ok (bounds_scan key_of raw False 0) (\<lambda>body_bytes.
        if MAX_ENCODED_METADATA_BYTES < length raw - body_bytes then Inl TOO_LARGE else Inr ()))"

text \<open>\<open>encoded_bounds\<close> decodes a key token with the JSON library.\<close>

definition library_key :: "json_lib \<Rightarrow> string \<Rightarrow> string option" where
  "library_key lib tok = (case json_parse lib tok of Some (JString s) \<Rightarrow> Some s | _ \<Rightarrow> None)"

definition encoded_bounds :: "json_lib \<Rightarrow> string \<Rightarrow> unit codec_result" where
  "encoded_bounds lib raw = raw_bounds_with (library_key lib) raw"

section \<open>Reading and writing JSON\<close>

definition read_json :: "json_lib \<Rightarrow> string \<Rightarrow> role \<Rightarrow> json codec_result" where
  "read_json lib raw role =
     on_ok (encoded_bounds lib raw) (\<lambda>_.
       case sax_parse lib pf_step (preflight_init role) raw of (ok, st) \<Rightarrow>
         if \<not> ok then Inl (pf_error st)
         else (case json_parse lib raw of
             Some j \<Rightarrow> if is_object j then Inr j else Inl INVALID
           | None \<Rightarrow> Inl INVALID))"

definition write_json :: "json_lib \<Rightarrow> json \<Rightarrow> role \<Rightarrow> string codec_result" where
  "write_json lib j role =
     (let raw = json_dump lib j
      in on_ok (encoded_bounds lib raw) (\<lambda>_.
           case sax_parse lib pf_step (preflight_init role) raw of (ok, st) \<Rightarrow>
             if \<not> ok then Inl (pf_error st) else Inr raw))"

definition schema_one :: "json \<Rightarrow> bool" where
  "schema_one j \<longleftrightarrow> is_member ''schema'' j \<and> get_member ''schema'' j = JInt 1"

definition strings :: "json \<Rightarrow> string list \<Rightarrow> bool" where
  "strings j fs \<longleftrightarrow> list_all (\<lambda>f. is_member f j \<and> is_string (get_member f j)) fs"

fun read_pairs :: "json list \<Rightarrow> headers codec_result" where
  "read_pairs [] = Inr []"
| "read_pairs (JArray [JString n, JString v] # ps) = on_ok (read_pairs ps) (\<lambda>hs. Inr ((n, v) # hs))"
| "read_pairs (_ # ps) = Inl INVALID"

definition read_headers :: "json \<Rightarrow> headers codec_result" where
  "read_headers j =
     (if \<not> is_array j then Inl INVALID
      else if MAX_HEADER_PAIRS < length (elems j) then Inl TOO_LARGE
      else on_ok (read_pairs (elems j)) (\<lambda>hs. on_ok (validate_headers hs) (\<lambda>_. Inr hs)))"

definition write_headers :: "headers \<Rightarrow> json" where
  "write_headers hs = JArray (map (\<lambda>(n, v). JArray [JString n, JString v]) hs)"

abbreviation str_member :: "string \<Rightarrow> json \<Rightarrow> string" where
  "str_member f j \<equiv> as_string (get_member f j)"

definition json_size :: "json \<Rightarrow> nat" where
  "json_size j = length (members j)"

section \<open>Wire documents\<close>

definition parse_wire_request :: "json_lib \<Rightarrow> string \<Rightarrow> native_request codec_result" where
  "parse_wire_request lib raw =
     on_ok (read_json lib raw REQUEST) (\<lambda>j.
       if json_size j \<noteq> 8 \<or> \<not> schema_one j \<or>
          \<not> strings j [''request_id'', ''method'', ''path'', ''original_path'', ''query'', ''body_b64''] \<or>
          \<not> is_member ''headers'' j
       then Inl INVALID
       else on_ok (read_headers (get_member ''headers'' j)) (\<lambda>hs.
            on_ok (decode_body64 (str_member ''body_b64'' j)) (\<lambda>body.
              let request = \<lparr>nr_data = \<lparr>rq_request_id = str_member ''request_id'' j,
                      rq_method = str_member ''method'' j,
                      rq_target = \<lparr>tg_original_path = str_member ''original_path'' j,
                        tg_path = str_member ''path'' j, tg_query = str_member ''query'' j\<rparr>,
                      rq_headers = hs\<rparr>, nr_body = body\<rparr>
              in on_ok (validate_request request) (\<lambda>_. Inr request))))"

definition status_member_ok :: "json \<Rightarrow> bool" where
  "status_member_ok j \<longleftrightarrow>
     (case get_member ''status'' j of JInt i \<Rightarrow> \<not> (i < 200) \<and> \<not> (599 < i) | _ \<Rightarrow> False)"

fun as_int :: "json \<Rightarrow> int" where
  "as_int (JInt i) = i"
| "as_int _ = 0"

definition parse_wire_response :: "json_lib \<Rightarrow> string \<Rightarrow> native_response codec_result" where
  "parse_wire_response lib raw =
     on_ok (read_json lib raw RESPONSE) (\<lambda>j.
       if json_size j \<noteq> 4 \<or> \<not> schema_one j \<or> \<not> strings j [''body_b64''] \<or> \<not> is_member ''headers'' j \<or>
          \<not> is_member ''status'' j \<or> \<not> status_member_ok j
       then Inl INVALID
       else on_ok (read_headers (get_member ''headers'' j)) (\<lambda>hs.
            on_ok (decode_body64 (str_member ''body_b64'' j)) (\<lambda>body.
              let response = \<lparr>rs_status = as_int (get_member ''status'' j), rs_headers = hs, rs_body = body\<rparr>
              in on_ok (validate_response response) (\<lambda>_. Inr response))))"

definition read_principal :: "json \<Rightarrow> principal codec_result" where
  "read_principal p =
     (if \<not> strings p [''kind''] then Inl INVALID
      else if str_member ''kind'' p = ''anonymous'' then
        (if json_size p \<noteq> 1 then Inl INVALID
         else Inr \<lparr>pr_kind = ANONYMOUS, pr_user_id = [], pr_pat_id = []\<rparr>)
      else if str_member ''kind'' p = ''pat'' then
        (if json_size p \<noteq> 3 \<or> \<not> strings p [''user_id'', ''pat_id''] then Inl INVALID
         else Inr \<lparr>pr_kind = PAT, pr_user_id = str_member ''user_id'' p, pr_pat_id = str_member ''pat_id'' p\<rparr>)
      else Inl INVALID)"

definition extension_data :: "json \<Rightarrow> extension" where
  "extension_data e =
     \<lparr>ex_package_id = str_member ''package_id'' e, ex_name = str_member ''name'' e,
      ex_version = str_member ''version'' e, ex_artifact_sha256 = str_member ''artifact_sha256'' e,
      ex_generation_receipt_id = str_member ''generation_receipt_id'' e\<rparr>"

definition parse_context :: "json_lib \<Rightarrow> string \<Rightarrow> context_data codec_result" where
  "parse_context lib raw =
     on_ok (read_json lib raw CONTEXT) (\<lambda>j.
       if json_size j \<noteq> 10 \<or> \<not> schema_one j \<or>
          \<not> strings j [''dispatch_id'', ''owner_epoch'', ''adapter_epoch'', ''clock_domain_id'',
             ''admitted_at_ns'', ''execution_cutoff_ns'', ''matched_prefix''] \<or>
          \<not> is_member ''principal'' j \<or> \<not> is_object (get_member ''principal'' j) \<or>
          \<not> is_member ''extension'' j \<or> \<not> is_object (get_member ''extension'' j)
       then Inl INVALID
       else let e = get_member ''extension'' j
            in on_ok (read_principal (get_member ''principal'' j)) (\<lambda>principal.
                 if json_size e \<noteq> 5 \<or>
                    \<not> strings e [''package_id'', ''name'', ''version'', ''artifact_sha256'',
                       ''generation_receipt_id'']
                 then Inl INVALID
                 else case (parse_ns (str_member ''admitted_at_ns'' j),
                            parse_ns (str_member ''execution_cutoff_ns'' j)) of
                     (Inr admitted, Inr cutoff) \<Rightarrow>
                       (let c = \<lparr>cx_dispatch_id = str_member ''dispatch_id'' j,
                              cx_owner_epoch = str_member ''owner_epoch'' j,
                              cx_adapter_epoch = str_member ''adapter_epoch'' j,
                              cx_clock_domain_id = str_member ''clock_domain_id'' j,
                              cx_admitted_at_ns = of_nat admitted, cx_execution_cutoff_ns = of_nat cutoff,
                              cx_matched_prefix = str_member ''matched_prefix'' j,
                              cx_principal = principal, cx_extension = extension_data e\<rparr>
                        in on_ok (validate_context c) (\<lambda>_. Inr c))
                   | _ \<Rightarrow> Inl INVALID))"

definition request_json :: "native_request \<Rightarrow> string \<Rightarrow> json" where
  "request_json request body =
     (let r = nr_data request
      in JObject [(''schema'', JInt 1), (''request_id'', JString (rq_request_id r)),
           (''method'', JString (rq_method r)), (''path'', JString (tg_path (rq_target r))),
           (''original_path'', JString (tg_original_path (rq_target r))),
           (''query'', JString (tg_query (rq_target r))), (''headers'', write_headers (rq_headers r)),
           (''body_b64'', JString body)])"

definition serialize_wire_request :: "json_lib \<Rightarrow> native_request \<Rightarrow> string codec_result" where
  "serialize_wire_request lib request =
     on_ok (validate_request request) (\<lambda>_.
     on_ok (encode_body64 (nr_body request)) (\<lambda>body.
       write_json lib (request_json request body) REQUEST))"

definition response_json :: "native_response \<Rightarrow> string \<Rightarrow> json" where
  "response_json response body =
     JObject [(''schema'', JInt 1), (''status'', JInt (rs_status response)),
       (''headers'', write_headers (rs_headers response)), (''body_b64'', JString body)]"

definition serialize_wire_response :: "json_lib \<Rightarrow> native_response \<Rightarrow> string codec_result" where
  "serialize_wire_response lib response =
     on_ok (validate_response response) (\<lambda>_.
     on_ok (encode_body64 (rs_body response)) (\<lambda>body.
       write_json lib (response_json response body) RESPONSE))"

definition extension_json :: "extension \<Rightarrow> json" where
  "extension_json e =
     JObject [(''package_id'', JString (ex_package_id e)), (''name'', JString (ex_name e)),
       (''version'', JString (ex_version e)), (''artifact_sha256'', JString (ex_artifact_sha256 e)),
       (''generation_receipt_id'', JString (ex_generation_receipt_id e))]"

definition context_json :: "context_data \<Rightarrow> json" where
  "context_json c =
     (let p = cx_principal c;
          principal = (if pr_kind p = PAT
            then JObject [(''kind'', JString ''pat''), (''user_id'', JString (pr_user_id p)),
                   (''pat_id'', JString (pr_pat_id p))]
            else JObject [(''kind'', JString ''anonymous'')])
      in JObject [(''schema'', JInt 1), (''dispatch_id'', JString (cx_dispatch_id c)),
           (''owner_epoch'', JString (cx_owner_epoch c)), (''adapter_epoch'', JString (cx_adapter_epoch c)),
           (''clock_domain_id'', JString (cx_clock_domain_id c)),
           (''admitted_at_ns'', JString (show_nat (unat (cx_admitted_at_ns c)))),
           (''execution_cutoff_ns'', JString (show_nat (unat (cx_execution_cutoff_ns c)))),
           (''matched_prefix'', JString (cx_matched_prefix c)), (''principal'', principal),
           (''extension'', extension_json (cx_extension c))])"

definition serialize_context :: "json_lib \<Rightarrow> context_data \<Rightarrow> string codec_result" where
  "serialize_context lib c =
     on_ok (validate_context c) (\<lambda>_. write_json lib (context_json c) CONTEXT)"

section \<open>Round trips\<close>

lemma read_json_write_json:
  assumes "write_json lib j role = Inr raw" and "json_parse lib (json_dump lib j) = Some j" and "is_object j"
  shows "read_json lib raw role = Inr j"
  using assms by (auto simp: write_json_def read_json_def Let_def split: prod.splits if_splits)

lemma read_pairs_write: "read_pairs (map (\<lambda>(n, v). JArray [JString n, JString v]) hs) = Inr hs"
  by (induction hs) auto

lemma read_write_headers: "validate_headers hs = Inr () \<Longrightarrow> read_headers (write_headers hs) = Inr hs"
  by (simp add: read_headers_def write_headers_def read_pairs_write validate_headers_ok)

lemma decode_encode: "encode_body64 b = Inr t \<Longrightarrow> decode_body64 t = Inr b"
  by (simp add: body64_inverse)

lemma validate_request_headers: "validate_request r = Inr () \<Longrightarrow> validate_headers (rq_headers (nr_data r)) = Inr ()"
  by (simp add: validate_request_def Let_def split: if_splits)

lemma validate_response_status:
  "validate_response r = Inr () \<Longrightarrow> 200 \<le> rs_status r \<and> rs_status r \<le> 599 \<and> validate_headers (rs_headers r) = Inr ()"
  by (simp add: validate_response_def split: if_splits)

lemma target_eta: "\<lparr>tg_original_path = tg_original_path t, tg_path = tg_path t, tg_query = tg_query t\<rparr> = t"
  by (cases t) simp

lemma request_data_eta:
  "\<lparr>rq_request_id = rq_request_id d, rq_method = rq_method d, rq_target = rq_target d, rq_headers = rq_headers d\<rparr> = d"
  by (cases d) simp

lemma request_eta: "\<lparr>nr_data = nr_data r, nr_body = nr_body r\<rparr> = r"
  by (cases r) simp

lemma response_eta: "\<lparr>rs_status = rs_status r, rs_headers = rs_headers r, rs_body = rs_body r\<rparr> = r"
  by (cases r) simp

lemma context_eta:
  "\<lparr>cx_dispatch_id = cx_dispatch_id c, cx_owner_epoch = cx_owner_epoch c, cx_adapter_epoch = cx_adapter_epoch c,
    cx_clock_domain_id = cx_clock_domain_id c, cx_admitted_at_ns = cx_admitted_at_ns c,
    cx_execution_cutoff_ns = cx_execution_cutoff_ns c, cx_matched_prefix = cx_matched_prefix c,
    cx_principal = cx_principal c, cx_extension = cx_extension c\<rparr> = c"
  by (cases c) simp

lemmas record_etas = target_eta request_data_eta request_eta response_eta context_eta

lemmas member_simps = is_member_def get_member_def schema_one_def strings_def json_size_def

lemma request_read_back:
  assumes "serialize_wire_request lib request = Inr raw"
    and "\<And>body. encode_body64 (nr_body request) = Inr body \<Longrightarrow>
      json_parse lib (json_dump lib (request_json request body)) = Some (request_json request body)"
  shows "parse_wire_request lib raw = Inr request"
proof -
  obtain body where v: "validate_request request = Inr ()" and b: "encode_body64 (nr_body request) = Inr body"
    and w: "write_json lib (request_json request body) REQUEST = Inr raw"
    using assms(1) by (auto simp: serialize_wire_request_def)
  have "read_json lib raw REQUEST = Inr (request_json request body)"
    using read_json_write_json [OF w assms(2) [OF b]] by (simp add: request_json_def Let_def)
  then show ?thesis
    using v decode_encode [OF b] read_write_headers [OF validate_request_headers [OF v]]
    unfolding parse_wire_request_def by (simp add: request_json_def Let_def member_simps record_etas)
qed

text \<open>
  C17: What the request serializer writes, the request parser reads back as the same request; the
  library is asked only to read what it has written for this document.
\<close>

theorem wire_request_round_trip:
  assumes "serialize_wire_request lib request = Inr raw"
    and "\<And>body. encode_body64 (nr_body request) = Inr body \<Longrightarrow>
      json_parse lib (json_dump lib (request_json request body)) = Some (request_json request body)"
  shows "parse_wire_request lib raw = Inr request"
  by (rule request_read_back [OF assms])

lemma wire_response_round_trip:
  assumes "serialize_wire_response lib response = Inr raw"
    and "\<And>body. encode_body64 (rs_body response) = Inr body \<Longrightarrow>
      json_parse lib (json_dump lib (response_json response body)) = Some (response_json response body)"
  shows "parse_wire_response lib raw = Inr response"
proof -
  obtain body where v: "validate_response response = Inr ()" and b: "encode_body64 (rs_body response) = Inr body"
    and w: "write_json lib (response_json response body) RESPONSE = Inr raw"
    using assms(1) by (auto simp: serialize_wire_response_def)
  have "read_json lib raw RESPONSE = Inr (response_json response body)"
    using read_json_write_json [OF w assms(2) [OF b]] by (simp add: response_json_def)
  then show ?thesis
    using v decode_encode [OF b] read_write_headers validate_response_status [OF v]
    unfolding parse_wire_response_def by (simp add: response_json_def Let_def member_simps status_member_ok_def record_etas)
qed

lemma parse_ns_show: "parse_ns (show_nat (unat (w :: 64 word))) = Inr (unat w)"
  using unsigned_less [of w] by (simp add: parse_ns_canonical)

lemma read_write_principal:
  assumes "validate_context c = Inr ()"
  shows "read_principal (get_member ''principal'' (context_json c)) = Inr (cx_principal c)"
proof (cases "pr_kind (cx_principal c)")
  case ANONYMOUS
  then have "pr_user_id (cx_principal c) = []" "pr_pat_id (cx_principal c) = []"
    using assms by (simp_all add: validate_context_def Let_def split: if_splits)
  then show ?thesis using ANONYMOUS
    by (cases "cx_principal c") (simp add: context_json_def Let_def read_principal_def member_simps)
next
  case PAT
  then show ?thesis
    by (cases "cx_principal c") (simp add: context_json_def Let_def read_principal_def member_simps)
qed

lemma context_round_trip:
  assumes "serialize_context lib c = Inr raw"
    and "json_parse lib (json_dump lib (context_json c)) = Some (context_json c)"
  shows "parse_context lib raw = Inr c"
proof -
  have v: "validate_context c = Inr ()" and w: "write_json lib (context_json c) CONTEXT = Inr raw"
    using assms(1) by (auto simp: serialize_context_def)
  have r: "read_json lib raw CONTEXT = Inr (context_json c)"
    using read_json_write_json [OF w assms(2)] by (simp add: context_json_def Let_def)
  have p: "is_object (get_member ''principal'' (context_json c))"
    by (simp add: context_json_def Let_def member_simps)
  have "extension_data (extension_json (cx_extension c)) = cx_extension c"
    by (cases "cx_extension c") (simp add: extension_data_def extension_json_def member_simps)
  then show ?thesis
    using v r p read_write_principal [OF v] unfolding parse_context_def
    by (simp add: context_json_def Let_def member_simps extension_json_def parse_ns_show record_etas
        split: if_splits)
qed

section \<open>Documents are UTF-8\<close>

fun json_utf8 :: "json \<Rightarrow> bool" and members_utf8 :: "(string \<times> json) list \<Rightarrow> bool"
  and elems_utf8 :: "json list \<Rightarrow> bool" where
  "json_utf8 (JString s) = valid_utf8 s"
| "json_utf8 (JArray xs) = elems_utf8 xs"
| "json_utf8 (JObject ms) = members_utf8 ms"
| "json_utf8 _ = True"
| "members_utf8 [] = True"
| "members_utf8 ((k, v) # ms) = (valid_utf8 k \<and> json_utf8 v \<and> members_utf8 ms)"
| "elems_utf8 [] = True"
| "elems_utf8 (x # xs) = (json_utf8 x \<and> elems_utf8 xs)"

definition ascii :: "char \<Rightarrow> bool" where
  "ascii c \<longleftrightarrow> byte_of c < 0x80"

lemma ascii_utf8: "list_all ascii t \<Longrightarrow> valid_utf8 t"
  by (induction t) (simp_all add: ascii_def valid_utf8.simps(2))

lemma ascii_literals [simp]:
  "ascii CHR ''-''" "ascii CHR ''.''" "ascii CHR ''/''" "ascii CHR ''*''" "ascii CHR ''+''"
  by (simp_all add: ascii_def)

lemma ascii_classes:
  "lower_alpha c \<Longrightarrow> ascii c" "digit c \<Longrightarrow> ascii c" "alpha c \<Longrightarrow> ascii c" "lower_hex c \<Longrightarrow> ascii c"
  "unreserved c \<Longrightarrow> ascii c" "ident_char c \<Longrightarrow> ascii c" "token c \<Longrightarrow> ascii c"
  by (auto simp: lower_alpha_def digit_def alpha_def lower_hex_def unreserved_def ident_char_def token_def
      ascii_def char_in_def)

lemma list_all_ascii: "list_all P t \<Longrightarrow> (\<And>c. P c \<Longrightarrow> ascii c) \<Longrightarrow> valid_utf8 t"
  by (auto intro!: ascii_utf8 simp: list_all_iff)

lemma uuid_utf8: "valid_uuid t \<Longrightarrow> valid_utf8 t"
proof (rule ascii_utf8, simp only: list_all_length, intro allI impI)
  fix i assume t: "valid_uuid t" and i: "i < length t"
  then have "t ! i = CHR ''-'' \<or> lower_hex (t ! i)"
    unfolding valid_uuid_def list_all_iff by (metis atLeastLessThan_iff le0 set_upt)
  then show "ascii (t ! i)" using ascii_classes(4) by auto
qed

lemma name_utf8: "valid_name t \<Longrightarrow> valid_utf8 t"
  unfolding valid_name_def by (elim conjE, erule list_all_ascii) (auto intro: ascii_classes)

lemma hex256_utf8: "valid_hex256 t \<Longrightarrow> valid_utf8 t"
  unfolding valid_hex256_def by (elim conjE, erule list_all_ascii) (rule ascii_classes)

lemma method_utf8: "valid_method t \<Longrightarrow> valid_utf8 t"
  unfolding valid_method_def by (elim conjE, erule list_all_ascii) (auto simp: ascii_classes)

lemma show_nat_utf8: "valid_utf8 (show_nat n)"
  using show_nat_digits [of n] by (rule list_all_ascii) (simp add: ascii_classes(2) digit_def)

lemma list_all_join: "list_all P (join_with c ps) \<longleftrightarrow> list_all (list_all P) ps \<and> (1 < length ps \<longrightarrow> P c)"
  by (induction c ps rule: join_with.induct) auto

lemma numeric_ident_ascii: "numeric_ident d \<Longrightarrow> list_all ascii d"
  by (auto simp: numeric_ident_def list_all_iff intro: ascii_classes(2))

lemma suffix_ident_ascii: "suffix_ident d p \<Longrightarrow> list_all ascii p"
  by (auto simp: suffix_ident_def list_all_iff intro: ascii_classes(6))

lemma suffix_text_ascii: "list_all (suffix_ident d) ps \<Longrightarrow> ascii d \<Longrightarrow> list_all ascii (suffix_text d ps)"
  using suffix_ident_ascii by (auto simp: suffix_text_def list_all_join list.pred_mono_strong)

lemma version_utf8: "valid_version t \<Longrightarrow> valid_utf8 t"
proof (rule ascii_utf8)
  assume "valid_version t"
  then obtain a b c pre build where "numeric_ident a" "numeric_ident b" "numeric_ident c"
    "list_all (suffix_ident CHR ''-'') pre" "list_all (suffix_ident CHR ''+'') build"
    "t = a @ CHR ''.'' # b @ CHR ''.'' # c @ suffix_text CHR ''-'' pre @ suffix_text CHR ''+'' build"
    unfolding version_grammar semver_def by blast
  then show "list_all ascii t" using suffix_text_ascii numeric_ident_ascii by simp
qed

lemma claim_utf8: "valid_claim t \<Longrightarrow> valid_utf8 t"
proof (rule ascii_utf8)
  assume v: "valid_claim t"
  define u where "u = (if ends_with t ''/*'' then remove_suffix t 2 else t)"
  have "list_all (\<lambda>c. c = CHR ''/'' \<or> unreserved c) u"
    using v by (simp add: valid_claim_def Let_def u_def split: if_splits)
  then have "list_all ascii u"
    by (rule list.pred_mono_strong) (use ascii_classes(5) ascii_literals(3) in blast)
  moreover have "t = u \<or> t = u @ ''/*''"
  proof (cases "ends_with t ''/*''")
    case True
    then have "drop (length t - 2) t = ''/*''" by (simp add: ends_with_def numeral_2_eq_2)
    then show ?thesis
      using True append_take_drop_id [of "length t - 2" t] by (simp add: u_def remove_suffix_def)
  qed (simp add: u_def)
  ultimately show "list_all ascii t" by auto
qed

lemma BASE64_ascii: "list_all ascii BASE64"
  unfolding BASE64_def ascii_def by code_simp

lemma base64_char_ascii: "k < 64 \<Longrightarrow> ascii (base64_char k)"
  using BASE64_ascii nth_mem [of "unat k" BASE64]
  by (auto simp: base64_char_def sextet_bound list_all_length)

lemma pad_ascii: "ascii pad"
  by (simp add: pad_def ascii_def)

lemma encode_groups_ascii: "list_all ascii (encode_groups b)"
proof (induction b rule: encode_groups.induct)
  case (2 x)
  show ?case using sextets_of_bytes(1) [of x] sextets_of_bytes(2) [of x 0]
    by (simp add: Let_def base64_char_ascii pad_ascii)
next
  case (3 x y)
  show ?case using sextets_of_bytes(1) [of x] sextets_of_bytes(2) [of x y] sextets_of_bytes(3) [of y 0]
    by (simp add: Let_def base64_char_ascii pad_ascii)
next
  case (4 x y z body)
  then show ?case
    using sextets_of_bytes(1) [of x] sextets_of_bytes(2) [of x y] sextets_of_bytes(3) [of y z]
      sextets_of_bytes(4) [of z]
    by (simp add: Let_def base64_char_ascii)
qed simp

lemma body64_utf8: "encode_body64 b = Inr t \<Longrightarrow> valid_utf8 t"
  using encode_groups_ascii by (auto simp: encode_body64_def intro!: ascii_utf8 split: if_splits)

lemma query_scan_ascii: "query_scan q = Inr () \<Longrightarrow> list_all ascii q"
proof (induction q rule: query_scan.induct)
  case (2 c rest)
  have c: "ascii c" using 2(3) by (auto simp: ascii_def split: if_splits)
  show ?case
  proof (cases "c = CHR ''%''")
    case True
    then obtain h l rest' where r: "rest = h # l # rest'" "hex h \<noteq> None" "hex l \<noteq> None" "query_scan rest' = Inr ()"
      using 2(3) by (auto split: if_splits list.splits)
    have "ascii h" "ascii l"
      using r(2,3) by (auto simp: hex_def digit_def char_in_def ascii_def split: if_splits)
    moreover have "list_all ascii rest'" using 2(1) [of h "l # rest'" l rest'] 2(3) True r by (auto split: if_splits)
    ultimately show ?thesis using r c by simp
  next
    case False
    then have "query_scan rest = Inr ()" using 2(3) by (auto split: if_splits)
    then show ?thesis using 2(2) 2(3) False c by (auto split: if_splits)
  qed
qed simp

lemma header_ok_utf8: "header_ok h \<Longrightarrow> valid_utf8 (fst h) \<and> valid_utf8 (snd h)"
  by (auto simp: header_ok_def header_name_ok_def header_value_ok_def intro: list_all_ascii ascii_classes(7))

lemma headers_utf8: "validate_headers hs = Inr () \<Longrightarrow> json_utf8 (write_headers hs)"
proof -
  have "list_all header_ok hs \<Longrightarrow> elems_utf8 (map (\<lambda>(n, v). JArray [JString n, JString v]) hs)"
    by (induction hs) (auto dest: header_ok_utf8)
  then show "validate_headers hs = Inr () \<Longrightarrow> ?thesis"
    by (simp add: validate_headers_ok write_headers_def)
qed

lemma json_keys_utf8 [simp]:
  "valid_utf8 ''schema''" "valid_utf8 ''request_id''" "valid_utf8 ''method''" "valid_utf8 ''path''"
  "valid_utf8 ''original_path''" "valid_utf8 ''query''" "valid_utf8 ''headers''" "valid_utf8 ''body_b64''"
  "valid_utf8 ''status''" "valid_utf8 ''dispatch_id''" "valid_utf8 ''owner_epoch''"
  "valid_utf8 ''adapter_epoch''" "valid_utf8 ''clock_domain_id''" "valid_utf8 ''admitted_at_ns''"
  "valid_utf8 ''execution_cutoff_ns''" "valid_utf8 ''matched_prefix''" "valid_utf8 ''principal''"
  "valid_utf8 ''extension''" "valid_utf8 ''kind''" "valid_utf8 ''pat''" "valid_utf8 ''anonymous''"
  "valid_utf8 ''user_id''" "valid_utf8 ''pat_id''" "valid_utf8 ''package_id''" "valid_utf8 ''name''"
  "valid_utf8 ''version''" "valid_utf8 ''artifact_sha256''" "valid_utf8 ''generation_receipt_id''"
  by (rule ascii_utf8, simp add: ascii_def)+

lemma request_document_utf8:
  assumes "validate_request request = Inr ()" and "encode_body64 (nr_body request) = Inr body"
  shows "json_utf8 (request_json request body)"
proof -
  let ?d = "nr_data request" and ?t = "rq_target (nr_data request)"
  have v: "valid_uuid (rq_request_id ?d)" "valid_method (rq_method ?d)" "validate_headers (rq_headers ?d) = Inr ()"
    and t: "validate_target (tg_original_path ?t) (tg_path ?t) (tg_query ?t) = Inr ()"
    using assms(1) by (simp_all add: validate_request_def Let_def split: if_splits)
  from t have "valid_utf8 (tg_original_path ?t)" "valid_utf8 (tg_path ?t)" "query_scan (tg_query ?t) = Inr ()"
    by (simp_all add: validate_target_def split: if_splits)
  then show ?thesis using v body64_utf8 [OF assms(2)]
    by (simp add: request_json_def Let_def uuid_utf8 method_utf8 headers_utf8 ascii_utf8 query_scan_ascii)
qed

lemma context_document_utf8:
  assumes "validate_context c = Inr ()"
  shows "json_utf8 (context_json c)"
proof -
  have v: "valid_uuid (cx_dispatch_id c)" "valid_uuid (cx_owner_epoch c)" "valid_uuid (cx_adapter_epoch c)"
    "valid_uuid (cx_clock_domain_id c)" "valid_claim (cx_matched_prefix c)"
    "valid_uuid (ex_package_id (cx_extension c))" "valid_name (ex_name (cx_extension c))"
    "valid_version (ex_version (cx_extension c))" "valid_hex256 (ex_artifact_sha256 (cx_extension c))"
    "valid_uuid (ex_generation_receipt_id (cx_extension c))"
    using assms by (simp_all add: validate_context_def Let_def split: if_splits)
  have "pr_kind (cx_principal c) = PAT \<Longrightarrow>
      valid_uuid (pr_user_id (cx_principal c)) \<and> valid_uuid (pr_pat_id (cx_principal c))"
    using assms by (simp add: validate_context_def Let_def split: if_splits)
  then show ?thesis using v
    by (auto simp: context_json_def extension_json_def Let_def uuid_utf8 claim_utf8 name_utf8 version_utf8
        hex256_utf8 show_nat_utf8)
qed

lemma response_document_utf8:
  assumes "validate_response response = Inr ()" and "encode_body64 (rs_body response) = Inr body"
  shows "json_utf8 (response_json response body)"
  using validate_response_status [OF assms(1)] body64_utf8 [OF assms(2)]
  by (simp add: response_json_def headers_utf8)

lemma call_documents_utf8:
  assumes "validate_call_data request c = Inr ()" and "encode_body64 (nr_body request) = Inr body"
  shows "json_utf8 (request_json request body) \<and> json_utf8 (context_json c)"
proof -
  have "validate_request request = Inr ()" "validate_context c = Inr ()"
    using assms(1) by (simp_all add: validate_call_data_def)
  then show ?thesis using assms(2) by (simp add: request_document_utf8 context_document_utf8)
qed

section \<open>A concrete library and call\<close>

text \<open>For the witnesses: a writer without escapes, and a reader that knows one document.\<close>

fun plain_dump :: "json \<Rightarrow> string" and plain_members :: "(string \<times> json) list \<Rightarrow> string list"
  and plain_elems :: "json list \<Rightarrow> string list" where
  "plain_dump JNull = ''null''"
| "plain_dump (JBool b) = (if b then ''true'' else ''false'')"
| "plain_dump (JInt i) = show_int i"
| "plain_dump (JReal s) = s"
| "plain_dump (JString s) = quote # s @ [quote]"
| "plain_dump (JArray xs) = ''['' @ join_with CHR '','' (plain_elems xs) @ '']''"
| "plain_dump (JObject ms) = ''{'' @ join_with CHR '','' (plain_members ms) @ ''}''"
| "plain_members [] = []"
| "plain_members ((k, v) # ms) = (quote # k @ [quote, CHR '':''] @ plain_dump v) # plain_members ms"
| "plain_elems [] = []"
| "plain_elems (x # xs) = plain_dump x # plain_elems xs"

definition plain_lib :: "json \<Rightarrow> json_lib" where
  "plain_lib doc =
     \<lparr>json_parse = (\<lambda>s. if s = plain_dump doc then Some doc
        else if s \<noteq> [] \<and> hd s = quote then Some (JString (butlast (tl s))) else None),
      json_dump = plain_dump,
      json_sax = (\<lambda>s. if s = plain_dump doc then (doc_events doc, True) else ([], False))\<rparr>"

definition sample_uuid :: string where
  "sample_uuid = ''01234567-89ab-cdef-0123-456789abcdef''"

definition sample_request :: native_request where
  "sample_request =
     \<lparr>nr_data = \<lparr>rq_request_id = sample_uuid, rq_method = ''POST'',
        rq_target = \<lparr>tg_original_path = ''/api/a%20b'', tg_path = ''/api/a b'', tg_query = ''x=1''\<rparr>,
        rq_headers = [(''accept'', ''*/*'')]\<rparr>, nr_body = [1, 2, 3, 4]\<rparr>"

definition sample_context :: context_data where
  "sample_context =
     \<lparr>cx_dispatch_id = sample_uuid, cx_owner_epoch = sample_uuid, cx_adapter_epoch = sample_uuid,
      cx_clock_domain_id = sample_uuid, cx_admitted_at_ns = 5, cx_execution_cutoff_ns = 17,
      cx_matched_prefix = ''/api/*'',
      cx_principal = \<lparr>pr_kind = PAT, pr_user_id = sample_uuid, pr_pat_id = sample_uuid\<rparr>,
      cx_extension = \<lparr>ex_package_id = sample_uuid, ex_name = ''demo'', ex_version = ''1.2.3-rc.1'',
        ex_artifact_sha256 = replicate 64 CHR ''0'', ex_generation_receipt_id = sample_uuid\<rparr>\<rparr>"

definition sample_request_doc :: json where
  "sample_request_doc = request_json sample_request ''AQIDBA==''"

lemma sample_uuid_ok: "valid_uuid sample_uuid"
  by code_simp

lemma sample_target_ok: "validate_target ''/api/a%20b'' ''/api/a b'' ''x=1'' = Inr ()"
proof -
  have "path_segments ''/api/a b''" "\<not> list_ex path_char_bad ''/api/a b''" "query_scan ''x=1'' = Inr ()"
    "target_match ''/api/a%20b'' ''/api/a b'' = Inr ()" "valid_utf8 ''/api/a%20b''" "valid_utf8 ''/api/a b''"
    by code_simp+
  then show ?thesis by (simp add: validate_target_def MAX_TARGET_BYTES_def)
qed

lemma sample_headers_ok: "validate_headers [(''accept'', ''*/*'')] = Inr ()"
proof -
  have "header_name_ok ''accept''" "header_value_ok ''*/*''" by code_simp+
  then show ?thesis
    by (simp add: validate_headers_ok header_ok_def MAX_HEADER_PAIRS_def MAX_HEADER_BYTES_def)
qed

lemma sample_request_ok: "validate_request sample_request = Inr ()"
proof -
  have "valid_method ''POST''" "\<not> request_forbidden ''accept''" by code_simp+
  moreover have "length sample_uuid = 36" by (simp add: sample_uuid_def)
  ultimately show ?thesis
    using sample_uuid_ok sample_target_ok sample_headers_ok
    by (simp add: validate_request_def sample_request_def MAX_BODY_BYTES_def MAX_METADATA_BYTES_def)
qed

lemma sample_context_ok: "validate_context sample_context = Inr ()"
proof -
  have "valid_claim ''/api/*''" "valid_name ''demo''" "valid_version ''1.2.3-rc.1''"
    "valid_hex256 (replicate 64 CHR ''0'')"
    by code_simp+
  then show ?thesis using sample_uuid_ok by (simp add: validate_context_def sample_context_def)
qed

lemma sample_valid: "validate_call_data sample_request sample_context = Inr ()"
proof -
  have "matches ''/api/*'' ''/api/a b''" by code_simp
  then show ?thesis using sample_request_ok sample_context_ok
    by (simp add: validate_call_data_def sample_request_def sample_context_def)
qed

lemma sample_body: "encode_body64 (nr_body sample_request) = Inr ''AQIDBA==''"
proof -
  have "encode_groups [1, 2, 3, 4] = ''AQIDBA==''" by code_simp
  then show ?thesis by (simp add: encode_body64_def sample_request_def MAX_BODY_BYTES_def)
qed

lemma sample_documents_utf8:
  "json_utf8 (request_json sample_request ''AQIDBA=='') \<and> json_utf8 (context_json sample_context)"
  by (rule call_documents_utf8 [OF sample_valid sample_body])

lemma sample_raw: \<open>plain_dump sample_request_doc =
  ''{"schema":1,"request_id":"01234567-89ab-cdef-0123-456789abcdef","method":"POST","path":"/api/a b","original_path":"/api/a%20b","query":"x=1","headers":[["accept","*/*"]],"body_b64":"AQIDBA=="}''\<close>
  by code_simp

lemma bounds_scan_other: "c \<noteq> quote \<Longrightarrow> bounds_scan k (c # rest) f b = bounds_scan k rest f b"
  by (simp add: bounds_scan.simps)

lemma bounds_scan_string:
  "scan_token rest = Some (tok, after) \<Longrightarrow> after \<noteq> [] \<Longrightarrow> \<not> whitespace (hd after) \<Longrightarrow> hd after \<noteq> CHR '':'' \<Longrightarrow>
   bounds_scan k (quote # rest) f b = bounds_scan k after f b"
  by (cases after) (simp_all add: bounds_scan.simps Let_def)

lemma bounds_scan_key:
  "scan_token rest = Some (tok, CHR '':'' # after) \<Longrightarrow> length tok < 128 \<Longrightarrow>
   k (quote # tok @ [quote]) = Some key \<Longrightarrow> key \<noteq> ''body_b64'' \<Longrightarrow>
   bounds_scan k (quote # rest) f b = bounds_scan k (CHR '':'' # after) f b"
  by (subst bounds_scan.simps) (simp add: Let_def whitespace_def)

lemma bounds_scan_body:
  "scan_token rest = Some (tok, CHR '':'' # quote # lit) \<Longrightarrow> length tok < 128 \<Longrightarrow>
   k (quote # tok @ [quote]) = Some ''body_b64'' \<Longrightarrow> scan_body lit = Some (body, after) \<Longrightarrow>
   length body \<le> MAX_BODY64 \<Longrightarrow>
   bounds_scan k (quote # rest) False b = bounds_scan k after True (length body)"
  by (subst bounds_scan.simps) (simp add: Let_def whitespace_def)

lemma bounds_scan_end: "bounds_scan k [] f b = Inr b"
  by (simp add: bounds_scan.simps)

lemma plain_lib_key: "s \<noteq> plain_dump doc \<Longrightarrow> s \<noteq> [] \<Longrightarrow> hd s = quote \<Longrightarrow> library_key (plain_lib doc) s = Some (butlast (tl s))"
  by (simp add: library_key_def plain_lib_def)

lemma sample_key: "library_key (plain_lib sample_request_doc) (quote # s) = Some (butlast s)"
  by (rule plain_lib_key [THEN trans]) (simp_all add: sample_raw)

lemma sample_scan: "bounds_scan (library_key (plain_lib sample_request_doc)) (plain_dump sample_request_doc) False 0 = Inr 8"
  unfolding sample_raw
  by (simp add: bounds_scan_other bounds_scan_string bounds_scan_key bounds_scan_body bounds_scan_end sample_key whitespace_def MAX_BODY64_def MAX_BODY_BYTES_def)

lemma sample_sax: "fst (feed pf_step (doc_events sample_request_doc) (preflight_init REQUEST))"
proof -
  have "closed_value REQUEST None sample_request_doc" by code_simp
  moreover have "doc_nodes sample_request_doc \<le> 1024" "doc_metadata [] sample_request_doc \<le> MAX_METADATA_BYTES"
    by (simp_all add: sample_request_doc_def request_json_def sample_request_def write_headers_def sample_uuid_def MAX_METADATA_BYTES_def)
  ultimately show ?thesis by (simp add: preflight_iff)
qed

lemma sample_ascii: "list_all ascii (plain_dump sample_request_doc)"
  unfolding ascii_def by code_simp

lemma sample_serialized:
  "serialize_wire_request (plain_lib sample_request_doc) sample_request = Inr (plain_dump sample_request_doc)"
proof -
  let ?raw = "plain_dump sample_request_doc"
  have l: "length ?raw < 1000" "?raw \<noteq> []" unfolding sample_raw by simp_all
  have "encoded_bounds (plain_lib sample_request_doc) ?raw = Inr ()"
    using l sample_scan ascii_utf8 [OF sample_ascii]
    by (simp add: encoded_bounds_def raw_bounds_with_def MAX_WIRE_BYTES_def MAX_ENCODED_METADATA_BYTES_def)
  moreover have "fst (sax_parse (plain_lib sample_request_doc) pf_step (preflight_init REQUEST) ?raw)"
    using sample_sax by (auto simp: sax_parse_def plain_lib_def split: prod.splits)
  ultimately have "write_json (plain_lib sample_request_doc) sample_request_doc REQUEST = Inr ?raw"
    by (auto simp: write_json_def Let_def split: prod.splits) (simp_all add: plain_lib_def)
  then show ?thesis using sample_request_ok sample_body
    by (simp add: serialize_wire_request_def sample_request_doc_def)
qed

theorem wire_request_round_trip_witness:
  "parse_wire_request (plain_lib sample_request_doc) (plain_dump sample_request_doc) = Inr sample_request"
  by (rule wire_request_round_trip [OF sample_serialized])
    (simp add: sample_body plain_lib_def sample_request_doc_def)

end
