(* ===== verification/Http_Frame_Sax.thy ===== *)
theory Http_Frame_Sax
  imports Http_Codec
begin

text \<open>
  The prepass of \<open>extension_http/frames.cpp\<close> over a frame: the decoder of escaped keys, the raw
  bounds, and the class \<open>Preflight\<close> as a step function on parser events. It knows the eight frame
  types, checks that every record has exactly the members of its variant, and is shown to
  accept exactly the documents of a grammar given as a table of record shapes.
\<close>

datatype frame_error = FRAME_INVALID | FRAME_TOO_LARGE | RESOURCE_UNAVAILABLE

type_synonym 'a frame_result = "frame_error + 'a"

fun map_error :: "codec_error \<Rightarrow> frame_error" where
  "map_error TOO_LARGE = FRAME_TOO_LARGE"
| "map_error INVALID = FRAME_INVALID"

text \<open>A codec call whose error is mapped.\<close>

fun mapped :: "'a codec_result \<Rightarrow> 'a frame_result" where
  "mapped (Inl e) = Inl (map_error e)"
| "mapped (Inr x) = Inr x"

section \<open>Keys and raw bounds\<close>

definition escape_char :: "char \<Rightarrow> char option" where
  "escape_char c =
     (if c = CHR ''b'' then Some (CHR 0x08)
      else if c = CHR ''f'' then Some (CHR 0x0C)
      else if c = CHR ''n'' then Some (CHR 0x0A)
      else if c = CHR ''r'' then Some (CHR 0x0D)
      else if c = CHR ''t'' then Some (CHR 0x09)
      else if c = quote \<or> c = backslash \<or> c = CHR ''/'' then Some c else None)"

text \<open>The four digits of a \<open>u\<close> escape, refused above 127.\<close>

definition unicode_escape :: "char \<Rightarrow> char \<Rightarrow> char \<Rightarrow> char \<Rightarrow> char option" where
  "unicode_escape a b c d =
     (case (hex a, hex b, hex c, hex d) of
        (Some p, Some q, Some r, Some s) \<Rightarrow>
          (let v = ((p * 16 + q) * 16 + r) * 16 + s in if 127 < v then None else Some (char_of v))
      | _ \<Rightarrow> None)"

fun key_chars :: "string \<Rightarrow> string option" where
  "key_chars [] = Some []"
| "key_chars (c # rest) =
     (if c = backslash then
        (case rest of
           [] \<Rightarrow> None
         | e # after \<Rightarrow>
             if e = CHR ''u'' then
               (case after of
                  h1 # h2 # h3 # h4 # more_chars \<Rightarrow>
                    (case unicode_escape h1 h2 h3 h4 of
                       None \<Rightarrow> None
                     | Some x \<Rightarrow> map_option ((#) x) (key_chars more_chars))
                | _ \<Rightarrow> None)
             else (case escape_char e of
                None \<Rightarrow> None
              | Some x \<Rightarrow> map_option ((#) x) (key_chars after)))
      else if byte_of c < 32 \<or> 127 < byte_of c then None
      else map_option ((#) c) (key_chars rest))"

text \<open>The token comes with its quotes.\<close>

definition decoded_key :: "string \<Rightarrow> string option" where
  "decoded_key tok = key_chars (butlast (tl tok))"

definition raw_bounds :: "string \<Rightarrow> unit frame_result" where
  "raw_bounds raw = mapped (raw_bounds_with decoded_key raw)"

section \<open>The frame prepass\<close>

datatype frame_role =
    F_ROOT | F_REQUEST | F_RESPONSE | F_CONTEXT | F_PRINCIPAL | F_EXTENSION | F_OUTCOME | F_SETTLEMENT
  | F_HEADERS | F_PAIR

fun allowed :: "frame_role \<Rightarrow> string \<Rightarrow> bool" where
  "allowed F_ROOT key \<longleftrightarrow> key \<in> set [''schema'', ''type'', ''owner_epoch'', ''adapter_epoch'', ''clock_domain_id'',
     ''extension'', ''dispatch_id'', ''generation_receipt_id'', ''request'', ''context'', ''entered_at_ns'',
     ''outcome'', ''reason'', ''settlement'']"
| "allowed F_REQUEST key \<longleftrightarrow> key \<in> set [''schema'', ''request_id'', ''method'', ''path'', ''original_path'',
     ''query'', ''headers'', ''body_b64'']"
| "allowed F_RESPONSE key \<longleftrightarrow> key \<in> set [''schema'', ''status'', ''headers'', ''body_b64'']"
| "allowed F_CONTEXT key \<longleftrightarrow> key \<in> set [''schema'', ''dispatch_id'', ''owner_epoch'', ''adapter_epoch'',
     ''clock_domain_id'', ''admitted_at_ns'', ''execution_cutoff_ns'', ''matched_prefix'', ''principal'', ''extension'']"
| "allowed F_PRINCIPAL key \<longleftrightarrow> key \<in> set [''kind'', ''user_id'', ''pat_id'']"
| "allowed F_EXTENSION key \<longleftrightarrow> key \<in> set [''package_id'', ''name'', ''version'', ''artifact_sha256'',
     ''generation_receipt_id'']"
| "allowed F_OUTCOME key \<longleftrightarrow> key \<in> set [''kind'', ''response'', ''code'']"
| "allowed F_SETTLEMENT key \<longleftrightarrow> key \<in> set [''reason'', ''entry_state'', ''entered_at_ns'']"
| "allowed F_HEADERS key \<longleftrightarrow> False"
| "allowed F_PAIR key \<longleftrightarrow> False"

record frame_scope =
  fs_role :: frame_role
  fs_keys :: "string list"
  fs_key :: string
  fs_discriminator :: string
  fs_count :: nat

record frame_preflight =
  fp_stack :: "frame_scope list"
  fp_nodes :: nat
  fp_metadata :: nat
  fp_root_seen :: bool
  fp_error :: frame_error

definition frame_preflight_init :: frame_preflight where
  "frame_preflight_init =
     \<lparr>fp_stack = [], fp_nodes = 0, fp_metadata = 0, fp_root_seen = False, fp_error = FRAME_INVALID\<rparr>"

definition fp_node :: "frame_preflight \<Rightarrow> bool \<times> frame_preflight" where
  "fp_node st =
     (if 8 < length (fp_stack st) + 1 \<or> fp_nodes st = 1024 then (False, st\<lparr>fp_error := FRAME_TOO_LARGE\<rparr>)
      else (True, st\<lparr>fp_nodes := fp_nodes st + 1\<rparr>))"

definition fs_exact :: "frame_scope \<Rightarrow> string list \<Rightarrow> bool" where
  "fs_exact s names \<longleftrightarrow> length (fs_keys s) = length names \<and> list_all (\<lambda>key. key \<in> set (fs_keys s)) names"

definition frame_common :: "string list" where
  "frame_common = [''schema'', ''type'', ''owner_epoch'', ''adapter_epoch'', ''dispatch_id'', ''generation_receipt_id'']"

definition fs_closed :: "frame_scope \<Rightarrow> bool" where
  "fs_closed s =
     (case fs_role s of
        F_ROOT \<Rightarrow>
          if fs_discriminator s = ''hello'' \<or> fs_discriminator s = ''hello_ack'' then
            fs_exact s [''schema'', ''type'', ''owner_epoch'', ''adapter_epoch'', ''clock_domain_id'', ''extension'']
          else if fs_discriminator s = ''call'' then fs_exact s (frame_common @ [''request'', ''context''])
          else if fs_discriminator s = ''accepted'' then fs_exact s frame_common
          else if fs_discriminator s = ''entered'' then fs_exact s (frame_common @ [''entered_at_ns''])
          else if fs_discriminator s = ''result'' then fs_exact s (frame_common @ [''outcome''])
          else if fs_discriminator s = ''cancel'' then fs_exact s (frame_common @ [''reason''])
          else if fs_discriminator s = ''settled'' then fs_exact s (frame_common @ [''settlement''])
          else False
      | F_REQUEST \<Rightarrow> fs_exact s [''schema'', ''request_id'', ''method'', ''path'', ''original_path'', ''query'',
          ''headers'', ''body_b64'']
      | F_RESPONSE \<Rightarrow> fs_exact s [''schema'', ''status'', ''headers'', ''body_b64'']
      | F_CONTEXT \<Rightarrow> fs_exact s [''schema'', ''dispatch_id'', ''owner_epoch'', ''adapter_epoch'', ''clock_domain_id'',
          ''admitted_at_ns'', ''execution_cutoff_ns'', ''matched_prefix'', ''principal'', ''extension'']
      | F_PRINCIPAL \<Rightarrow>
          if fs_discriminator s = ''anonymous'' then fs_exact s [''kind'']
          else fs_discriminator s = ''pat'' \<and> fs_exact s [''kind'', ''user_id'', ''pat_id'']
      | F_EXTENSION \<Rightarrow> fs_exact s [''package_id'', ''name'', ''version'', ''artifact_sha256'', ''generation_receipt_id'']
      | F_OUTCOME \<Rightarrow>
          if fs_discriminator s = ''response'' then fs_exact s [''kind'', ''response'']
          else fs_discriminator s = ''error'' \<and> fs_exact s [''kind'', ''code'']
      | F_SETTLEMENT \<Rightarrow> fs_exact s [''reason'', ''entry_state'', ''entered_at_ns'']
      | F_HEADERS \<Rightarrow> True
      | F_PAIR \<Rightarrow> fs_count s = 2)"

text \<open>What the innermost scope says about a value of each kind.\<close>

definition fs_integer_ok :: "frame_scope \<Rightarrow> int \<Rightarrow> bool" where
  "fs_integer_ok s v =
     (if (fs_role s = F_ROOT \<or> fs_role s = F_REQUEST \<or> fs_role s = F_RESPONSE \<or> fs_role s = F_CONTEXT) \<and>
         fs_key s = ''schema'' then v = 1
      else fs_role s = F_RESPONSE \<and> fs_key s = ''status'' \<and> 200 \<le> v \<and> v \<le> 599)"

definition fs_null_ok :: "frame_scope \<Rightarrow> bool" where
  "fs_null_ok s \<longleftrightarrow> fs_role s = F_SETTLEMENT \<and> fs_key s = ''entered_at_ns''"

definition fs_no_string :: "frame_scope \<Rightarrow> bool" where
  "fs_no_string s \<longleftrightarrow>
     fs_role s = F_HEADERS \<or> fs_key s = ''schema'' \<or> (fs_role s = F_RESPONSE \<and> fs_key s = ''status'')"

definition fs_nested_key :: "frame_scope \<Rightarrow> bool" where
  "fs_nested_key s \<longleftrightarrow> fs_key s \<in> set [''headers'', ''request'', ''context'', ''principal'', ''extension'',
     ''outcome'', ''response'', ''settlement'']"

definition fs_body :: "frame_scope \<Rightarrow> bool" where
  "fs_body s \<longleftrightarrow> (fs_role s = F_REQUEST \<or> fs_role s = F_RESPONSE) \<and> fs_key s = ''body_b64''"

definition fs_discriminates :: "frame_scope \<Rightarrow> bool" where
  "fs_discriminates s \<longleftrightarrow> (fs_role s = F_ROOT \<and> fs_key s = ''type'') \<or>
     ((fs_role s = F_OUTCOME \<or> fs_role s = F_PRINCIPAL) \<and> fs_key s = ''kind'')"

definition fs_object_role :: "frame_scope \<Rightarrow> frame_role option" where
  "fs_object_role s =
     (if fs_role s = F_ROOT \<and> fs_key s = ''request'' then Some F_REQUEST
      else if fs_role s = F_ROOT \<and> fs_key s = ''context'' then Some F_CONTEXT
      else if (fs_role s = F_ROOT \<or> fs_role s = F_CONTEXT) \<and> fs_key s = ''extension'' then Some F_EXTENSION
      else if fs_role s = F_CONTEXT \<and> fs_key s = ''principal'' then Some F_PRINCIPAL
      else if fs_role s = F_ROOT \<and> fs_key s = ''outcome'' then Some F_OUTCOME
      else if fs_role s = F_ROOT \<and> fs_key s = ''settlement'' then Some F_SETTLEMENT
      else if fs_role s = F_OUTCOME \<and> fs_key s = ''response'' then Some F_RESPONSE
      else None)"

definition new_scope :: "frame_role \<Rightarrow> frame_scope" where
  "new_scope r = \<lparr>fs_role = r, fs_keys = [], fs_key = [], fs_discriminator = [], fs_count = 0\<rparr>"

definition fp_push :: "frame_role \<Rightarrow> frame_preflight \<Rightarrow> frame_preflight" where
  "fp_push r st = st\<lparr>fp_stack := new_scope r # fp_stack st\<rparr>"

definition fp_integer :: "frame_preflight \<Rightarrow> int \<Rightarrow> bool \<times> frame_preflight" where
  "fp_integer st0 v =
     (case fp_node st0 of (ok, st) \<Rightarrow>
        if \<not> ok then (False, st)
        else case fp_stack st of [] \<Rightarrow> (False, st) | s # _ \<Rightarrow> (fs_integer_ok s v, st))"

definition fp_null :: "frame_preflight \<Rightarrow> bool \<times> frame_preflight" where
  "fp_null st0 =
     (case fp_node st0 of (ok, st) \<Rightarrow>
        if \<not> ok then (False, st)
        else case fp_stack st of [] \<Rightarrow> (False, st) | s # _ \<Rightarrow> (fs_null_ok s, st))"

definition fp_string :: "frame_preflight \<Rightarrow> string \<Rightarrow> bool \<times> frame_preflight" where
  "fp_string st0 text =
     (case fp_node st0 of (ok, st) \<Rightarrow>
        if \<not> ok then (False, st)
        else case fp_stack st of
            [] \<Rightarrow> (False, st)
          | s0 # rest \<Rightarrow>
              if fs_no_string s0 then (False, st)
              else let s = (if fs_role s0 = F_PAIR then s0\<lparr>fs_count := fs_count s0 + 1\<rparr> else s0);
                       st = st\<lparr>fp_stack := s # rest\<rparr>
                   in if fs_role s = F_PAIR \<and> 2 < fs_count s then (False, st)
                      else if fs_role s \<noteq> F_PAIR \<and> fs_nested_key s then (False, st)
                      else if \<not> fs_body s \<and> MAX_METADATA_BYTES - fp_metadata st < length text
                      then (False, st\<lparr>fp_error := FRAME_TOO_LARGE\<rparr>)
                      else (True, st\<lparr>fp_metadata := (if fs_body s then fp_metadata st else fp_metadata st + length text),
                             fp_stack := (if fs_discriminates s then s\<lparr>fs_discriminator := text\<rparr> else s) # rest\<rparr>))"

definition fp_start_object :: "frame_preflight \<Rightarrow> bool \<times> frame_preflight" where
  "fp_start_object st0 =
     (case fp_node st0 of (ok, st) \<Rightarrow>
        if \<not> ok then (False, st)
        else case fp_stack st of
            [] \<Rightarrow> if fp_root_seen st then (False, st) else (True, fp_push F_ROOT (st\<lparr>fp_root_seen := True\<rparr>))
          | s # _ \<Rightarrow> (case fs_object_role s of None \<Rightarrow> (False, st) | Some r \<Rightarrow> (True, fp_push r st)))"

definition fp_end :: "frame_preflight \<Rightarrow> bool \<times> frame_preflight" where
  "fp_end st =
     (case fp_stack st of
        [] \<Rightarrow> (False, st)
      | s # rest \<Rightarrow> if \<not> fs_closed s then (False, st) else (True, st\<lparr>fp_stack := rest\<rparr>))"

definition fs_with_key :: "frame_scope \<Rightarrow> string \<Rightarrow> frame_scope" where
  "fs_with_key s key = s\<lparr>fs_keys := fs_keys s @ [key], fs_key := key\<rparr>"

definition fp_key :: "frame_preflight \<Rightarrow> string \<Rightarrow> bool \<times> frame_preflight" where
  "fp_key st key =
     (case fp_stack st of
        [] \<Rightarrow> (False, st)
      | s # rest \<Rightarrow>
          if \<not> allowed (fs_role s) key \<or> key \<in> set (fs_keys s) then (False, st)
          else (True, st\<lparr>fp_stack := fs_with_key s key # rest\<rparr>))"

definition fp_start_array :: "frame_preflight \<Rightarrow> bool \<times> frame_preflight" where
  "fp_start_array st0 =
     (case fp_node st0 of (ok, st) \<Rightarrow>
        if \<not> ok then (False, st)
        else case fp_stack st of
            [] \<Rightarrow> (False, st)
          | s # rest \<Rightarrow>
              if (fs_role s = F_REQUEST \<or> fs_role s = F_RESPONSE) \<and> fs_key s = ''headers''
              then (True, fp_push F_HEADERS st)
              else if fs_role s = F_HEADERS then
                (let st = st\<lparr>fp_stack := s\<lparr>fs_count := fs_count s + 1\<rparr> # rest\<rparr>
                 in if MAX_HEADER_PAIRS < fs_count s + 1 then (False, st\<lparr>fp_error := FRAME_TOO_LARGE\<rparr>)
                    else (True, fp_push F_PAIR st))
              else (False, st))"

fun frame_step :: "frame_preflight \<Rightarrow> sax_event \<Rightarrow> bool \<times> frame_preflight" where
  "frame_step st SaxNull = fp_null st"
| "frame_step st (SaxBool _) = (False, st)"
| "frame_step st (SaxInt v) = fp_integer st v"
| "frame_step st (SaxFloat _) = (False, st)"
| "frame_step st (SaxString text) = fp_string st text"
| "frame_step st SaxBinary = (False, st)"
| "frame_step st SaxStartObject = fp_start_object st"
| "frame_step st SaxEndObject = fp_end st"
| "frame_step st (SaxKey key) = fp_key st key"
| "frame_step st SaxStartArray = fp_start_array st"
| "frame_step st SaxEndArray = fp_end st"

definition frame_preflight_pass :: "json_lib \<Rightarrow> string \<Rightarrow> unit frame_result" where
  "frame_preflight_pass lib raw =
     on_ok (raw_bounds raw) (\<lambda>_.
       case sax_parse lib frame_step frame_preflight_init raw of (ok, st) \<Rightarrow>
         if \<not> ok then Inl (fp_error st) else Inr ())"

section \<open>The grammar of frames\<close>

text \<open>
  The reference: a record is an object without repeated keys whose members are those of a
  table, each with the shape the table gives.
\<close>

definition record_shape :: "(string \<times> (json \<Rightarrow> bool)) list \<Rightarrow> json \<Rightarrow> bool" where
  "record_shape table j =
     (case j of
        JObject ms \<Rightarrow> distinct (map fst ms) \<and> length ms = length table \<and>
          list_all (\<lambda>(k, P). case map_of ms k of None \<Rightarrow> False | Some v \<Rightarrow> P v) table
      | _ \<Rightarrow> False)"

definition text_fields :: "string list \<Rightarrow> (string \<times> (json \<Rightarrow> bool)) list" where
  "text_fields ks = map (\<lambda>k. (k, is_string)) ks"

abbreviation schema_field :: "string \<times> (json \<Rightarrow> bool)" where
  "schema_field \<equiv> (''schema'', \<lambda>v. v = JInt 1)"

fun pair_shape :: "json \<Rightarrow> bool" where
  "pair_shape (JArray [JString _, JString _]) = True"
| "pair_shape _ = False"

fun headers_shape :: "json \<Rightarrow> bool" where
  "headers_shape (JArray xs) \<longleftrightarrow> length xs \<le> MAX_HEADER_PAIRS \<and> list_all pair_shape xs"
| "headers_shape _ = False"

fun status_shape :: "json \<Rightarrow> bool" where
  "status_shape (JInt i) \<longleftrightarrow> 200 \<le> i \<and> i \<le> 599"
| "status_shape _ = False"

text \<open>A record with a variant: the text of one member chooses the table.\<close>

definition variant_shape :: "string \<Rightarrow> (string \<Rightarrow> (string \<times> (json \<Rightarrow> bool)) list option) \<Rightarrow> json \<Rightarrow> bool" where
  "variant_shape tag tables j =
     (case get_member tag j of
        JString t \<Rightarrow> (case tables t of None \<Rightarrow> False | Some table \<Rightarrow> record_shape table j)
      | _ \<Rightarrow> False)"

definition request_shape :: "json \<Rightarrow> bool" where
  "request_shape = record_shape (schema_field # (''headers'', headers_shape) #
     text_fields [''request_id'', ''method'', ''path'', ''original_path'', ''query'', ''body_b64''])"

definition response_shape :: "json \<Rightarrow> bool" where
  "response_shape = record_shape [schema_field, (''status'', status_shape), (''headers'', headers_shape), (''body_b64'', is_string)]"

definition extension_shape :: "json \<Rightarrow> bool" where
  "extension_shape = record_shape (text_fields [''package_id'', ''name'', ''version'', ''artifact_sha256'', ''generation_receipt_id''])"

definition principal_shape :: "json \<Rightarrow> bool" where
  "principal_shape = variant_shape ''kind'' (\<lambda>t.
     if t = ''anonymous'' then Some (text_fields [''kind''])
     else if t = ''pat'' then Some (text_fields [''kind'', ''user_id'', ''pat_id'']) else None)"

definition context_shape :: "json \<Rightarrow> bool" where
  "context_shape = record_shape (schema_field # (''principal'', principal_shape) # (''extension'', extension_shape) #
     text_fields [''dispatch_id'', ''owner_epoch'', ''adapter_epoch'', ''clock_domain_id'', ''admitted_at_ns'',
       ''execution_cutoff_ns'', ''matched_prefix''])"

definition outcome_shape :: "json \<Rightarrow> bool" where
  "outcome_shape = variant_shape ''kind'' (\<lambda>t.
     if t = ''response'' then Some [(''kind'', is_string), (''response'', response_shape)]
     else if t = ''error'' then Some (text_fields [''kind'', ''code'']) else None)"

definition settlement_shape :: "json \<Rightarrow> bool" where
  "settlement_shape = record_shape [(''reason'', is_string), (''entry_state'', is_string),
     (''entered_at_ns'', \<lambda>v. is_string v \<or> v = JNull)]"

definition dispatch_fields :: "(string \<times> (json \<Rightarrow> bool)) list" where
  "dispatch_fields = schema_field # text_fields [''type'', ''owner_epoch'', ''adapter_epoch'', ''dispatch_id'', ''generation_receipt_id'']"

definition frame_shape :: "json \<Rightarrow> bool" where
  "frame_shape = variant_shape ''type'' (\<lambda>t.
     if t = ''hello'' \<or> t = ''hello_ack'' then
       Some (schema_field # (''extension'', extension_shape) # text_fields [''type'', ''owner_epoch'', ''adapter_epoch'', ''clock_domain_id''])
     else if t = ''call'' then Some (dispatch_fields @ [(''request'', request_shape), (''context'', context_shape)])
     else if t = ''accepted'' then Some dispatch_fields
     else if t = ''entered'' then Some (dispatch_fields @ [(''entered_at_ns'', is_string)])
     else if t = ''result'' then Some (dispatch_fields @ [(''outcome'', outcome_shape)])
     else if t = ''cancel'' then Some (dispatch_fields @ [(''reason'', is_string)])
     else if t = ''settled'' then Some (dispatch_fields @ [(''settlement'', settlement_shape)])
     else None)"

section \<open>The prepass, value by value\<close>

text \<open>What the prepass makes of the innermost scope by reading a value, members or elements; counters apart.\<close>

fun f_read :: "frame_scope \<Rightarrow> json \<Rightarrow> frame_scope option"
  and f_members :: "frame_scope \<Rightarrow> (string \<times> json) list \<Rightarrow> frame_scope option"
  and f_elems :: "frame_scope \<Rightarrow> json list \<Rightarrow> frame_scope option" where
  "f_read s JNull = (if fs_null_ok s then Some s else None)"
| "f_read s (JBool _) = None"
| "f_read s (JInt v) = (if fs_integer_ok s v then Some s else None)"
| "f_read s (JReal _) = None"
| "f_read s (JString t) =
     (if fs_no_string s then None
      else if fs_role s = F_PAIR then (if 2 < fs_count s + 1 then None else Some (s\<lparr>fs_count := fs_count s + 1\<rparr>))
      else if fs_nested_key s then None
      else Some (if fs_discriminates s then s\<lparr>fs_discriminator := t\<rparr> else s))"
| "f_read s (JArray xs) =
     (if (fs_role s = F_REQUEST \<or> fs_role s = F_RESPONSE) \<and> fs_key s = ''headers'' then
        (case f_elems (new_scope F_HEADERS) xs of None \<Rightarrow> None | Some s' \<Rightarrow> if fs_closed s' then Some s else None)
      else if fs_role s = F_HEADERS \<and> fs_count s + 1 \<le> MAX_HEADER_PAIRS then
        (case f_elems (new_scope F_PAIR) xs of
           None \<Rightarrow> None | Some s' \<Rightarrow> if fs_closed s' then Some (s\<lparr>fs_count := fs_count s + 1\<rparr>) else None)
      else None)"
| "f_read s (JObject ms) =
     (case fs_object_role s of
        None \<Rightarrow> None
      | Some r \<Rightarrow> (case f_members (new_scope r) ms of None \<Rightarrow> None | Some s' \<Rightarrow> if fs_closed s' then Some s else None))"
| "f_members s [] = Some s"
| "f_members s ((k, v) # ms) =
     (if \<not> allowed (fs_role s) k \<or> k \<in> set (fs_keys s) then None
      else Option.bind (f_read (fs_with_key s k) v) (\<lambda>s'. f_members s' ms))"
| "f_elems s [] = Some s"
| "f_elems s (x # xs) = Option.bind (f_read s x) (\<lambda>s'. f_elems s' xs)"

text \<open>The level of a role bounds the stack: the limit of eight never refuses a document.\<close>

fun role_level :: "frame_role \<Rightarrow> nat" where
  "role_level F_ROOT = 1"
| "role_level F_HEADERS = 4"
| "role_level F_PAIR = 5"
| "role_level F_RESPONSE = 3"
| "role_level F_PRINCIPAL = 3"
| "role_level F_EXTENSION = 3"
| "role_level _ = 2"

definition scope_ok :: "frame_scope \<Rightarrow> bool" where
  "scope_ok s \<longleftrightarrow> (fs_key s = ''body_b64'' \<longrightarrow> fs_role s = F_REQUEST \<or> fs_role s = F_RESPONSE)"

definition fp_fits :: "frame_preflight \<Rightarrow> nat \<Rightarrow> nat \<Rightarrow> bool" where
  "fp_fits st n m \<longleftrightarrow> fp_nodes st + n \<le> 1024 \<and> fp_metadata st + m \<le> MAX_METADATA_BYTES"

definition fp_after :: "frame_preflight \<Rightarrow> nat \<Rightarrow> nat \<Rightarrow> frame_scope \<Rightarrow> frame_preflight" where
  "fp_after st n m s =
     st\<lparr>fp_nodes := fp_nodes st + n, fp_metadata := fp_metadata st + m, fp_stack := s # tl (fp_stack st)\<rparr>"

definition at_scope :: "frame_preflight \<Rightarrow> frame_scope \<Rightarrow> bool" where
  "at_scope st s \<longleftrightarrow> fp_stack st \<noteq> [] \<and> hd (fp_stack st) = s \<and> scope_ok s \<and>
     length (fp_stack st) \<le> role_level (fs_role s) \<and> fp_nodes st \<le> 1024 \<and> fp_metadata st \<le> MAX_METADATA_BYTES"

definition f_reads :: "frame_preflight \<Rightarrow> sax_event list \<Rightarrow> frame_scope option \<Rightarrow> nat \<Rightarrow> nat \<Rightarrow> bool" where
  "f_reads st es res n m \<longleftrightarrow>
     (case res of
        None \<Rightarrow> \<not> fst (feed frame_step es st)
      | Some s \<Rightarrow> if fp_fits st n m then feed frame_step es st = (True, fp_after st n m s)
          else \<not> fst (feed frame_step es st))"

lemma role_level_le: "role_level r \<le> 5"
  by (cases r) simp_all

lemma fp_node_at:
  assumes "at_scope st s"
  shows "fp_node st = (if fp_nodes st = 1024 then (False, st\<lparr>fp_error := FRAME_TOO_LARGE\<rparr>)
    else (True, fp_after st 1 0 s))"
proof -
  have "length (fp_stack st) < 8" using assms role_level_le [of "fs_role s"] by (simp add: at_scope_def)
  then show ?thesis using assms by (auto simp: fp_node_def fp_after_def at_scope_def neq_Nil_conv)
qed

lemma fp_after_simps [simp]:
  "fp_stack (fp_after st n m s) = s # tl (fp_stack st)"
  "fp_nodes (fp_after st n m s) = fp_nodes st + n" "fp_metadata (fp_after st n m s) = fp_metadata st + m"
  "fp_after (fp_after st n m s) n' m' s' = fp_after st (n + n') (m + m') s'"
  "(fp_after st n m s)\<lparr>fp_stack := s' # tl (fp_stack st)\<rparr> = fp_after st n m s'"
  by (simp_all add: fp_after_def add.assoc)

lemma fp_fits_after: "fp_fits (fp_after st n m s) n' m' = fp_fits st (n + n') (m + m')"
  by (simp add: fp_fits_def add.assoc)

lemma fp_fits_less: "fp_fits st (n + n') (m + m') \<Longrightarrow> fp_fits st n m"
  by (simp add: fp_fits_def)

lemma at_scope_after:
  "at_scope st s \<Longrightarrow> fp_fits st n m \<Longrightarrow> fs_role s' = fs_role s \<Longrightarrow> scope_ok s' \<Longrightarrow> at_scope (fp_after st n m s') s'"
  by (auto simp: at_scope_def fp_fits_def)

lemma f_reads_bind:
  assumes "f_reads st es res n m"
    and "\<And>s'. res = Some s' \<Longrightarrow> fp_fits st n m \<Longrightarrow> f_reads (fp_after st n m s') es' (f s') n' m'"
  shows "f_reads st (es @ es') (Option.bind res f) (n + n') (m + m')"
proof (cases "res \<noteq> None \<and> fp_fits st n m")
  case True
  then obtain s' where s': "res = Some s'" by blast
  then have "feed frame_step (es @ es') st = feed frame_step es' (fp_after st n m s')"
    using True assms(1) by (intro feed_append_ok) (simp add: f_reads_def)
  then show ?thesis using assms(2) [OF s'] True s'
    by (auto simp: f_reads_def fp_fits_after split: option.splits)
next
  case False
  then have "\<not> fst (feed frame_step es st)"
    using assms(1) by (auto simp: f_reads_def split: option.splits if_splits)
  then have "\<not> fst (feed frame_step (es @ es') st)" by (rule feed_append_fail)
  moreover have "Option.bind res f = None \<or> \<not> fp_fits st (n + n') (m + m')"
    using False fp_fits_less by auto
  ultimately show ?thesis by (auto simp: f_reads_def split: option.splits)
qed

lemma at_scope_bounds: "at_scope st s \<Longrightarrow> fp_nodes st \<le> 1024 \<and> fp_metadata st \<le> MAX_METADATA_BYTES"
  by (simp add: at_scope_def)

lemma f_reads_null: "at_scope st s \<Longrightarrow> f_reads st [SaxNull] (f_read s JNull) 1 0"
  using at_scope_bounds [of st s] by (auto simp: f_reads_def fp_null_def fp_node_at fp_fits_def)

lemma f_reads_int: "at_scope st s \<Longrightarrow> f_reads st [SaxInt v] (f_read s (JInt v)) 1 0"
  using at_scope_bounds [of st s] by (auto simp: f_reads_def fp_integer_def fp_node_at fp_fits_def)

lemma fs_body_key: "scope_ok s \<Longrightarrow> fs_body s \<longleftrightarrow> fs_key s = ''body_b64''"
  by (auto simp: scope_ok_def fs_body_def)

lemma f_reads_string:
  assumes at: "at_scope st s"
  shows "f_reads st [SaxString t] (f_read s (JString t)) 1 (doc_metadata (fs_key s) (JString t))"
proof (cases "fp_nodes st = 1024 \<or> fs_no_string s")
  case True
  then show ?thesis using at by (auto simp: f_reads_def fp_string_def fp_node_at fp_fits_def)
next
  case False
  define s1 where "s1 = (if fs_role s = F_PAIR then s\<lparr>fs_count := fs_count s + 1\<rparr> else s)"
  have r: "fs_role s1 = fs_role s" "fs_key s1 = fs_key s" by (simp_all add: s1_def)
  have b: "fs_body s1 \<longleftrightarrow> fs_key s = ''body_b64''" "fs_discriminates s1 = fs_discriminates s"
    "fs_nested_key s1 = fs_nested_key s"
    using fs_body_key [of s] at r by (simp_all add: at_scope_def fs_body_def fs_discriminates_def fs_nested_key_def)
  have n: "fp_nodes st + 1 \<le> 1024" using False at_scope_bounds [OF at] by simp
  have d: "fs_role s = F_PAIR \<Longrightarrow> \<not> fs_discriminates s" by (simp add: fs_discriminates_def)
  have f: "f_read s (JString t) =
      (if fs_role s = F_PAIR \<and> 2 < fs_count s1 then None else if fs_role s \<noteq> F_PAIR \<and> fs_nested_key s then None
       else Some (if fs_discriminates s then s1\<lparr>fs_discriminator := t\<rparr> else s1))"
    using False d by (auto simp: s1_def)
  have step: "fp_string st t =
      (let st1 = fp_after st 1 0 s1
       in if fs_role s = F_PAIR \<and> 2 < fs_count s1 then (False, st1)
          else if fs_role s \<noteq> F_PAIR \<and> fs_nested_key s then (False, st1)
          else if fs_key s \<noteq> ''body_b64'' \<and> MAX_METADATA_BYTES - fp_metadata st < length t
          then (False, st1\<lparr>fp_error := FRAME_TOO_LARGE\<rparr>)
          else (True, fp_after st 1 (doc_metadata (fs_key s) (JString t))
             (if fs_discriminates s then s1\<lparr>fs_discriminator := t\<rparr> else s1)))"
    using False fp_node_at [OF at] unfolding fp_string_def
    by (simp add: Let_def s1_def [symmetric] r b) (simp add: fp_after_def)
  show ?thesis
    using n at_scope_bounds [OF at] unfolding f f_reads_def by (auto simp: step Let_def fp_fits_def)
qed

lemma at_scope_push:
  "at_scope st s \<Longrightarrow> fp_nodes st < 1024 \<Longrightarrow> role_level (fs_role s) < role_level q \<Longrightarrow>
   at_scope (fp_push q (fp_after st 1 0 s2)) (new_scope q)"
  by (cases "fp_stack st") (auto simp: at_scope_def fp_push_def new_scope_def scope_ok_def)

text \<open>A value with an opening and a closing event, and a scope of its own in between.\<close>

lemma f_reads_nested:
  assumes at: "at_scope st s"
    and start: "fp_nodes st < 1024 \<Longrightarrow> (case r of None \<Rightarrow> \<not> fst (frame_step st e)
      | Some (q, s2) \<Rightarrow> frame_step st e = (True, fp_push q (fp_after st 1 0 s2)))"
    and full: "fp_nodes st = 1024 \<Longrightarrow> \<not> fst (frame_step st e)"
    and stop: "\<And>t. frame_step t e' = fp_end t"
    and inside: "\<And>q s2. r = Some (q, s2) \<Longrightarrow> fp_nodes st < 1024 \<Longrightarrow> f_reads (fp_push q (fp_after st 1 0 s2)) es (res q) n m"
  shows "f_reads st (e # es @ [e'])
    (case r of None \<Rightarrow> None
     | Some (q, s2) \<Rightarrow> (case res q of None \<Rightarrow> None | Some s' \<Rightarrow> if fs_closed s' then Some s2 else None)) (Suc n) m"
proof (cases "fp_nodes st = 1024 \<or> r = None")
  case True
  then have "\<not> fst (frame_step st e)" using full start at_scope_bounds [OF at] by (cases "fp_nodes st = 1024") auto
  then have "\<not> fst (feed frame_step (e # es @ [e']) st)" by (auto split: prod.splits)
  then show ?thesis using True by (auto simp: f_reads_def fp_fits_def split: option.splits)
next
  case False
  then obtain q s2 where r: "r = Some (q, s2)" and n: "fp_nodes st < 1024"
    using at_scope_bounds [OF at] by force
  let ?t = "fp_push q (fp_after st 1 0 s2)"
  have s: "feed frame_step (e # es @ [e']) st = feed frame_step (es @ [e']) ?t" using start [OF n] r by simp
  have f: "fp_fits ?t n m = fp_fits st (Suc n) m" by (simp add: fp_fits_def fp_push_def)
  note i = inside [OF r n]
  show ?thesis
  proof (cases "res q \<noteq> None \<and> fp_fits ?t n m")
    case True
    then obtain s' where q: "res q = Some s'" by blast
    then have "feed frame_step es ?t = (True, fp_after ?t n m s')" using i True by (simp add: f_reads_def)
    then have "feed frame_step (es @ [e']) ?t = feed frame_step [e'] (fp_after ?t n m s')" by (rule feed_append_ok)
    also have "\<dots> = (if fs_closed s' then (True, fp_after st (Suc n) m s2) else (False, fp_after ?t n m s'))"
      by (simp add: stop fp_end_def) (simp add: fp_after_def fp_push_def)
    finally show ?thesis using True r q s f by (simp add: f_reads_def)
  next
    case False
    then have "\<not> fst (feed frame_step es ?t)" using i by (auto simp: f_reads_def split: option.splits if_splits)
    then have "\<not> fst (feed frame_step (es @ [e']) ?t)" by (rule feed_append_fail)
    then show ?thesis using False r s f by (auto simp: f_reads_def split: option.splits)
  qed
qed

lemma f_read_keeps:
  "f_read s v = Some s' \<Longrightarrow> fs_role s' = fs_role s \<and> fs_key s' = fs_key s \<and> fs_keys s' = fs_keys s"
  by (cases v) (auto split: if_splits option.splits)

lemma f_read_scope_ok: "f_read s v = Some s' \<Longrightarrow> scope_ok s \<Longrightarrow> scope_ok s'"
  using f_read_keeps [of s v s'] by (simp add: scope_ok_def)

definition fs_array_scope :: "frame_scope \<Rightarrow> (frame_role \<times> frame_scope) option" where
  "fs_array_scope s =
     (if (fs_role s = F_REQUEST \<or> fs_role s = F_RESPONSE) \<and> fs_key s = ''headers'' then Some (F_HEADERS, s)
      else if fs_role s = F_HEADERS \<and> fs_count s + 1 \<le> MAX_HEADER_PAIRS
      then Some (F_PAIR, s\<lparr>fs_count := fs_count s + 1\<rparr>) else None)"

lemma f_read_array:
  "f_read s (JArray xs) =
     (case fs_array_scope s of None \<Rightarrow> None
      | Some (q, s2) \<Rightarrow> (case f_elems (new_scope q) xs of None \<Rightarrow> None | Some s' \<Rightarrow> if fs_closed s' then Some s2 else None))"
  by (auto simp: fs_array_scope_def split: option.splits)

lemma start_array_at:
  "at_scope st s \<Longrightarrow> fp_nodes st < 1024 \<Longrightarrow>
   (case fs_array_scope s of None \<Rightarrow> \<not> fst (frame_step st SaxStartArray)
    | Some (q, s2) \<Rightarrow> frame_step st SaxStartArray = (True, fp_push q (fp_after st 1 0 s2)))"
  by (auto simp: fp_start_array_def fp_node_at fs_array_scope_def Let_def split: option.splits)

lemma start_object_at:
  "at_scope st s \<Longrightarrow> fp_nodes st < 1024 \<Longrightarrow>
   (case map_option (\<lambda>q. (q, s)) (fs_object_role s) of None \<Rightarrow> \<not> fst (frame_step st SaxStartObject)
    | Some (q, s2) \<Rightarrow> frame_step st SaxStartObject = (True, fp_push q (fp_after st 1 0 s2)))"
  by (auto simp: fp_start_object_def fp_node_at split: option.splits)

lemma start_full:
  "at_scope st s \<Longrightarrow> fp_nodes st = 1024 \<Longrightarrow> \<not> fst (frame_step st SaxStartArray) \<and> \<not> fst (frame_step st SaxStartObject)"
  by (simp add: fp_start_array_def fp_start_object_def fp_node_at)

lemma nested_level:
  "fs_array_scope s = Some (q, s2) \<Longrightarrow> role_level (fs_role s) < role_level q"
  "fs_object_role s = Some q \<Longrightarrow> role_level (fs_role s) < role_level q"
  by (auto simp: fs_array_scope_def fs_object_role_def split: if_splits)

lemma at_scope_key:
  "at_scope st s \<Longrightarrow> allowed (fs_role s) k \<Longrightarrow> at_scope (fp_after st 0 0 (fs_with_key s k)) (fs_with_key s k)"
  by (cases "fs_role s") (auto simp: at_scope_def scope_ok_def fs_with_key_def)

lemma fp_fits_0: "at_scope st s \<Longrightarrow> fp_fits st 0 0"
  by (simp add: at_scope_def fp_fits_def)

lemma frame_preflight_reads:
  "at_scope st s \<Longrightarrow> f_reads st (doc_events j) (f_read s j) (doc_nodes j) (doc_metadata (fs_key s) j)"
  "at_scope st s \<Longrightarrow> f_reads st (member_events ms) (f_members s ms) (member_nodes ms) (member_metadata ms)"
  "at_scope st s \<Longrightarrow> fs_key s = [] \<Longrightarrow> f_reads st (elem_events xs) (f_elems s xs) (elem_nodes xs) (elem_metadata xs)"
proof (induction j and ms and xs arbitrary: st s and st s and st s rule: doc_events_member_events_elem_events.induct)
  case (6 xs)
  have "f_reads st (SaxStartArray # elem_events xs @ [SaxEndArray])
      (case fs_array_scope s of None \<Rightarrow> None
       | Some (q, s2) \<Rightarrow> (case f_elems (new_scope q) xs of None \<Rightarrow> None | Some s' \<Rightarrow> if fs_closed s' then Some s2 else None))
      (Suc (elem_nodes xs)) (elem_metadata xs)"
  proof (rule f_reads_nested [OF 6(2)])
    fix q s2 assume q: "fs_array_scope s = Some (q, s2)" and n: "fp_nodes st < 1024"
    show "f_reads (fp_push q (fp_after st 1 0 s2)) (elem_events xs) (f_elems (new_scope q) xs) (elem_nodes xs) (elem_metadata xs)"
      by (intro 6(1) at_scope_push [OF 6(2) n nested_level(1) [OF q]]) (simp add: new_scope_def)
  qed (use 6(2) start_array_at start_full in \<open>auto simp del: frame_step.simps\<close>, simp_all)
  then show ?case by (simp only: f_read_array doc_events.simps doc_nodes.simps doc_metadata.simps)
next
  case (7 ms)
  have "f_reads st (SaxStartObject # member_events ms @ [SaxEndObject])
      (case map_option (\<lambda>q. (q, s)) (fs_object_role s) of None \<Rightarrow> None
       | Some (q, s2) \<Rightarrow> (case f_members (new_scope q) ms of None \<Rightarrow> None | Some s' \<Rightarrow> if fs_closed s' then Some s2 else None))
      (Suc (member_nodes ms)) (member_metadata ms)"
  proof (rule f_reads_nested [OF 7(2)])
    fix q s2 assume q: "map_option (\<lambda>q. (q, s)) (fs_object_role s) = Some (q, s2)" and n: "fp_nodes st < 1024"
    then have "fs_object_role s = Some q" by auto
    then show "f_reads (fp_push q (fp_after st 1 0 s2)) (member_events ms) (f_members (new_scope q) ms) (member_nodes ms) (member_metadata ms)"
      by (intro 7(1) at_scope_push [OF 7(2) n nested_level(2)])
  qed (use 7(2) start_object_at start_full in \<open>auto simp del: frame_step.simps\<close>, simp_all)
  then show ?case by (cases "fs_object_role s") simp_all
next
  case (9 k v ms)
  show ?case
  proof (cases "allowed (fs_role s) k \<and> k \<notin> set (fs_keys s)")
    case True
    let ?s = "fs_with_key s k" and ?t = "fp_after st 0 0 (fs_with_key s k)"
    have at: "at_scope ?t ?s" using 9(3) True by (simp add: at_scope_key)
    have k: "frame_step st (SaxKey k) = (True, ?t)"
      using True 9(3) by (cases "fp_stack st") (auto simp: fp_key_def at_scope_def fp_after_def)
    have key: "fs_key ?s = k" by (simp add: fs_with_key_def)
    have "f_reads ?t (doc_events v @ member_events ms) (Option.bind (f_read ?s v) (\<lambda>s'. f_members s' ms))
        (doc_nodes v + member_nodes ms) (doc_metadata k v + member_metadata ms)"
    proof (rule f_reads_bind)
      show "f_reads ?t (doc_events v) (f_read ?s v) (doc_nodes v) (doc_metadata k v)"
        using 9(1) [OF at] by (simp only: key)
    next
      fix s' assume s': "f_read ?s v = Some s'" and f: "fp_fits ?t (doc_nodes v) (doc_metadata k v)"
      have "at_scope (fp_after ?t (doc_nodes v) (doc_metadata k v) s') s'"
        by (rule at_scope_after [OF at f]) (use f_read_keeps [OF s'] f_read_scope_ok [OF s'] at in \<open>auto simp: at_scope_def\<close>)
      then show "f_reads (fp_after ?t (doc_nodes v) (doc_metadata k v) s') (member_events ms) (f_members s' ms) (member_nodes ms) (member_metadata ms)"
        by (rule 9(2))
    qed
    then show ?thesis using True k by (simp add: f_reads_def fp_fits_after del: frame_step.simps split: option.splits)
  next
    case False
    then have "\<not> fst (frame_step st (SaxKey k))" using 9(3) by (cases "fp_stack st") (auto simp: fp_key_def at_scope_def)
    then show ?thesis using False by (auto simp: f_reads_def simp del: frame_step.simps split: prod.splits)
  qed
next
  case (11 x xs)
  have "f_reads st (doc_events x @ elem_events xs) (Option.bind (f_read s x) (\<lambda>s'. f_elems s' xs))
      (doc_nodes x + elem_nodes xs) (doc_metadata [] x + elem_metadata xs)"
  proof (rule f_reads_bind)
    show "f_reads st (doc_events x) (f_read s x) (doc_nodes x) (doc_metadata [] x)"
      using 11(1) [OF 11(3)] 11(4) by simp
  next
    fix s' assume s': "f_read s x = Some s'" and f: "fp_fits st (doc_nodes x) (doc_metadata [] x)"
    have "at_scope (fp_after st (doc_nodes x) (doc_metadata [] x) s') s'"
      by (rule at_scope_after [OF 11(3) f]) (use f_read_keeps [OF s'] f_read_scope_ok [OF s'] 11(3) in \<open>auto simp: at_scope_def\<close>)
    then show "f_reads (fp_after st (doc_nodes x) (doc_metadata [] x) s') (elem_events xs) (f_elems s' xs) (elem_nodes xs) (elem_metadata xs)"
      using f_read_keeps [OF s'] 11(4) by (intro 11(2)) simp_all
  qed
  then show ?case by simp
next
  case 8
  then show ?case using fp_fits_0 by (cases "fp_stack st") (auto simp: f_reads_def at_scope_def fp_after_def)
next
  case 10
  then show ?case using fp_fits_0 by (cases "fp_stack st") (auto simp: f_reads_def at_scope_def fp_after_def)
next
  case 1
  then show ?case using f_reads_null by simp
next
  case 3
  then show ?case using f_reads_int by simp
next
  case 5
  then show ?case using f_reads_string by simp
qed (simp_all add: f_reads_def)

section \<open>The prepass against the grammar\<close>

definition key_scope :: "frame_role \<Rightarrow> string \<Rightarrow> frame_scope" where
  "key_scope r k = (new_scope r)\<lparr>fs_key := k\<rparr>"

definition accepts :: "frame_role \<Rightarrow> string \<Rightarrow> json \<Rightarrow> bool" where
  "accepts r k v \<longleftrightarrow> f_read (key_scope r k) v \<noteq> None"

definition fs_note :: "frame_scope \<Rightarrow> json \<Rightarrow> frame_scope" where
  "fs_note s v = (case v of JString t \<Rightarrow> if fs_discriminates s then s\<lparr>fs_discriminator := t\<rparr> else s | _ \<Rightarrow> s)"

abbreviation is_record :: "frame_role \<Rightarrow> bool" where
  "is_record r \<equiv> r \<noteq> F_HEADERS \<and> r \<noteq> F_PAIR"

lemma key_scope_simps [simp]: "fs_role (key_scope r k) = r" "fs_key (key_scope r k) = k"
  by (simp_all add: key_scope_def new_scope_def)

lemmas scope_tests = fs_null_ok_def fs_integer_ok_def fs_no_string_def fs_nested_key_def fs_discriminates_def
  fs_object_role_def

lemma f_read_record:
  "is_record (fs_role s) \<Longrightarrow> f_read s v = (if accepts (fs_role s) (fs_key s) v then Some (fs_note s v) else None)"
proof -
  assume r: "is_record (fs_role s)"
  let ?k = "key_scope (fs_role s) (fs_key s)"
  have t: "fs_null_ok ?k = fs_null_ok s" "fs_integer_ok ?k i = fs_integer_ok s i" "fs_no_string ?k = fs_no_string s"
    "fs_nested_key ?k = fs_nested_key s" "fs_object_role ?k = fs_object_role s" for i
    by (simp_all add: scope_tests)
  show ?thesis
    using r by (cases v) (auto simp: accepts_def fs_note_def t split: option.splits)
qed

definition fs_final :: "frame_scope \<Rightarrow> (string \<times> json) list \<Rightarrow> frame_scope" where
  "fs_final s ms = foldl (\<lambda>s (k, v). fs_note (fs_with_key s k) v) s ms"

lemma fs_note_simps [simp]:
  "fs_role (fs_note s v) = fs_role s" "fs_keys (fs_note s v) = fs_keys s" "fs_key (fs_note s v) = fs_key s"
  by (simp_all add: fs_note_def split: json.splits)

lemma fs_with_key_simps [simp]:
  "fs_role (fs_with_key s k) = fs_role s" "fs_keys (fs_with_key s k) = fs_keys s @ [k]" "fs_key (fs_with_key s k) = k"
  "fs_discriminator (fs_with_key s k) = fs_discriminator s"
  by (simp_all add: fs_with_key_def)

lemma fs_final_simps [simp]:
  "fs_final s [] = s" "fs_final s ((k, v) # ms) = fs_final (fs_note (fs_with_key s k) v) ms"
  "fs_role (fs_final s ms) = fs_role s" "fs_keys (fs_final s ms) = fs_keys s @ map fst ms"
  by (simp_all add: fs_final_def) (induction ms arbitrary: s; auto)+

lemma f_members_record:
  "is_record (fs_role s) \<Longrightarrow> f_members s ms =
     (if distinct (map fst ms) \<and> set (map fst ms) \<inter> set (fs_keys s) = {} \<and>
         list_all (\<lambda>(k, v). allowed (fs_role s) k \<and> accepts (fs_role s) k v) ms
      then Some (fs_final s ms) else None)"
proof (induction ms arbitrary: s)
  case (Cons kv ms)
  obtain k v where kv: "kv = (k, v)" by force
  have n: "is_record (fs_role (fs_note (fs_with_key s k) v))" using Cons.prems by simp
  show ?case
    using Cons.prems Cons.IH [OF n] f_read_record [of "fs_with_key s k" v] kv by (auto simp del: f_read.simps)
qed simp

definition tag_key :: "frame_role \<Rightarrow> string" where
  "tag_key r = (if r = F_ROOT then ''type'' else ''kind'')"

definition tagged :: "frame_role \<Rightarrow> bool" where
  "tagged r \<longleftrightarrow> r = F_ROOT \<or> r = F_OUTCOME \<or> r = F_PRINCIPAL"

lemma fs_discriminates_tag: "fs_discriminates s \<longleftrightarrow> tagged (fs_role s) \<and> fs_key s = tag_key (fs_role s)"
  by (auto simp: fs_discriminates_def tagged_def tag_key_def)

lemma fs_final_discriminator:
  "distinct (map fst ms) \<Longrightarrow> tagged (fs_role s) \<Longrightarrow> fs_discriminator (fs_final s ms) =
     (case map_of ms (tag_key (fs_role s)) of Some (JString t) \<Rightarrow> t | _ \<Rightarrow> fs_discriminator s)"
proof (induction ms arbitrary: s)
  case (Cons kv ms)
  obtain k v where kv: "kv = (k, v)" by force
  let ?s = "fs_note (fs_with_key s k) v"
  have ih: "fs_discriminator (fs_final ?s ms) =
      (case map_of ms (tag_key (fs_role s)) of Some (JString t) \<Rightarrow> t | _ \<Rightarrow> fs_discriminator ?s)"
    using Cons.IH [of ?s] Cons.prems kv by simp
  show ?case
  proof (cases "k = tag_key (fs_role s)")
    case True
    then have "map_of ms (tag_key (fs_role s)) = None" using Cons.prems(1) kv by (auto simp: map_of_eq_None_iff)
    then show ?thesis using ih kv True Cons.prems(2)
      by (simp add: fs_note_def fs_discriminates_tag split: json.splits)
  next
    case False
    then have d: "fs_discriminator ?s = fs_discriminator s"
      by (simp add: fs_note_def fs_discriminates_tag split: json.splits)
    show ?thesis using ih [unfolded d] kv False by simp
  qed
qed simp

text \<open>A record with the members of a table, whose shapes are what the prepass accepts under each key.\<close>

lemma record_shape_iff:
  assumes t: "distinct (map fst table)" "list_all (\<lambda>(k, P). allowed r k \<and> (\<forall>v. P v = accepts r k v)) table"
  shows "record_shape table (JObject ms) \<longleftrightarrow> distinct (map fst ms) \<and>
     list_all (\<lambda>(k, v). allowed r k \<and> accepts r k v) ms \<and> length ms = length table \<and>
     list_all (\<lambda>k. k \<in> set (map fst ms)) (map fst table)" (is "?l \<longleftrightarrow> ?r")
proof
  assume ?l
  then have d: "distinct (map fst ms)" "length ms = length table"
    and v: "\<And>k P. (k, P) \<in> set table \<Longrightarrow> \<exists>v. map_of ms k = Some v \<and> P v"
    by (auto simp: record_shape_def list_all_iff simp del: map_of_eq_Some_iff split: option.splits)
  have sub: "set (map fst table) \<subseteq> set (map fst ms)" using v by (force dest: map_of_SomeD)
  have "card (set (map fst table)) = card (set (map fst ms))"
    using d t(1) by (metis distinct_card length_map)
  then have eq: "set (map fst table) = set (map fst ms)" using sub by (intro card_subset_eq) simp_all
  have "allowed r k \<and> accepts r k v" if kv: "(k, v) \<in> set ms" for k v
  proof -
    have "k \<in> set (map fst table)" using kv eq by force
    then obtain P where P: "(k, P) \<in> set table" by auto
    then obtain w where "map_of ms k = Some w" "P w" using v by blast
    moreover have "map_of ms k = Some v" using kv d(1) by (simp add: map_of_eq_Some_iff)
    ultimately show ?thesis using t(2) P by (auto simp: list_all_iff)
  qed
  then show ?r using d sub by (auto simp: list_all_iff)
next
  assume r: ?r
  have "case map_of ms k of None \<Rightarrow> False | Some v \<Rightarrow> P v" if kp: "(k, P) \<in> set table" for k P
  proof -
    have "k \<in> set (map fst ms)" using r kp by (force simp: list_all_iff)
    then obtain v where v: "map_of ms k = Some v" using r by (auto simp: map_of_eq_Some_iff)
    then have "accepts r k v" using r by (auto simp: list_all_iff dest!: map_of_SomeD)
    moreover have "P v = accepts r k v" using t(2) kp by (auto simp: list_all_iff)
    ultimately show ?thesis using v by simp
  qed
  then show ?l using r by (auto simp: record_shape_def list_all_iff)
qed

text \<open>The members a record must have, by its role and discriminator.\<close>

definition hello_names :: "string list" where
  "hello_names = [''schema'', ''type'', ''owner_epoch'', ''adapter_epoch'', ''clock_domain_id'', ''extension'']"

fun closed_names :: "frame_role \<Rightarrow> string \<Rightarrow> string list option" where
  "closed_names F_ROOT t =
     (if t = ''hello'' \<or> t = ''hello_ack'' then Some hello_names
      else if t = ''call'' then Some (frame_common @ [''request'', ''context''])
      else if t = ''accepted'' then Some frame_common
      else if t = ''entered'' then Some (frame_common @ [''entered_at_ns''])
      else if t = ''result'' then Some (frame_common @ [''outcome''])
      else if t = ''cancel'' then Some (frame_common @ [''reason''])
      else if t = ''settled'' then Some (frame_common @ [''settlement''])
      else None)"
| "closed_names F_REQUEST t = Some [''schema'', ''request_id'', ''method'', ''path'', ''original_path'', ''query'', ''headers'', ''body_b64'']"
| "closed_names F_RESPONSE t = Some [''schema'', ''status'', ''headers'', ''body_b64'']"
| "closed_names F_CONTEXT t = Some [''schema'', ''dispatch_id'', ''owner_epoch'', ''adapter_epoch'', ''clock_domain_id'',
     ''admitted_at_ns'', ''execution_cutoff_ns'', ''matched_prefix'', ''principal'', ''extension'']"
| "closed_names F_PRINCIPAL t =
     (if t = ''anonymous'' then Some [''kind''] else if t = ''pat'' then Some [''kind'', ''user_id'', ''pat_id''] else None)"
| "closed_names F_EXTENSION t = Some [''package_id'', ''name'', ''version'', ''artifact_sha256'', ''generation_receipt_id'']"
| "closed_names F_OUTCOME t =
     (if t = ''response'' then Some [''kind'', ''response''] else if t = ''error'' then Some [''kind'', ''code''] else None)"
| "closed_names F_SETTLEMENT t = Some [''reason'', ''entry_state'', ''entered_at_ns'']"
| "closed_names _ t = None"

lemma fs_closed_names:
  "is_record (fs_role s) \<Longrightarrow>
   fs_closed s = (case closed_names (fs_role s) (fs_discriminator s) of None \<Rightarrow> False | Some names \<Rightarrow> fs_exact s names)"
  by (cases "fs_role s") (auto simp: fs_closed_def hello_names_def)

definition object_ok :: "frame_role \<Rightarrow> (string \<times> json) list \<Rightarrow> bool" where
  "object_ok r ms = (case f_members (new_scope r) ms of None \<Rightarrow> False | Some s \<Rightarrow> fs_closed s)"

definition good_table :: "frame_role \<Rightarrow> string list \<Rightarrow> (string \<times> (json \<Rightarrow> bool)) list \<Rightarrow> bool" where
  "good_table r names table \<longleftrightarrow> distinct (map fst table) \<and> length names = length table \<and> set names = set (map fst table) \<and>
     list_all (\<lambda>(k, P). allowed r k \<and> (\<forall>v. P v = accepts r k v)) table"

lemma new_scope_simps [simp]:
  "fs_role (new_scope r) = r" "fs_keys (new_scope r) = []" "fs_key (new_scope r) = []" "fs_count (new_scope r) = 0"
  "fs_discriminator (new_scope r) = []"
  by (simp_all add: new_scope_def)

lemma object_ok_names:
  assumes "is_record r"
  shows "object_ok r ms \<longleftrightarrow> distinct (map fst ms) \<and> list_all (\<lambda>(k, v). allowed r k \<and> accepts r k v) ms \<and>
    (case closed_names r (fs_discriminator (fs_final (new_scope r) ms)) of
       None \<Rightarrow> False
     | Some names \<Rightarrow> length ms = length names \<and> list_all (\<lambda>k. k \<in> set (map fst ms)) names)"
  using assms f_members_record [of "new_scope r" ms] fs_closed_names [of "fs_final (new_scope r) ms"]
  by (auto simp: object_ok_def fs_exact_def split: option.splits)

lemma object_ok_table:
  assumes "is_record r" and "closed_names r (fs_discriminator (fs_final (new_scope r) ms)) = Some names"
    and "good_table r names table"
  shows "object_ok r ms \<longleftrightarrow> record_shape table (JObject ms)"
proof -
  have t: "distinct (map fst table)" "list_all (\<lambda>(k, P). allowed r k \<and> (\<forall>v. P v = accepts r k v)) table"
    and n: "length names = length table" "set names = set (map fst table)"
    using assms(3) by (simp_all add: good_table_def)
  have "list_all P names = list_all P (map fst table)" for P using n(2) by (simp only: list_all_iff)
  then show ?thesis
    using object_ok_names [OF assms(1), of ms] assms(2) n(1) record_shape_iff [OF t, of ms] by simp
qed

lemma object_ok_untagged:
  "is_record r \<Longrightarrow> (\<And>t. closed_names r t = Some names) \<Longrightarrow> good_table r names table \<Longrightarrow>
   object_ok r ms \<longleftrightarrow> record_shape table (JObject ms)"
  by (rule object_ok_table)

lemma object_ok_variant:
  assumes r: "tagged r" and e: "closed_names r [] = None"
    and t: "\<And>t. rel_option (good_table r) (closed_names r t) (tables t)"
  shows "object_ok r ms \<longleftrightarrow> variant_shape (tag_key r) tables (JObject ms)"
proof (cases "distinct (map fst ms)")
  case False
  then have "\<not> object_ok r ms" using object_ok_names [of r ms] r by (auto simp: tagged_def)
  moreover have "\<not> record_shape table (JObject ms)" for table using False by (simp add: record_shape_def)
  ultimately show ?thesis by (auto simp: variant_shape_def split: json.splits option.splits)
next
  case True
  have rec: "is_record r" using r by (auto simp: tagged_def)
  have d: "fs_discriminator (fs_final (new_scope r) ms) = (case map_of ms (tag_key r) of Some (JString t) \<Rightarrow> t | _ \<Rightarrow> [])"
    using fs_final_discriminator [of ms "new_scope r", unfolded new_scope_simps] True r by simp
  show ?thesis
  proof (cases "\<exists>t. map_of ms (tag_key r) = Some (JString t)")
    case True
    then obtain t' where t': "map_of ms (tag_key r) = Some (JString t')" by blast
    with d have d': "fs_discriminator (fs_final (new_scope r) ms) = t'" by simp
    have v: "variant_shape (tag_key r) tables (JObject ms) =
        (case tables t' of None \<Rightarrow> False | Some table \<Rightarrow> record_shape table (JObject ms))"
      using t' by (simp add: variant_shape_def get_member_def del: map_of_eq_Some_iff)
    show ?thesis
    proof (cases "closed_names r t'")
      case None
      then have "tables t' = None" using t [of t'] by simp
      then show ?thesis using None v object_ok_names [OF rec, of ms] d' by simp
    next
      case (Some names)
      then obtain table where "tables t' = Some table" "good_table r names table" using t [of t'] by (auto simp: option_rel_Some1)
      then show ?thesis using v object_ok_table [OF rec] Some d' by simp
    qed
  next
    case False
    then have "fs_discriminator (fs_final (new_scope r) ms) = []" using d by (auto split: option.splits json.splits)
    moreover have "\<not> variant_shape (tag_key r) tables (JObject ms)"
      using False by (auto simp: variant_shape_def get_member_def simp del: map_of_eq_Some_iff split: json.splits option.splits)
    ultimately show ?thesis using object_ok_names [OF rec, of ms] e by simp
  qed
qed

text \<open>What is accepted under a key.\<close>

definition plain_key :: "frame_role \<Rightarrow> string \<Rightarrow> bool" where
  "plain_key r k \<longleftrightarrow> is_record r \<and> \<not> fs_no_string (key_scope r k) \<and> \<not> fs_nested_key (key_scope r k) \<and>
     \<not> fs_null_ok (key_scope r k)"

lemma accepts_text: "plain_key r k \<Longrightarrow> accepts r k v = is_string v"
  by (cases v) (auto simp: plain_key_def accepts_def scope_tests)

lemma accepts_schema: "r = F_ROOT \<or> r = F_REQUEST \<or> r = F_RESPONSE \<or> r = F_CONTEXT \<Longrightarrow> accepts r ''schema'' v \<longleftrightarrow> v = JInt 1"
  by (cases v) (auto simp: accepts_def scope_tests)

lemma accepts_status: "accepts F_RESPONSE ''status'' v = status_shape v"
  by (cases v) (auto simp: accepts_def scope_tests)

lemma accepts_entered: "accepts F_SETTLEMENT ''entered_at_ns'' v \<longleftrightarrow> is_string v \<or> v = JNull"
  by (cases v) (auto simp: accepts_def scope_tests)

lemma object_place:
  assumes "fs_object_role s = Some q"
  shows "fs_nested_key s" "\<not> fs_null_ok s" "\<not> fs_integer_ok s i" "is_record (fs_role s)" "fs_key s \<noteq> ''headers''"
  using assms unfolding fs_object_role_def
  by (auto simp: fs_nested_key_def fs_null_ok_def fs_integer_ok_def split: if_splits)

lemma accepts_object:
  "fs_object_role (key_scope r k) = Some q \<Longrightarrow> accepts r k v = (case v of JObject ms \<Rightarrow> object_ok q ms | _ \<Rightarrow> False)"
  using object_place [of "key_scope r k" q]
  by (cases v) (auto simp: accepts_def object_ok_def split: option.splits)

lemma f_elems_pair: "(case f_elems (new_scope F_PAIR) xs of None \<Rightarrow> False | Some s \<Rightarrow> fs_closed s) \<longleftrightarrow> pair_shape (JArray xs)"
proof -
  have p: "f_read s x = (case x of JString _ \<Rightarrow> if fs_count s \<le> 1 then Some (s\<lparr>fs_count := fs_count s + 1\<rparr>) else None | _ \<Rightarrow> None)"
    if "fs_role s = F_PAIR" "fs_key s = []" for s x
    using that by (cases x) (auto simp: scope_tests)
  show ?thesis
  proof (cases xs)
    case (Cons x ys)
    show ?thesis
    proof (cases ys)
      case (Cons y zs)
      then show ?thesis using \<open>xs = x # ys\<close>
        by (cases zs) (auto simp: p fs_closed_def split: json.splits)
    qed (use Cons in \<open>auto simp: p fs_closed_def split: json.splits\<close>)
  qed (simp add: fs_closed_def)
qed

lemma f_elems_headers:
  "fs_role s = F_HEADERS \<Longrightarrow> fs_key s = [] \<Longrightarrow> fs_count s \<le> MAX_HEADER_PAIRS \<Longrightarrow>
   f_elems s xs \<noteq> None \<longleftrightarrow> fs_count s + length xs \<le> MAX_HEADER_PAIRS \<and> list_all pair_shape xs"
proof (induction xs arbitrary: s)
  case (Cons x xs)
  have x: "f_read s x = (if pair_shape x \<and> fs_count s + 1 \<le> MAX_HEADER_PAIRS then Some (s\<lparr>fs_count := fs_count s + 1\<rparr>) else None)"
  proof (cases x)
    case (JArray ys)
    then show ?thesis using Cons.prems f_elems_pair [of ys] by (auto split: option.splits)
  qed (use Cons.prems in \<open>auto simp: scope_tests\<close>)
  show ?case
    using Cons.IH [of "s\<lparr>fs_count := fs_count s + 1\<rparr>"] Cons.prems by (auto simp: x)
qed simp

lemma f_elems_keeps: "f_elems s xs = Some s' \<Longrightarrow> fs_role s' = fs_role s"
  by (induction xs arbitrary: s) (auto simp: bind_eq_Some_conv dest: f_read_keeps)

lemma accepts_headers: "r = F_REQUEST \<or> r = F_RESPONSE \<Longrightarrow> accepts r ''headers'' v = headers_shape v"
proof (cases v)
  case (JArray xs)
  assume r: "r = F_REQUEST \<or> r = F_RESPONSE"
  have "accepts r ''headers'' v \<longleftrightarrow> f_elems (new_scope F_HEADERS) xs \<noteq> None"
    using r JArray f_elems_keeps [of "new_scope F_HEADERS" xs]
    by (auto simp: accepts_def fs_closed_def split: option.splits)
  then show ?thesis using f_elems_headers [of "new_scope F_HEADERS" xs] JArray by simp
qed (auto simp: accepts_def scope_tests)

lemmas accept_rules = accepts_text accepts_schema accepts_status accepts_entered accepts_headers

lemmas table_rules = good_table_def text_fields_def accept_rules plain_key_def scope_tests

lemma extension_object: "object_ok F_EXTENSION ms = extension_shape (JObject ms)"
  unfolding extension_shape_def by (rule object_ok_untagged [OF _ closed_names.simps(6)]) (auto simp: table_rules)

lemma request_object: "object_ok F_REQUEST ms = request_shape (JObject ms)"
  unfolding request_shape_def by (rule object_ok_untagged [OF _ closed_names.simps(2)]) (auto simp: table_rules)

lemma response_object: "object_ok F_RESPONSE ms = response_shape (JObject ms)"
  unfolding response_shape_def by (rule object_ok_untagged [OF _ closed_names.simps(3)]) (auto simp: table_rules)

lemma settlement_object: "object_ok F_SETTLEMENT ms = settlement_shape (JObject ms)"
  unfolding settlement_shape_def by (rule object_ok_untagged [OF _ closed_names.simps(8)]) (auto simp: table_rules)

lemma principal_object: "object_ok F_PRINCIPAL ms = principal_shape (JObject ms)"
proof -
  have "object_ok F_PRINCIPAL ms = variant_shape (tag_key F_PRINCIPAL) (\<lambda>t.
     if t = ''anonymous'' then Some (text_fields [''kind''])
     else if t = ''pat'' then Some (text_fields [''kind'', ''user_id'', ''pat_id'']) else None) (JObject ms)"
    by (rule object_ok_variant) (auto simp: tagged_def table_rules)
  then show ?thesis by (simp add: principal_shape_def tag_key_def)
qed

lemma shape_object:
  "record_shape table v \<Longrightarrow> \<exists>ms. v = JObject ms" "variant_shape tag tables v \<Longrightarrow> \<exists>ms. v = JObject ms"
  by (auto simp: variant_shape_def record_shape_def split: json.splits option.splits)

text \<open>A record under a key is accepted if it has the shape of its role.\<close>

lemma accepts_shape:
  assumes "fs_object_role (key_scope r k) = Some q" and "\<And>ms. object_ok q ms = shape (JObject ms)"
    and "\<And>v. shape v \<Longrightarrow> \<exists>ms. v = JObject ms"
  shows "accepts r k v = shape v"
  using assms(2,3) by (cases v) (auto simp: accepts_object [OF assms(1)])

lemma accepts_extension: "r = F_ROOT \<or> r = F_CONTEXT \<Longrightarrow> accepts r ''extension'' v = extension_shape v"
  by (rule accepts_shape [OF _ extension_object]) (auto simp: fs_object_role_def extension_shape_def shape_object)

lemma accepts_principal: "accepts F_CONTEXT ''principal'' v = principal_shape v"
  by (rule accepts_shape [OF _ principal_object]) (auto simp: fs_object_role_def principal_shape_def shape_object)

lemma accepts_response: "accepts F_OUTCOME ''response'' v = response_shape v"
  by (rule accepts_shape [OF _ response_object]) (auto simp: fs_object_role_def response_shape_def shape_object)

lemma accepts_request: "accepts F_ROOT ''request'' v = request_shape v"
  by (rule accepts_shape [OF _ request_object]) (auto simp: fs_object_role_def request_shape_def shape_object)

lemma accepts_settlement: "accepts F_ROOT ''settlement'' v = settlement_shape v"
  by (rule accepts_shape [OF _ settlement_object]) (auto simp: fs_object_role_def settlement_shape_def shape_object)

lemma context_object: "object_ok F_CONTEXT ms = context_shape (JObject ms)"
  unfolding context_shape_def
  by (rule object_ok_untagged [OF _ closed_names.simps(4)]) (auto simp: accepts_extension accepts_principal table_rules)

lemma accepts_context: "accepts F_ROOT ''context'' v = context_shape v"
  by (rule accepts_shape [OF _ context_object]) (auto simp: fs_object_role_def context_shape_def shape_object)

lemma outcome_object: "object_ok F_OUTCOME ms = outcome_shape (JObject ms)"
proof -
  have "object_ok F_OUTCOME ms = variant_shape (tag_key F_OUTCOME) (\<lambda>t.
     if t = ''response'' then Some [(''kind'', is_string), (''response'', response_shape)]
     else if t = ''error'' then Some (text_fields [''kind'', ''code'']) else None) (JObject ms)"
    by (rule object_ok_variant) (auto simp: tagged_def accepts_response table_rules)
  then show ?thesis by (simp add: outcome_shape_def tag_key_def)
qed

lemma accepts_outcome: "accepts F_ROOT ''outcome'' v = outcome_shape v"
  by (rule accepts_shape [OF _ outcome_object]) (auto simp: fs_object_role_def outcome_shape_def shape_object)

lemmas root_rules = accepts_extension accepts_request accepts_context accepts_outcome accepts_settlement

lemma hello_table:
  "good_table F_ROOT hello_names
     (schema_field # (''extension'', extension_shape) # text_fields [''type'', ''owner_epoch'', ''adapter_epoch'', ''clock_domain_id''])"
  by (auto simp: hello_names_def root_rules table_rules)

lemma dispatch_table: "good_table F_ROOT frame_common dispatch_fields"
  by (auto simp: frame_common_def dispatch_fields_def table_rules)

lemma good_table_append:
  "good_table r names table \<Longrightarrow> good_table r names' table' \<Longrightarrow> set names \<inter> set names' = {} \<Longrightarrow>
   good_table r (names @ names') (table @ table')"
  by (auto simp: good_table_def)

lemma variant_tables:
  "good_table F_ROOT (frame_common @ [''request'', ''context'']) (dispatch_fields @ [(''request'', request_shape), (''context'', context_shape)])"
  "good_table F_ROOT (frame_common @ [''entered_at_ns'']) (dispatch_fields @ [(''entered_at_ns'', is_string)])"
  "good_table F_ROOT (frame_common @ [''outcome'']) (dispatch_fields @ [(''outcome'', outcome_shape)])"
  "good_table F_ROOT (frame_common @ [''reason'']) (dispatch_fields @ [(''reason'', is_string)])"
  "good_table F_ROOT (frame_common @ [''settlement'']) (dispatch_fields @ [(''settlement'', settlement_shape)])"
  by (rule good_table_append [OF dispatch_table]; auto simp: frame_common_def root_rules table_rules)+

lemma frame_object: "object_ok F_ROOT ms = frame_shape (JObject ms)"
proof -
  have "object_ok F_ROOT ms = variant_shape (tag_key F_ROOT) (\<lambda>t.
     if t = ''hello'' \<or> t = ''hello_ack'' then
       Some (schema_field # (''extension'', extension_shape) # text_fields [''type'', ''owner_epoch'', ''adapter_epoch'', ''clock_domain_id''])
     else if t = ''call'' then Some (dispatch_fields @ [(''request'', request_shape), (''context'', context_shape)])
     else if t = ''accepted'' then Some dispatch_fields
     else if t = ''entered'' then Some (dispatch_fields @ [(''entered_at_ns'', is_string)])
     else if t = ''result'' then Some (dispatch_fields @ [(''outcome'', outcome_shape)])
     else if t = ''cancel'' then Some (dispatch_fields @ [(''reason'', is_string)])
     else if t = ''settled'' then Some (dispatch_fields @ [(''settlement'', settlement_shape)])
     else None) (JObject ms)"
    by (rule object_ok_variant) (simp_all add: tagged_def hello_table dispatch_table variant_tables)
  then show ?thesis by (simp add: frame_shape_def tag_key_def)
qed

lemma frame_preflight_iff:
  "fst (feed frame_step (doc_events j) frame_preflight_init) \<longleftrightarrow>
   frame_shape j \<and> doc_nodes j \<le> 1024 \<and> doc_metadata [] j \<le> MAX_METADATA_BYTES"
proof (cases j)
  case (JObject ms)
  let ?t = "fp_push F_ROOT (frame_preflight_init\<lparr>fp_nodes := 1, fp_root_seen := True\<rparr>)"
  have at: "at_scope ?t (new_scope F_ROOT)"
    by (simp add: at_scope_def fp_push_def frame_preflight_init_def scope_ok_def)
  have f: "fp_fits ?t n m \<longleftrightarrow> Suc n \<le> 1024 \<and> m \<le> MAX_METADATA_BYTES" for n m
    by (simp add: fp_fits_def fp_push_def frame_preflight_init_def)
  have "feed frame_step (doc_events j) frame_preflight_init = feed frame_step (member_events ms @ [SaxEndObject]) ?t"
    by (simp add: JObject fp_start_object_def fp_node_def frame_preflight_init_def)
  then have "fst (feed frame_step (doc_events j) frame_preflight_init) \<longleftrightarrow>
      object_ok F_ROOT ms \<and> fp_fits ?t (member_nodes ms) (member_metadata ms)"
    using frame_preflight_reads(2) [OF at, of ms]
    by (auto simp: f_reads_def object_ok_def feed_append fp_end_def split: option.splits if_splits prod.splits)
  then show ?thesis unfolding f frame_object by (simp add: JObject)
qed (auto simp: fp_null_def fp_integer_def fp_string_def fp_start_array_def fp_node_def frame_preflight_init_def
    frame_shape_def dest!: shape_object(2))

text \<open>
  C8: The frame prepass accepts the events of a document exactly if the document is a frame of the
  grammar: one of the eight variants with exactly its members, each of its kind, the schema number
  one, a status between 200 and 599, at most 64 header pairs, at most 1024 values and at most 64 KiB of
  strings outside the body.
\<close>

theorem frame_preflight_accepts_iff:
  "fst (feed frame_step (doc_events j) frame_preflight_init) \<longleftrightarrow>
   frame_shape j \<and> doc_nodes j \<le> 1024 \<and> doc_metadata [] j \<le> MAX_METADATA_BYTES"
  by (rule frame_preflight_iff)

end
