(* ===== verification/Http_Credits.thy ===== *)
theory Http_Credits
  imports Http_Text
begin

text \<open>
  Admission credits and memory charges of \<open>extension_http/ownership.cpp\<close>: \<open>CreditPool\<close>,
  \<open>AdmissionLease\<close> and \<open>ExtraMemoryCharge\<close>. Every method holds the pool's mutex for its
  whole effect, so each is one step. A lease's \<open>HttpLeaseState\<close> is shared between the
  \<open>AdmissionLease\<close> and the charges taken on it; its destructor runs when the last of them goes, and
  that is the step in which the credits return. The leases alive are the table \<open>cr_leases\<close>;
  \<open>ls_name\<close> is the name a lease was admitted under, kept to state the quotas by name. Counters are
  natural numbers: the invariant shows that no subtraction of the source goes below zero. The size of
  a charge token, \<open>sizeof(ExtraMemoryCharge)\<close>, is the parameter \<open>overhead\<close>.
\<close>

section \<open>State\<close>

definition EXTRA_BYTES_PER_LEASE :: nat where "EXTRA_BYTES_PER_LEASE = 96 * 1024 * 1024"
definition OWNER_BOOKKEEPING_BYTES :: nat where "OWNER_BOOKKEEPING_BYTES = 4096"
definition PACKAGE_TRANSPORT_BYTES :: nat where "PACKAGE_TRANSPORT_BYTES = 256 * 1024 * 1024"
definition FEATURE_TRANSPORT_BYTES :: nat where "FEATURE_TRANSPORT_BYTES = 512 * 1024 * 1024"
definition PACKAGE_TASKS :: nat where "PACKAGE_TASKS = 4"
definition FEATURE_TASKS :: nat where "FEATURE_TASKS = 8"

record package_credits =
  pk_name :: string
  pk_tasks :: nat
  pk_transport :: nat

record credit_snapshot =
  sn_tasks :: nat
  sn_borrowed_transport_bytes :: nat
  sn_reserved_extra_bytes :: nat

record credit_state =
  cs_accepting :: bool
  cs_totals :: credit_snapshot
  cs_packages :: "package_credits list"

record http_lease_state =
  ls_slot :: nat
  ls_transport :: nat
  ls_extra :: nat
  ls_name :: string
  ls_admission :: bool
  ls_charges :: "nat list"

record credits =
  cr_pool :: credit_state
  cr_leases :: "(nat \<times> http_lease_state) list"
  cr_next :: nat

definition credits_init :: credits where
  "credits_init =
     \<lparr>cr_pool = \<lparr>cs_accepting = True,
        cs_totals = \<lparr>sn_tasks = 0, sn_borrowed_transport_bytes = 0, sn_reserved_extra_bytes = 0\<rparr>,
        cs_packages = replicate FEATURE_TASKS \<lparr>pk_name = [], pk_tasks = 0, pk_transport = 0\<rparr>\<rparr>,
      cr_leases = [], cr_next = 0\<rparr>"

section \<open>Operations\<close>

text \<open>
  The search for a slot: the slot of the name if it has tasks, else the first one without tasks;
  \<open>None\<close> stands for \<open>packages.size()\<close>.
\<close>

fun find_slot :: "string \<Rightarrow> nat \<Rightarrow> package_credits list \<Rightarrow> nat option \<Rightarrow> nat option" where
  "find_slot name i [] slot = slot"
| "find_slot name i (p # ps) slot =
     (if pk_tasks p \<noteq> 0 \<and> pk_name p = name then Some i
      else find_slot name (Suc i) ps (if pk_tasks p = 0 \<and> slot = None then Some i else slot))"

definition admit :: "string \<Rightarrow> nat \<Rightarrow> nat \<Rightarrow> credits \<Rightarrow> credits" where
  "admit name transport slot st =
     (let pool = cr_pool st; package = cs_packages pool ! slot; t = cs_totals pool;
          package' = package\<lparr>pk_name := (if pk_tasks package = 0 then name else pk_name package),
            pk_tasks := pk_tasks package + 1, pk_transport := pk_transport package + transport\<rparr>;
          t' = \<lparr>sn_tasks = sn_tasks t + 1,
            sn_borrowed_transport_bytes = sn_borrowed_transport_bytes t + transport,
            sn_reserved_extra_bytes = sn_reserved_extra_bytes t + EXTRA_BYTES_PER_LEASE\<rparr>;
          owner = \<lparr>ls_slot = slot, ls_transport = transport, ls_extra = OWNER_BOOKKEEPING_BYTES,
            ls_name = name, ls_admission = True, ls_charges = []\<rparr>
      in st\<lparr>cr_pool := pool\<lparr>cs_totals := t', cs_packages := (cs_packages pool)[slot := package']\<rparr>,
            cr_leases := (cr_next st, owner) # cr_leases st, cr_next := cr_next st + 1\<rparr>)"

definition try_acquire :: "string \<Rightarrow> nat \<Rightarrow> bool \<Rightarrow> credits \<Rightarrow> nat option \<times> credits" where
  "try_acquire name transport process_lease st =
     (if \<not> process_lease \<or> \<not> valid_name name \<or> PACKAGE_TRANSPORT_BYTES < transport then (None, st)
      else let pool = cr_pool st; t = cs_totals pool
           in if \<not> cs_accepting pool \<or> sn_tasks t = FEATURE_TASKS \<or>
                 FEATURE_TRANSPORT_BYTES - sn_borrowed_transport_bytes t < transport then (None, st)
              else case find_slot name 0 (cs_packages pool) None of
                  None \<Rightarrow> (None, st)
                | Some slot \<Rightarrow>
                    (let package = cs_packages pool ! slot
                     in if pk_tasks package = PACKAGE_TASKS \<or>
                           PACKAGE_TRANSPORT_BYTES - pk_transport package < transport then (None, st)
                        else (Some (cr_next st), admit name transport slot st)))"

text \<open>The destructor of \<open>HttpLeaseState\<close>.\<close>

definition destroy_lease :: "nat \<Rightarrow> http_lease_state \<Rightarrow> credits \<Rightarrow> credits" where
  "destroy_lease i l st =
     (let pool = cr_pool st; package = cs_packages pool ! ls_slot l; t = cs_totals pool;
          tasks = pk_tasks package - 1;
          package' = package\<lparr>pk_tasks := tasks, pk_transport := pk_transport package - ls_transport l,
            pk_name := (if tasks = 0 then [] else pk_name package)\<rparr>;
          t' = \<lparr>sn_tasks = sn_tasks t - 1,
            sn_borrowed_transport_bytes = sn_borrowed_transport_bytes t - ls_transport l,
            sn_reserved_extra_bytes = sn_reserved_extra_bytes t - EXTRA_BYTES_PER_LEASE\<rparr>
      in st\<lparr>cr_pool := pool\<lparr>cs_totals := t', cs_packages := (cs_packages pool)[ls_slot l := package']\<rparr>,
            cr_leases := AList.delete i (cr_leases st)\<rparr>)"

text \<open>A holder of the lease state has gone: the state is destroyed when it was the last.\<close>

definition settle_lease :: "nat \<Rightarrow> http_lease_state \<Rightarrow> credits \<Rightarrow> credits" where
  "settle_lease i l st =
     (if ls_admission l \<or> ls_charges l \<noteq> [] then st\<lparr>cr_leases := AList.update i l (cr_leases st)\<rparr>
      else destroy_lease i l st)"

definition reserve_extra :: "nat \<Rightarrow> nat \<Rightarrow> nat \<Rightarrow> credits \<Rightarrow> bool \<times> credits" where
  "reserve_extra overhead i payload_bytes st =
     (case map_of (cr_leases st) i of
        None \<Rightarrow> (False, st)
      | Some l \<Rightarrow>
          if \<not> ls_admission l \<or> payload_bytes = 0 \<or> EXTRA_BYTES_PER_LEASE - overhead < payload_bytes then (False, st)
          else let bytes = payload_bytes + overhead
               in if EXTRA_BYTES_PER_LEASE - ls_extra l < bytes then (False, st)
                  else (True, st\<lparr>cr_leases := AList.update i
                         (l\<lparr>ls_extra := ls_extra l + bytes, ls_charges := bytes # ls_charges l\<rparr>) (cr_leases st)\<rparr>))"

text \<open>\<open>ExtraMemoryCharge::release\<close> for a charge of that many bytes.\<close>

definition release_charge :: "nat \<Rightarrow> nat \<Rightarrow> credits \<Rightarrow> credits" where
  "release_charge i charged st =
     (case map_of (cr_leases st) i of
        None \<Rightarrow> st
      | Some l \<Rightarrow>
          if charged \<notin> set (ls_charges l) then st
          else settle_lease i (l\<lparr>ls_extra := ls_extra l - charged, ls_charges := remove1 charged (ls_charges l)\<rparr>) st)"

text \<open>The last \<open>shared_ptr\<close> to the \<open>AdmissionLease\<close> goes.\<close>

definition drop_admission :: "nat \<Rightarrow> credits \<Rightarrow> credits" where
  "drop_admission i st =
     (case map_of (cr_leases st) i of
        None \<Rightarrow> st
      | Some l \<Rightarrow> if \<not> ls_admission l then st else settle_lease i (l\<lparr>ls_admission := False\<rparr>) st)"

definition close_admission :: "credits \<Rightarrow> credits" where
  "close_admission st = st\<lparr>cr_pool := (cr_pool st)\<lparr>cs_accepting := False\<rparr>\<rparr>"

definition drain_done :: "credits \<Rightarrow> bool" where
  "drain_done st \<longleftrightarrow> sn_tasks (cs_totals (cr_pool st)) = 0"

definition snapshot :: "credits \<Rightarrow> credit_snapshot" where
  "snapshot st = cs_totals (cr_pool st)"

definition extra_used :: "nat \<Rightarrow> credits \<Rightarrow> nat option" where
  "extra_used i st = map_option ls_extra (map_of (cr_leases st) i)"

datatype credit_event =
    AcquireCredit string nat bool
  | Reserve nat nat
  | ReleaseCharge nat nat
  | DropAdmission nat
  | CloseAdmission

fun credit_step :: "nat \<Rightarrow> credits \<Rightarrow> credit_event \<Rightarrow> credits" where
  "credit_step overhead st (AcquireCredit name transport process_lease) = snd (try_acquire name transport process_lease st)"
| "credit_step overhead st (Reserve i payload) = snd (reserve_extra overhead i payload st)"
| "credit_step overhead st (ReleaseCharge i charged) = release_charge i charged st"
| "credit_step overhead st (DropAdmission i) = drop_admission i st"
| "credit_step overhead st CloseAdmission = close_admission st"

text \<open>
  \<open>drain\<close> closes admission and waits for \<open>drain_done\<close>; other threads act meanwhile, and the wait answers
  with the predicate as it is when it ends, fulfilled or at the deadline.
\<close>

definition credit_drain :: "nat \<Rightarrow> credit_event list \<Rightarrow> credits \<Rightarrow> bool \<times> credits" where
  "credit_drain overhead others st =
     (let st' = foldl (credit_step overhead) (close_admission st) others in (drain_done st', st'))"

section \<open>Accounting\<close>

definition slot_tasks :: "nat \<Rightarrow> (nat \<times> http_lease_state) list \<Rightarrow> nat" where
  "slot_tasks i ls = asum (\<lambda>l. if ls_slot l = i then 1 else 0) ls"

definition slot_transport :: "nat \<Rightarrow> (nat \<times> http_lease_state) list \<Rightarrow> nat" where
  "slot_transport i ls = asum (\<lambda>l. if ls_slot l = i then ls_transport l else 0) ls"

definition lease_ok :: "package_credits list \<Rightarrow> http_lease_state \<Rightarrow> bool" where
  "lease_ok ps l \<longleftrightarrow> ls_slot l < length ps \<and> pk_name (ps ! ls_slot l) = ls_name l \<and>
     ls_extra l = OWNER_BOOKKEEPING_BYTES + sum_list (ls_charges l) \<and> ls_extra l \<le> EXTRA_BYTES_PER_LEASE \<and>
     (ls_admission l \<or> ls_charges l \<noteq> [])"

definition slot_ok :: "(nat \<times> http_lease_state) list \<Rightarrow> nat \<Rightarrow> package_credits \<Rightarrow> bool" where
  "slot_ok ls i p \<longleftrightarrow> pk_tasks p = slot_tasks i ls \<and> pk_transport p = slot_transport i ls \<and>
     pk_tasks p \<le> PACKAGE_TASKS \<and> pk_transport p \<le> PACKAGE_TRANSPORT_BYTES"

definition names_apart :: "package_credits list \<Rightarrow> bool" where
  "names_apart ps \<longleftrightarrow> (\<forall>i < length ps. \<forall>j < length ps.
     pk_tasks (ps ! i) \<noteq> 0 \<longrightarrow> pk_tasks (ps ! j) \<noteq> 0 \<longrightarrow> pk_name (ps ! i) = pk_name (ps ! j) \<longrightarrow> i = j)"

definition totals_ok :: "(nat \<times> http_lease_state) list \<Rightarrow> credit_snapshot \<Rightarrow> bool" where
  "totals_ok ls t \<longleftrightarrow> sn_tasks t = length ls \<and> sn_borrowed_transport_bytes t = asum ls_transport ls \<and>
     sn_reserved_extra_bytes t = length ls * EXTRA_BYTES_PER_LEASE \<and>
     sn_tasks t \<le> FEATURE_TASKS \<and> sn_borrowed_transport_bytes t \<le> FEATURE_TRANSPORT_BYTES"

definition credits_ok :: "credits \<Rightarrow> bool" where
  "credits_ok st \<longleftrightarrow>
     length (cs_packages (cr_pool st)) = FEATURE_TASKS \<and>
     distinct_keys (cr_leases st) \<and> (\<forall>k \<in> set (keys (cr_leases st)). k < cr_next st) \<and>
     (\<forall>(k, l) \<in> set (cr_leases st). lease_ok (cs_packages (cr_pool st)) l) \<and>
     (\<forall>i < length (cs_packages (cr_pool st)). slot_ok (cr_leases st) i (cs_packages (cr_pool st) ! i)) \<and>
     names_apart (cs_packages (cr_pool st)) \<and> totals_ok (cr_leases st) (cs_totals (cr_pool st))"

lemma credits_okD:
  assumes "credits_ok st"
  shows "length (cs_packages (cr_pool st)) = FEATURE_TASKS" "distinct_keys (cr_leases st)"
    "k \<in> set (keys (cr_leases st)) \<Longrightarrow> k < cr_next st"
    "(k, l) \<in> set (cr_leases st) \<Longrightarrow> lease_ok (cs_packages (cr_pool st)) l"
    "i < FEATURE_TASKS \<Longrightarrow> slot_ok (cr_leases st) i (cs_packages (cr_pool st) ! i)"
    "names_apart (cs_packages (cr_pool st))" "totals_ok (cr_leases st) (cs_totals (cr_pool st))"
  using assms unfolding credits_ok_def by auto

lemma credits_ok_init: "credits_ok credits_init"
  by (auto simp: credits_ok_def credits_init_def slot_ok_def slot_tasks_def slot_transport_def names_apart_def
      totals_ok_def)

lemma find_slot_SomeD:
  "find_slot name i ps slot = Some s \<Longrightarrow>
   (\<exists>k < length ps. s = i + k \<and> pk_tasks (ps ! k) \<noteq> 0 \<and> pk_name (ps ! k) = name) \<or>
   ((\<forall>k < length ps. pk_tasks (ps ! k) \<noteq> 0 \<longrightarrow> pk_name (ps ! k) \<noteq> name) \<and>
    (slot = Some s \<or> (\<exists>k < length ps. s = i + k \<and> pk_tasks (ps ! k) = 0)))"
proof (induction name i ps slot rule: find_slot.induct)
  case (2 name i p ps slot)
  show ?case
  proof (cases "pk_tasks p \<noteq> 0 \<and> pk_name p = name")
    case True
    then have "s = i" using 2(2) by simp
    with True show ?thesis by (intro disjI1 exI [of _ 0]) simp
  next
    case False
    have ih: "find_slot name (Suc i) ps (if pk_tasks p = 0 \<and> slot = None then Some i else slot) = Some s"
      using 2(2) unfolding find_slot.simps if_not_P [OF False] .
    from 2(1) [OF False ih] show ?thesis
    proof (elim disjE conjE exE)
      fix k assume "k < length ps" "s = Suc i + k" "pk_tasks (ps ! k) \<noteq> 0" "pk_name (ps ! k) = name"
      then show ?thesis by (intro disjI1 exI [of _ "Suc k"]) simp
    next
      assume a: "\<forall>k < length ps. pk_tasks (ps ! k) \<noteq> 0 \<longrightarrow> pk_name (ps ! k) \<noteq> name"
        and e: "(if pk_tasks p = 0 \<and> slot = None then Some i else slot) = Some s"
      have "slot = Some s \<or> (\<exists>k < length (p # ps). s = i + k \<and> pk_tasks ((p # ps) ! k) = 0)"
        using e by (auto split: if_splits intro!: exI [of _ 0])
      then show ?thesis using a False by (auto simp: nth_Cons split: nat.splits)
    next
      fix k assume a: "\<forall>k < length ps. pk_tasks (ps ! k) \<noteq> 0 \<longrightarrow> pk_name (ps ! k) \<noteq> name"
        and "k < length ps" "s = Suc i + k" "pk_tasks (ps ! k) = 0"
      then have "\<exists>k < length (p # ps). s = i + k \<and> pk_tasks ((p # ps) ! k) = 0"
        by (intro exI [of _ "Suc k"]) simp
      then show ?thesis using a False by (auto simp: nth_Cons split: nat.splits)
    qed
  qed
qed simp

lemma find_slot_ok:
  assumes "find_slot name 0 ps None = Some s"
  shows "s < length ps" "pk_tasks (ps ! s) = 0 \<or> pk_name (ps ! s) = name"
    "pk_tasks (ps ! s) = 0 \<Longrightarrow> k < length ps \<Longrightarrow> pk_tasks (ps ! k) \<noteq> 0 \<Longrightarrow> pk_name (ps ! k) \<noteq> name"
  using find_slot_SomeD [OF assms] by auto

lemma slot_tasks_pos: "(k, l) \<in> set ls \<Longrightarrow> 0 < slot_tasks (ls_slot l) ls"
  by (induction ls) (auto simp: slot_tasks_def)

lemma slot_tasks_Cons [simp]:
  "slot_tasks i ((k, l) # ls) = (if ls_slot l = i then 1 else 0) + slot_tasks i ls"
  "slot_transport i ((k, l) # ls) = (if ls_slot l = i then ls_transport l else 0) + slot_transport i ls"
  by (simp_all add: slot_tasks_def slot_transport_def)

lemma slot_delete:
  assumes "distinct_keys ls" "map_of ls k = Some l"
  shows "slot_tasks i ls = (if ls_slot l = i then 1 else 0) + slot_tasks i (AList.delete k ls)"
    "slot_transport i ls = (if ls_slot l = i then ls_transport l else 0) + slot_transport i (AList.delete k ls)"
    "asum ls_transport ls = ls_transport l + asum ls_transport (AList.delete k ls)"
    "length ls = Suc (length (AList.delete k ls))"
  using asum_delete [OF assms, of "\<lambda>l. if ls_slot l = i then 1 else 0"]
    asum_delete [OF assms, of "\<lambda>l. if ls_slot l = i then ls_transport l else 0"]
    asum_delete [OF assms, of ls_transport] asum_delete [OF assms, of "\<lambda>_. 1"]
  by (simp_all add: slot_tasks_def slot_transport_def asum_def sum_list_triv)

lemma slot_update:
  assumes "distinct_keys ls" "map_of ls k = Some l" "ls_slot l' = ls_slot l" "ls_transport l' = ls_transport l"
  shows "slot_tasks i (AList.update k l' ls) = slot_tasks i ls"
    "slot_transport i (AList.update k l' ls) = slot_transport i ls"
    "asum ls_transport (AList.update k l' ls) = asum ls_transport ls"
    "length (AList.update k l' ls) = length ls"
  using asum_update_present [OF assms(1,2), of "\<lambda>l. if ls_slot l = i then 1 else 0" l']
    asum_update_present [OF assms(1,2), of "\<lambda>l. if ls_slot l = i then ls_transport l else 0" l']
    asum_update_present [OF assms(1,2), of ls_transport l'] assms
  by (simp_all add: slot_tasks_def slot_transport_def length_update split: if_splits)

lemma keys_update_present: "k \<in> set (keys m) \<Longrightarrow> keys (AList.update k v m) = keys m"
  by (induction m) auto

lemma set_update_mem: "(j, w) \<in> set (AList.update k v m) \<Longrightarrow> w = v \<or> (j, w) \<in> set m"
  by (induction m) (auto split: if_splits)

text \<open>A change of one lease that keeps its slot and transport and its own accounting.\<close>

lemma credits_ok_update:
  assumes ok: "credits_ok st" and l: "map_of (cr_leases st) k = Some l"
    and same: "ls_slot l' = ls_slot l" "ls_transport l' = ls_transport l"
    and l': "lease_ok (cs_packages (cr_pool st)) l'"
  shows "credits_ok (st\<lparr>cr_leases := AList.update k l' (cr_leases st)\<rparr>)"
proof -
  note d = credits_okD [OF ok] and u = slot_update [OF credits_okD(2) [OF ok] l same]
  have ks: "keys (AList.update k l' (cr_leases st)) = keys (cr_leases st)"
    using map_of_SomeD_keys [OF l] by (rule keys_update_present)
  have "lease_ok (cs_packages (cr_pool st)) m" if "(j, m) \<in> set (AList.update k l' (cr_leases st))" for j m
    using set_update_mem [OF that] l' d(4) by blast
  moreover have "slot_ok (AList.update k l' (cr_leases st)) i p = slot_ok (cr_leases st) i p" for i p
    by (simp add: slot_ok_def u)
  moreover have "totals_ok (AList.update k l' (cr_leases st)) t = totals_ok (cr_leases st) t" for t
    by (simp add: totals_ok_def u)
  ultimately show ?thesis using d(1,2,3,5,6,7) unfolding credits_ok_def by (auto simp: ks)
qed

lemma names_apartD:
  "names_apart ps \<Longrightarrow> i < length ps \<Longrightarrow> j < length ps \<Longrightarrow> pk_tasks (ps ! i) \<noteq> 0 \<Longrightarrow> pk_tasks (ps ! j) \<noteq> 0 \<Longrightarrow>
   pk_name (ps ! i) = pk_name (ps ! j) \<Longrightarrow> i = j"
  by (simp add: names_apart_def)

lemma names_apart_update:
  assumes a: "names_apart ps" and s: "slot < length ps"
    and p: "\<And>k. k < length ps \<Longrightarrow> k \<noteq> slot \<Longrightarrow> pk_tasks (ps ! k) \<noteq> 0 \<Longrightarrow> pk_tasks p \<noteq> 0 \<Longrightarrow>
      pk_name (ps ! k) \<noteq> pk_name p"
  shows "names_apart (ps[slot := p])"
  unfolding names_apart_def
proof (intro allI impI)
  fix i j
  assume ij: "i < length (ps[slot := p])" "j < length (ps[slot := p])"
    "pk_tasks (ps[slot := p] ! i) \<noteq> 0" "pk_tasks (ps[slot := p] ! j) \<noteq> 0"
    "pk_name (ps[slot := p] ! i) = pk_name (ps[slot := p] ! j)"
  consider "i = j" | "i = slot" "j \<noteq> slot" | "j = slot" "i \<noteq> slot" | "i \<noteq> slot" "j \<noteq> slot" by blast
  then show "i = j"
  proof cases
    case 2
    then show ?thesis using ij p [of j] s by simp
  next
    case 3
    then show ?thesis using ij p [of i] s by simp
  next
    case 4
    then show ?thesis using ij names_apartD [OF a, of i j] by simp
  qed
qed

lemma credits_ok_admit:
  assumes ok: "credits_ok st" and s: "find_slot name 0 (cs_packages (cr_pool st)) None = Some slot"
    and total: "sn_tasks (cs_totals (cr_pool st)) \<noteq> FEATURE_TASKS"
      "transport \<le> FEATURE_TRANSPORT_BYTES - sn_borrowed_transport_bytes (cs_totals (cr_pool st))"
    and package: "pk_tasks (cs_packages (cr_pool st) ! slot) \<noteq> PACKAGE_TASKS"
      "transport \<le> PACKAGE_TRANSPORT_BYTES - pk_transport (cs_packages (cr_pool st) ! slot)"
  shows "credits_ok (admit name transport slot st)"
proof -
  note d = credits_okD [OF ok]
  let ?ps = "cs_packages (cr_pool st)" and ?ls = "cr_leases st"
  define p where "p = ?ps ! slot"
  define p' where "p' = p\<lparr>pk_name := (if pk_tasks p = 0 then name else pk_name p),
    pk_tasks := pk_tasks p + 1, pk_transport := pk_transport p + transport\<rparr>"
  define l where "l = \<lparr>ls_slot = slot, ls_transport = transport, ls_extra = OWNER_BOOKKEEPING_BYTES,
    ls_name = name, ls_admission = True, ls_charges = []\<rparr>"
  have slot: "slot < FEATURE_TASKS" "pk_tasks p = 0 \<or> pk_name p = name"
    using find_slot_ok(1,2) [OF s] d(1) by (simp_all add: p_def)
  have other: "pk_tasks (?ps ! k) \<noteq> 0 \<Longrightarrow> pk_name (?ps ! k) \<noteq> name" if "pk_tasks p = 0" "k < FEATURE_TASKS" for k
    using find_slot_ok(3) [OF s] that d(1) by (simp add: p_def)
  have name': "pk_name p' = name" using slot(2) by (auto simp: p'_def)
  note sp = d(5) [OF slot(1), folded p_def]
  have pp: "slot_ok ((cr_next st, l) # ?ls) slot p'"
    using sp package by (auto simp: slot_ok_def l_def p'_def p_def)
  have slots: "slot_ok ((cr_next st, l) # ?ls) i (?ps[slot := p'] ! i)" if "i < FEATURE_TASKS" for i
    using pp d(1) d(5) [OF that] that by (cases "i = slot") (simp_all add: slot_ok_def l_def)
  have leases: "lease_ok (?ps[slot := p']) m" if "(j, m) \<in> set ((cr_next st, l) # ?ls)" for j m
  proof (cases "m = l")
    case True
    then show ?thesis using slot d(1) name'
      by (simp add: lease_ok_def l_def OWNER_BOOKKEEPING_BYTES_def EXTRA_BYTES_PER_LEASE_def)
  next
    case False
    then have m: "(j, m) \<in> set ?ls" using that by auto
    have "pk_tasks p \<noteq> 0" if "ls_slot m = slot" using slot_tasks_pos [OF m] that sp by (simp add: slot_ok_def)
    then show ?thesis using d(4) [OF m] by (cases "ls_slot m = slot") (auto simp: lease_ok_def p'_def p_def)
  qed
  have apart: "names_apart (?ps[slot := p'])"
  proof (rule names_apart_update [OF d(6)])
    fix k assume k: "k < length ?ps" "k \<noteq> slot" "pk_tasks (?ps ! k) \<noteq> 0"
    show "pk_name (?ps ! k) \<noteq> pk_name p'"
    proof (cases "pk_tasks p = 0")
      case True
      then show ?thesis using other [of k] k name' d(1) by simp
    next
      case False
      then show ?thesis using names_apartD [OF d(6), of k slot] k slot name' d(1) by (auto simp: p_def)
    qed
  qed (use slot d(1) in simp)
  have tot: "totals_ok ((cr_next st, l) # ?ls)
      \<lparr>sn_tasks = sn_tasks (cs_totals (cr_pool st)) + 1,
       sn_borrowed_transport_bytes = sn_borrowed_transport_bytes (cs_totals (cr_pool st)) + transport,
       sn_reserved_extra_bytes = sn_reserved_extra_bytes (cs_totals (cr_pool st)) + EXTRA_BYTES_PER_LEASE\<rparr>"
    using d(7) total by (auto simp: totals_ok_def l_def)
  define t' where "t' = \<lparr>sn_tasks = sn_tasks (cs_totals (cr_pool st)) + 1,
       sn_borrowed_transport_bytes = sn_borrowed_transport_bytes (cs_totals (cr_pool st)) + transport,
       sn_reserved_extra_bytes = sn_reserved_extra_bytes (cs_totals (cr_pool st)) + EXTRA_BYTES_PER_LEASE\<rparr>"
  have "admit name transport slot st =
      st\<lparr>cr_pool := (cr_pool st)\<lparr>cs_totals := t', cs_packages := ?ps[slot := p']\<rparr>,
        cr_leases := (cr_next st, l) # ?ls, cr_next := cr_next st + 1\<rparr>"
    by (simp add: admit_def Let_def l_def p'_def p_def t'_def)
  moreover have "cr_next st \<notin> set (keys ?ls)" using d(3) by blast
  moreover have "k < cr_next st + 1" if "k \<in> set (keys ((cr_next st, l) # ?ls))" for k
    using that d(3) [of k] by (cases "k = cr_next st") simp_all
  ultimately show ?thesis
    using d(1,2) slots leases apart tot [folded t'_def] unfolding credits_ok_def by simp blast
qed

lemma credits_ok_destroy:
  assumes ok: "credits_ok st" and m: "map_of (cr_leases st) k = Some l0"
    and same: "ls_slot l = ls_slot l0" "ls_transport l = ls_transport l0"
  shows "credits_ok (destroy_lease k l st)"
proof -
  note d = credits_okD [OF ok] and e = slot_delete [OF credits_okD(2) [OF ok] m]
  let ?ps = "cs_packages (cr_pool st)" and ?ls = "cr_leases st" and ?ls' = "AList.delete k (cr_leases st)"
  define slot where "slot = ls_slot l"
  define p where "p = ?ps ! slot"
  define p' where "p' = p\<lparr>pk_tasks := pk_tasks p - 1, pk_transport := pk_transport p - ls_transport l,
    pk_name := (if pk_tasks p - 1 = 0 then [] else pk_name p)\<rparr>"
  have l0: "lease_ok ?ps l0" using d(4) map_of_SomeD [OF m] by blast
  then have slot: "slot < FEATURE_TASKS" using d(1) by (simp add: lease_ok_def slot_def same)
  note sp = d(5) [OF slot, folded p_def]
  have pp: "slot_ok ?ls' slot p'"
    using sp e(1) [of slot] e(2) [of slot] by (simp add: slot_ok_def p'_def slot_def same)
  have slots: "slot_ok ?ls' i (?ps[slot := p'] ! i)" if "i < FEATURE_TASKS" for i
    using pp d(1) d(5) [OF that] that e(1) [of i] e(2) [of i]
    by (cases "i = slot") (simp_all add: slot_ok_def slot_def same)
  have leases: "lease_ok (?ps[slot := p']) n" if n: "(j, n) \<in> set ?ls'" for j n
  proof -
    have "(j, n) \<in> set ?ls" using n by (auto simp: AList.delete_eq)
    then have ok: "lease_ok ?ps n" by (rule d(4))
    have "pk_tasks p - 1 \<noteq> 0" if "ls_slot n = slot"
      using slot_tasks_pos [OF n] that pp by (simp add: slot_ok_def p'_def)
    then show ?thesis using ok by (cases "ls_slot n = slot") (auto simp: lease_ok_def p'_def p_def)
  qed
  have apart: "names_apart (?ps[slot := p'])"
  proof (rule names_apart_update [OF d(6)])
    fix k assume k: "k < length ?ps" "k \<noteq> slot" "pk_tasks (?ps ! k) \<noteq> 0" and "pk_tasks p' \<noteq> 0"
    then have "pk_tasks p \<noteq> 0" "pk_name p' = pk_name p" by (simp_all add: p'_def)
    then show "pk_name (?ps ! k) \<noteq> pk_name p'"
      using names_apartD [OF d(6), of k slot] k slot d(1) by (auto simp: p_def)
  qed (use slot d(1) in simp)
  have tot: "totals_ok ?ls'
      \<lparr>sn_tasks = sn_tasks (cs_totals (cr_pool st)) - 1,
       sn_borrowed_transport_bytes = sn_borrowed_transport_bytes (cs_totals (cr_pool st)) - ls_transport l,
       sn_reserved_extra_bytes = sn_reserved_extra_bytes (cs_totals (cr_pool st)) - EXTRA_BYTES_PER_LEASE\<rparr>"
    using d(7) e(3,4) by (simp add: totals_ok_def same)
  have ks: "j < cr_next st" if "j \<in> set (keys ?ls')" for j
    using that d(3) by (auto simp: AList.delete_eq)
  define t' where "t' = \<lparr>sn_tasks = sn_tasks (cs_totals (cr_pool st)) - 1,
       sn_borrowed_transport_bytes = sn_borrowed_transport_bytes (cs_totals (cr_pool st)) - ls_transport l,
       sn_reserved_extra_bytes = sn_reserved_extra_bytes (cs_totals (cr_pool st)) - EXTRA_BYTES_PER_LEASE\<rparr>"
  have "destroy_lease k l st =
      st\<lparr>cr_pool := (cr_pool st)\<lparr>cs_totals := t', cs_packages := ?ps[slot := p']\<rparr>, cr_leases := ?ls'\<rparr>"
    by (simp add: destroy_lease_def Let_def slot_def p_def p'_def t'_def)
  then show ?thesis
    using d(1,2) slots leases apart tot [folded t'_def] ks unfolding credits_ok_def by auto
qed

lemma sum_list_remove1: "x \<in> set xs \<Longrightarrow> sum_list xs = x + sum_list (remove1 (x::nat) xs)"
  by (induction xs) auto

lemma credits_ok_settle:
  assumes "credits_ok st" and m: "map_of (cr_leases st) k = Some l0"
    and "ls_slot l = ls_slot l0" "ls_transport l = ls_transport l0" "ls_name l = ls_name l0"
    and "ls_extra l = OWNER_BOOKKEEPING_BYTES + sum_list (ls_charges l)" "ls_extra l \<le> ls_extra l0"
  shows "credits_ok (settle_lease k l st)"
proof (cases "ls_admission l \<or> ls_charges l \<noteq> []")
  case True
  have "lease_ok (cs_packages (cr_pool st)) l0" using credits_okD(4) [OF assms(1)] map_of_SomeD [OF m] by blast
  then have "lease_ok (cs_packages (cr_pool st)) l" using assms True by (simp add: lease_ok_def)
  then show ?thesis using credits_ok_update [OF assms(1) m] assms True by (simp add: settle_lease_def)
next
  case False
  then show ?thesis using credits_ok_destroy [OF assms(1) m] assms by (simp add: settle_lease_def)
qed

lemma credits_ok_step: "credits_ok st \<Longrightarrow> credits_ok (credit_step overhead st e)"
proof (induction e)
  case (AcquireCredit name transport process_lease)
  then show ?case
    using credits_ok_admit [of st name _ transport]
    by (auto simp: try_acquire_def Let_def split: option.splits)
next
  case (Reserve i payload)
  show ?case
  proof (cases "map_of (cr_leases st) i")
    case None
    then show ?thesis using Reserve by (simp add: reserve_extra_def)
  next
    case (Some l)
    let ?l = "l\<lparr>ls_extra := ls_extra l + (payload + overhead), ls_charges := (payload + overhead) # ls_charges l\<rparr>"
    have l: "lease_ok (cs_packages (cr_pool st)) l"
      using credits_okD(4) [OF Reserve] map_of_SomeD [OF Some] by blast
    have "credits_ok (st\<lparr>cr_leases := AList.update i ?l (cr_leases st)\<rparr>)"
      if "\<not> EXTRA_BYTES_PER_LEASE - ls_extra l < payload + overhead"
      using credits_ok_update [OF Reserve Some, of ?l] l that by (auto simp: lease_ok_def)
    then show ?thesis using Reserve Some by (simp add: reserve_extra_def Let_def)
  qed
next
  case (ReleaseCharge i charged)
  show ?case
  proof (cases "map_of (cr_leases st) i")
    case None
    then show ?thesis using ReleaseCharge by (simp add: release_charge_def)
  next
    case (Some l)
    have l: "lease_ok (cs_packages (cr_pool st)) l"
      using credits_okD(4) [OF ReleaseCharge] map_of_SomeD [OF Some] by blast
    have "sum_list (ls_charges l) = charged + sum_list (remove1 charged (ls_charges l))"
      if "charged \<in> set (ls_charges l)"
      using that by (rule sum_list_remove1)
    then show ?thesis using ReleaseCharge Some l
      by (auto simp: release_charge_def lease_ok_def intro!: credits_ok_settle [OF ReleaseCharge Some])
  qed
next
  case (DropAdmission i)
  show ?case
  proof (cases "map_of (cr_leases st) i")
    case None
    then show ?thesis using DropAdmission by (simp add: drop_admission_def)
  next
    case (Some l)
    have l: "lease_ok (cs_packages (cr_pool st)) l"
      using credits_okD(4) [OF DropAdmission] map_of_SomeD [OF Some] by blast
    then show ?thesis using DropAdmission Some
      by (auto simp: drop_admission_def lease_ok_def intro!: credits_ok_settle [OF DropAdmission Some])
  qed
next
  case CloseAdmission
  then show ?case by (simp add: close_admission_def credits_ok_def)
qed

interpretation credit_run: invariant_step "credit_step overhead" "\<lambda>_. True" credits_ok for overhead
  by unfold_locales (rule credits_ok_step)

section \<open>Quotas\<close>

definition named_tasks :: "string \<Rightarrow> credits \<Rightarrow> nat" where
  "named_tasks name st = asum (\<lambda>l. if ls_name l = name then 1 else 0) (cr_leases st)"

definition named_transport :: "string \<Rightarrow> credits \<Rightarrow> nat" where
  "named_transport name st = asum (\<lambda>l. if ls_name l = name then ls_transport l else 0) (cr_leases st)"

lemma asum_mono: "(\<And>k v. (k, v) \<in> set m \<Longrightarrow> f v \<le> g v) \<Longrightarrow> asum f m \<le> asum g m"
  unfolding asum_def by (rule sum_list_mono) auto

lemma same_name_same_slot:
  assumes "credits_ok st" "(k, l) \<in> set (cr_leases st)" "(k', l') \<in> set (cr_leases st)" "ls_name l = ls_name l'"
  shows "ls_slot l = ls_slot l'"
proof -
  note d = credits_okD [OF assms(1)]
  have l: "lease_ok (cs_packages (cr_pool st)) l" "lease_ok (cs_packages (cr_pool st)) l'"
    using d(4) assms(2,3) by blast+
  have "pk_tasks (cs_packages (cr_pool st) ! ls_slot l) \<noteq> 0" "pk_tasks (cs_packages (cr_pool st) ! ls_slot l') \<noteq> 0"
    using slot_tasks_pos [OF assms(2)] slot_tasks_pos [OF assms(3)] d(1) l
      d(5) [of "ls_slot l"] d(5) [of "ls_slot l'"]
    by (auto simp: slot_ok_def lease_ok_def)
  then show ?thesis using l assms(4) names_apartD [OF d(6)] by (simp add: lease_ok_def)
qed

lemma named_quota:
  assumes "credits_ok st"
  shows "named_tasks name st \<le> PACKAGE_TASKS \<and> named_transport name st \<le> PACKAGE_TRANSPORT_BYTES"
proof (cases "\<exists>k l. (k, l) \<in> set (cr_leases st) \<and> ls_name l = name")
  case False
  then have "named_tasks name st = asum (\<lambda>_. 0) (cr_leases st)"
    "named_transport name st = asum (\<lambda>_. 0) (cr_leases st)"
    unfolding named_tasks_def named_transport_def by (auto intro!: asum_cong)
  then show ?thesis by (simp add: asum_def sum_list_triv)
next
  case True
  then obtain k l where l: "(k, l) \<in> set (cr_leases st)" "ls_name l = name" by blast
  let ?s = "ls_slot l"
  have s: "?s < FEATURE_TASKS" using credits_okD(1,4) [OF assms] l(1) by (auto simp: lease_ok_def)
  have "named_tasks name st \<le> slot_tasks ?s (cr_leases st)"
    unfolding named_tasks_def slot_tasks_def
    using same_name_same_slot [OF assms _ l(1)] l(2) by (intro asum_mono) auto
  moreover have "named_transport name st \<le> slot_transport ?s (cr_leases st)"
    unfolding named_transport_def slot_transport_def
    using same_name_same_slot [OF assms _ l(1)] l(2) by (intro asum_mono) auto
  ultimately show ?thesis using credits_okD(5) [OF assms s] by (auto simp: slot_ok_def)
qed

text \<open>
  C14: After any sequence of operations the published counters are exactly those of the leases alive,
  and every quota holds: eight leases and 512 MiB in all, four leases and 256 MiB under one
  name, 96 MiB of charges per lease, where the charges of a lease add up to what it has reserved.
\<close>

theorem credit_quotas:
  "let st = foldl (credit_step overhead) credits_init es
   in snapshot st = \<lparr>sn_tasks = length (cr_leases st),
        sn_borrowed_transport_bytes = asum ls_transport (cr_leases st),
        sn_reserved_extra_bytes = length (cr_leases st) * EXTRA_BYTES_PER_LEASE\<rparr> \<and>
      length (cr_leases st) \<le> FEATURE_TASKS \<and> asum ls_transport (cr_leases st) \<le> FEATURE_TRANSPORT_BYTES \<and>
      named_tasks name st \<le> PACKAGE_TASKS \<and> named_transport name st \<le> PACKAGE_TRANSPORT_BYTES \<and>
      list_all (\<lambda>(k, l). ls_extra l = OWNER_BOOKKEEPING_BYTES + sum_list (ls_charges l) \<and>
        ls_extra l \<le> EXTRA_BYTES_PER_LEASE) (cr_leases st)"
proof -
  define st where "st = foldl (credit_step overhead) credits_init es"
  have ok: "credits_ok st"
    unfolding st_def by (rule credit_run.run_inv [OF credits_ok_init]) (simp add: list_all_iff)
  have "list_all (\<lambda>(k, l). ls_extra l = OWNER_BOOKKEEPING_BYTES + sum_list (ls_charges l) \<and>
        ls_extra l \<le> EXTRA_BYTES_PER_LEASE) (cr_leases st)"
    using credits_okD(4) [OF ok] by (auto simp: list_all_iff lease_ok_def)
  moreover have "totals_ok (cr_leases st) (cs_totals (cr_pool st))" by (rule credits_okD(7) [OF ok])
  ultimately show ?thesis
    using named_quota [OF ok] unfolding st_def [symmetric]
    by (simp add: Let_def snapshot_def totals_ok_def)
qed

section \<open>A charge keeps its lease\<close>

definition holds_charge :: "nat \<Rightarrow> nat \<Rightarrow> credits \<Rightarrow> bool" where
  "holds_charge i c st \<longleftrightarrow> (\<exists>l. map_of (cr_leases st) i = Some l \<and> c \<in> set (ls_charges l))"

lemma holds_settle_other: "j \<noteq> i \<Longrightarrow> holds_charge i c (settle_lease j l st) = holds_charge i c st"
  by (simp add: holds_charge_def settle_lease_def destroy_lease_def Let_def del: map_of_eq_Some_iff)

lemma holds_settle_same: "c \<in> set (ls_charges l) \<Longrightarrow> holds_charge i c (settle_lease i l st)"
  by (auto simp: holds_charge_def settle_lease_def simp del: map_of_eq_Some_iff)

lemma holds_charge_step:
  assumes ok: "credits_ok st" and h: "holds_charge i c st" and e: "e \<noteq> ReleaseCharge i c"
  shows "holds_charge i c (credit_step overhead st e)"
proof (cases e)
  case (AcquireCredit name transport process_lease)
  obtain l where "map_of (cr_leases st) i = Some l" using h by (auto simp: holds_charge_def)
  from credits_okD(3) [OF ok map_of_SomeD_keys [OF this]] have "i \<noteq> cr_next st" by simp
  then show ?thesis using h AcquireCredit
    by (auto simp: holds_charge_def try_acquire_def admit_def Let_def simp del: map_of_eq_Some_iff split: option.splits)
next
  case (Reserve j payload)
  then show ?thesis using h
    by (auto simp: holds_charge_def reserve_extra_def Let_def simp del: map_of_eq_Some_iff split: option.splits)
next
  case (ReleaseCharge j charged)
  show ?thesis
  proof (cases "j = i")
    case True
    then have "charged \<noteq> c" using e ReleaseCharge by auto
    then show ?thesis using h True ReleaseCharge
      by (auto simp: release_charge_def holds_settle_same simp del: map_of_eq_Some_iff split: option.splits)
        (auto simp: holds_charge_def simp del: map_of_eq_Some_iff intro!: holds_settle_same [unfolded holds_charge_def])
  next
    case False
    then show ?thesis using h ReleaseCharge
      by (auto simp: release_charge_def holds_settle_other split: option.splits)
  qed
next
  case (DropAdmission j)
  show ?thesis
  proof (cases "j = i")
    case True
    then show ?thesis using h DropAdmission
      by (auto simp: drop_admission_def holds_charge_def simp del: map_of_eq_Some_iff
          intro!: holds_settle_same [unfolded holds_charge_def] split: option.splits)
  next
    case False
    then show ?thesis using h DropAdmission
      by (auto simp: drop_admission_def holds_settle_other split: option.splits)
  qed
next
  case CloseAdmission
  then show ?thesis using h by (simp add: close_admission_def holds_charge_def)
qed

lemma holds_charge_run:
  "credits_ok st \<Longrightarrow> holds_charge i c st \<Longrightarrow> list_all (\<lambda>e. e \<noteq> ReleaseCharge i c) es \<Longrightarrow>
   credits_ok (foldl (credit_step overhead) st es) \<and> holds_charge i c (foldl (credit_step overhead) st es)"
  by (induction es arbitrary: st) (auto simp: credits_ok_step holds_charge_step)

lemma reserve_extra_holds:
  "reserve_extra overhead i payload st = (True, st') \<Longrightarrow> holds_charge i (payload + overhead) st'"
  by (auto simp: reserve_extra_def Let_def holds_charge_def simp del: map_of_eq_Some_iff
      split: option.splits if_splits)

text \<open>
  A charge that has been granted keeps the lease's credits taken: until it is released, whatever
  else happens, the pool does not report itself drained.
\<close>

theorem charge_blocks_drain:
  assumes "reserve_extra overhead i payload (foldl (credit_step overhead) credits_init es) = (True, st)"
    and "list_all (\<lambda>e. e \<noteq> ReleaseCharge i (payload + overhead)) es'"
  shows "\<not> drain_done (foldl (credit_step overhead) st es')"
proof -
  have ok: "credits_ok (foldl (credit_step overhead) credits_init es)"
    by (rule credit_run.run_inv [OF credits_ok_init]) (simp add: list_all_iff)
  have "credits_ok st" using credits_ok_step [OF ok, of overhead "Reserve i payload"] assms(1) by simp
  then have "credits_ok (foldl (credit_step overhead) st es')"
    "holds_charge i (payload + overhead) (foldl (credit_step overhead) st es')"
    using holds_charge_run [OF _ reserve_extra_holds [OF assms(1)] assms(2)] by blast+
  then show ?thesis using credits_okD(7) by (auto simp: drain_done_def totals_ok_def holds_charge_def)
qed

text \<open>A closed pool without leases stays so.\<close>

definition closed_idle :: "credits \<Rightarrow> bool" where
  "closed_idle st \<longleftrightarrow> \<not> cs_accepting (cr_pool st) \<and> cr_leases st = []"

lemma closed_idle_step: "closed_idle st \<Longrightarrow> closed_idle (credit_step overhead st e)"
  by (cases e) (auto simp: closed_idle_def try_acquire_def reserve_extra_def release_charge_def drop_admission_def
      close_admission_def)

interpretation closed_idle_run: invariant_step "credit_step overhead" "\<lambda>_. True" closed_idle for overhead
  by unfold_locales (rule closed_idle_step)

lemma not_accepting_step: "\<not> cs_accepting (cr_pool st) \<Longrightarrow> \<not> cs_accepting (cr_pool (credit_step overhead st e))"
  by (cases e) (auto simp: try_acquire_def reserve_extra_def release_charge_def drop_admission_def close_admission_def
      settle_lease_def destroy_lease_def Let_def split: option.splits)

lemma not_accepting_run:
  "\<not> cs_accepting (cr_pool st) \<Longrightarrow> \<not> cs_accepting (cr_pool (foldl (credit_step overhead) st es))"
  by (induction es arbitrary: st) (simp_all add: not_accepting_step)

text \<open>
  C24: When \<open>drain\<close> answers true, whatever the pool served before and whatever other threads did
  meanwhile, no lease is alive, and none is ever admitted again.
\<close>

theorem drained_pool_stays_empty:
  assumes "credit_drain overhead others (foldl (credit_step overhead) credits_init es) = (True, st)"
  shows "cr_leases (foldl (credit_step overhead) st later) = [] \<and>
    fst (try_acquire name transport process_lease (foldl (credit_step overhead) st later)) = None"
proof -
  let ?c = "close_admission (foldl (credit_step overhead) credits_init es)"
  have st: "st = foldl (credit_step overhead) ?c others" and d: "drain_done st"
    using assms by (auto simp: credit_drain_def Let_def)
  have "st = foldl (credit_step overhead) credits_init (es @ CloseAdmission # others)" by (simp add: st)
  then have "credits_ok st"
    by (metis (no_types, lifting) credit_run.run_inv credits_ok_init list_all_iff)
  then have "cr_leases st = []" using d credits_okD(7) by (auto simp: drain_done_def totals_ok_def)
  moreover have "\<not> cs_accepting (cr_pool st)"
    unfolding st by (rule not_accepting_run) (simp add: close_admission_def)
  ultimately have "closed_idle st" by (simp add: closed_idle_def)
  then have "closed_idle (foldl (credit_step overhead) st later)"
    by (rule closed_idle_run.run_inv) (simp add: list_all_iff)
  then show ?thesis by (auto simp: closed_idle_def try_acquire_def)
qed

lemma find_slot_idle: "pk_tasks p = 0 \<Longrightarrow> find_slot name i (replicate n p) (Some s) = Some s"
  by (induction n arbitrary: i) simp_all

lemma first_acquire:
  assumes "valid_name name" "transport \<le> PACKAGE_TRANSPORT_BYTES"
  shows "try_acquire name transport True credits_init = (Some 0, admit name transport 0 credits_init)"
proof -
  let ?p = "\<lparr>pk_name = [], pk_tasks = 0, pk_transport = 0\<rparr>"
  have r: "replicate FEATURE_TASKS ?p = ?p # replicate 7 ?p"
    by (simp add: FEATURE_TASKS_def numeral_eq_Suc)
  have "find_slot name 0 (replicate FEATURE_TASKS ?p) None = Some 0" by (simp add: r find_slot_idle)
  moreover have "replicate FEATURE_TASKS ?p ! 0 = ?p" by (simp add: r)
  moreover have "transport \<le> FEATURE_TRANSPORT_BYTES"
    using assms(2) by (simp add: PACKAGE_TRANSPORT_BYTES_def FEATURE_TRANSPORT_BYTES_def)
  ultimately show ?thesis using assms
    by (simp add: try_acquire_def credits_init_def Let_def FEATURE_TASKS_def PACKAGE_TASKS_def)
qed

theorem charge_blocks_drain_witness:
  "\<not> drain_done (foldl (credit_step 24) (snd (reserve_extra 24 0 100 (snd (try_acquire ''demo'' 5 True credits_init))))
     [DropAdmission 0, CloseAdmission])"
proof -
  have "valid_name ''demo''" by code_simp
  then have a: "snd (try_acquire ''demo'' 5 True credits_init) = admit ''demo'' 5 0 credits_init"
    by (simp add: first_acquire PACKAGE_TRANSPORT_BYTES_def)
  have "fst (reserve_extra 24 0 100 (admit ''demo'' 5 0 credits_init))"
    by (simp add: credits_init_def admit_def reserve_extra_def Let_def EXTRA_BYTES_PER_LEASE_def
        OWNER_BOOKKEEPING_BYTES_def)
  then obtain st where st: "reserve_extra 24 0 100 (admit ''demo'' 5 0 credits_init) = (True, st)"
    by (metis (full_types) prod.collapse)
  then have "reserve_extra 24 0 100 (foldl (credit_step 24) credits_init [AcquireCredit ''demo'' 5 True]) = (True, st)"
    using a by simp
  from charge_blocks_drain [OF this, of "[DropAdmission 0, CloseAdmission]"] st a show ?thesis by simp
qed

theorem drained_pool_stays_empty_witness:
  "cr_leases (foldl (credit_step 24) (snd (credit_drain 24 [DropAdmission 0]
     (foldl (credit_step 24) credits_init [AcquireCredit ''demo'' 5 True]))) [AcquireCredit ''demo'' 5 True]) = []"
proof -
  have "valid_name ''demo''" by code_simp
  then have a: "snd (try_acquire ''demo'' 5 True credits_init) = admit ''demo'' 5 0 credits_init"
    by (simp add: first_acquire PACKAGE_TRANSPORT_BYTES_def)
  have "fst (credit_drain 24 [DropAdmission 0] (admit ''demo'' 5 0 credits_init))"
    by (simp add: credit_drain_def Let_def drain_done_def close_admission_def drop_admission_def credits_init_def
        admit_def settle_lease_def destroy_lease_def)
  then have "fst (credit_drain 24 [DropAdmission 0] (foldl (credit_step 24) credits_init [AcquireCredit ''demo'' 5 True]))"
    by (simp add: a)
  then have "credit_drain 24 [DropAdmission 0] (foldl (credit_step 24) credits_init [AcquireCredit ''demo'' 5 True]) =
      (True, snd (credit_drain 24 [DropAdmission 0] (foldl (credit_step 24) credits_init [AcquireCredit ''demo'' 5 True])))"
    by (metis (full_types) prod.collapse)
  from drained_pool_stays_empty [OF this] show ?thesis by blast
qed

end
