(* ===== verification/Http_Arbiter.thy ===== *)
theory Http_Arbiter
  imports Http_Credits "HOL-Library.Word"
begin

text \<open>
  Deadlines and the response arbiter of \<open>extension_http/ownership.cpp\<close>: \<open>saturated_add\<close>,
  \<open>DeadlineBounds::make\<close>, \<open>http_drain_deadline\<close> and \<open>ResponseArbiter\<close>. A
  \<open>std::uint64_t\<close> is a \<open>64 word\<close>. Every method of the arbiter runs under its mutex and is one
  step; the clock value a method reads is an argument. \<open>dispatch_wire\<close> calls the writer
  under the mutex, so what the writer returns (\<open>None\<close> when it throws) is an argument too.

  Two fields are history: \<open>ab_acks\<close>, the records \<open>confirm_choice\<close> has accepted, and
  \<open>ab_writes\<close>, the records handed to a writer with the time of the hand-off.
\<close>

type_synonym u64 = "64 word"

section \<open>Deadlines\<close>

definition u64_max :: u64 where "u64_max = - 1"

definition saturated_add :: "u64 \<Rightarrow> u64 \<Rightarrow> u64" where
  "saturated_add left right = (if u64_max - right < left then u64_max else left + right)"

definition NS_PER_MS :: u64 where "NS_PER_MS = 1000000"

record deadline_bounds =
  db_admitted_at_ns :: u64
  db_execution_cutoff_ns :: u64
  db_wire_expiry_ns :: u64

definition make_bounds :: "u64 \<Rightarrow> u64 option \<Rightarrow> deadline_bounds option" where
  "make_bounds admitted enclosing =
     (let wire = saturated_add admitted (5000 * NS_PER_MS);
          wire = (case enclosing of None \<Rightarrow> wire | Some d \<Rightarrow> min wire d)
      in if wire \<le> admitted then None
         else Some \<lparr>db_admitted_at_ns = admitted,
                db_execution_cutoff_ns = min (saturated_add admitted (4500 * NS_PER_MS)) wire,
                db_wire_expiry_ns = wire\<rparr>)"

definition http_drain_deadline :: "u64 \<Rightarrow> 32 word \<Rightarrow> u64 option \<Rightarrow> u64 option \<Rightarrow> u64 option" where
  "http_drain_deadline now configured_ms package coordinator =
     (if configured_ms < 1000 \<or> 5000 < configured_ms then None
      else let deadline = saturated_add now (ucast configured_ms * NS_PER_MS);
               deadline = (case package of None \<Rightarrow> deadline | Some d \<Rightarrow> min deadline d);
               deadline = (case coordinator of None \<Rightarrow> deadline | Some d \<Rightarrow> min deadline d)
           in Some deadline)"

section \<open>The arbiter\<close>

datatype cancel_reason = DEADLINE | CLIENT_GONE | SHUTDOWN | GENERATION_RETIRED

datatype choice_reason =
    ChoseResponse | ChoseHandlerFailed | ChoseResponseInvalid | ChoseAdapterUnavailable
  | ChoseResourceExhausted | ChoseDeadline | ChoseClientGone | ChoseShutdown | ChoseGenerationRetired

datatype adapter_failure =
    HANDLER_FAILED | RESPONSE_INVALID | ADAPTER_UNAVAILABLE | RESOURCE_EXHAUSTED | EXECUTION_CANCELLED

datatype disposition = ACCEPTED | DUPLICATE | RETIRED

datatype wire_observation = NOT_ATTEMPTED | ATTEMPT_STARTED | WRITE_COMPLETED | WRITE_FAILED | UNKNOWN

record choice_identity =
  ci_dispatch_id :: string
  ci_owner_epoch :: string
  ci_version :: u64
  ci_choice_id :: string

record choice_record =
  cr_identity :: choice_identity
  cr_status :: "int option"
  cr_reason :: choice_reason

record arbiter =
  ab_identity :: choice_identity
  ab_bounds :: deadline_bounds
  ab_frozen :: "choice_record option"
  ab_cancelled :: "cancel_reason option"
  ab_authorized :: bool
  ab_owner_live :: bool
  ab_durable :: bool
  ab_handed_to_writer :: bool
  ab_closed :: bool
  ab_wire :: wire_observation
  ab_acks :: "choice_record list"
  ab_writes :: "(u64 \<times> choice_record) list"

definition bounds_valid :: "deadline_bounds \<Rightarrow> bool" where
  "bounds_valid b \<longleftrightarrow> \<not> (db_execution_cutoff_ns b \<le> db_admitted_at_ns b \<or>
     db_wire_expiry_ns b < db_execution_cutoff_ns b \<or>
     saturated_add (db_admitted_at_ns b) (5000 * NS_PER_MS) < db_wire_expiry_ns b \<or>
     saturated_add (db_admitted_at_ns b) (4500 * NS_PER_MS) < db_execution_cutoff_ns b)"

definition arbiter_init :: "choice_identity \<Rightarrow> deadline_bounds \<Rightarrow> arbiter" where
  "arbiter_init identity bounds =
     \<lparr>ab_identity = identity, ab_bounds = bounds, ab_frozen = None, ab_cancelled = None,
      ab_authorized = False, ab_owner_live = True, ab_durable = False, ab_handed_to_writer = False,
      ab_closed = False, ab_wire = NOT_ATTEMPTED, ab_acks = [], ab_writes = []\<rparr>"

datatype arbiter_error = INVALID_ARGUMENT | BAD_ALLOC

text \<open>
  The constructor reserves two charges on the admission; when the second is refused the first is
  released as the exception leaves.
\<close>

definition new_arbiter ::
  "nat \<Rightarrow> choice_identity \<Rightarrow> deadline_bounds \<Rightarrow> bool \<Rightarrow> nat option \<Rightarrow> credits \<Rightarrow> (arbiter_error + arbiter) \<times> credits" where
  "new_arbiter overhead identity bounds clock admission cr =
     (case admission of
        None \<Rightarrow> (Inl INVALID_ARGUMENT, cr)
      | Some i \<Rightarrow>
          if \<not> clock \<or> \<not> valid_uuid (ci_dispatch_id identity) \<or> \<not> valid_uuid (ci_owner_epoch identity) \<or>
             \<not> valid_uuid (ci_choice_id identity) \<or> ci_version identity = 0 \<or> \<not> bounds_valid bounds
          then (Inl INVALID_ARGUMENT, cr)
          else (case reserve_extra overhead i 4096 cr of
              (False, cr1) \<Rightarrow> (Inl BAD_ALLOC, cr1)
            | (True, cr1) \<Rightarrow>
                (case reserve_extra overhead i 1024 cr1 of
                   (False, cr2) \<Rightarrow> (Inl BAD_ALLOC, release_charge i (4096 + overhead) cr2)
                 | (True, cr2) \<Rightarrow> (Inr (arbiter_init identity bounds), cr2))))"

definition freeze :: "int option \<Rightarrow> choice_reason \<Rightarrow> arbiter \<Rightarrow> arbiter" where
  "freeze status reason st =
     (if ab_frozen st = None \<and> ab_authorized st
      then st\<lparr>ab_frozen := Some \<lparr>cr_identity = ab_identity st, cr_status = status, cr_reason = reason\<rparr>\<rparr>
      else st)"

definition close_wire :: "arbiter \<Rightarrow> arbiter" where
  "close_wire st =
     st\<lparr>ab_closed := True,
        ab_wire := (if ab_handed_to_writer st \<and> ab_wire st \<noteq> WRITE_COMPLETED \<and> ab_wire st \<noteq> WRITE_FAILED
                    then UNKNOWN else ab_wire st)\<rparr>"

definition update :: "u64 \<Rightarrow> arbiter \<Rightarrow> arbiter" where
  "update now st0 =
     (if now < db_admitted_at_ns (ab_bounds st0) then close_wire (st0\<lparr>ab_owner_live := False\<rparr>)
      else let st1 = (if db_execution_cutoff_ns (ab_bounds st0) \<le> now
                 then freeze (Some 504) ChoseDeadline
                        (st0\<lparr>ab_cancelled := (case ab_cancelled st0 of None \<Rightarrow> Some DEADLINE | c \<Rightarrow> c)\<rparr>)
                 else st0)
           in if db_wire_expiry_ns (ab_bounds st1) \<le> now
              then (let st2 = close_wire st1
                    in if \<not> ab_handed_to_writer st2 then st2\<lparr>ab_wire := UNKNOWN\<rparr> else st2)
              else st1)"

definition authorize_dispatch :: "u64 \<Rightarrow> arbiter \<Rightarrow> bool \<times> arbiter" where
  "authorize_dispatch now st0 =
     (let st = update now st0
      in if ab_authorized st \<or> \<not> ab_owner_live st \<or> ab_cancelled st \<noteq> None \<or> ab_closed st then (False, st)
         else (True, st\<lparr>ab_authorized := True\<rparr>))"

definition entry_permitted :: "u64 \<Rightarrow> arbiter \<Rightarrow> bool" where
  "entry_permitted now st \<longleftrightarrow> ab_authorized st \<and> ab_owner_live st \<and> ab_cancelled st = None \<and>
     db_admitted_at_ns (ab_bounds st) \<le> now \<and> now < db_execution_cutoff_ns (ab_bounds st)"

definition remaining_execution_ms :: "u64 \<Rightarrow> arbiter \<Rightarrow> 32 word" where
  "remaining_execution_ms now st =
     (if \<not> ab_owner_live st \<or> ab_cancelled st \<noteq> None \<or> now < db_admitted_at_ns (ab_bounds st) \<or>
         db_execution_cutoff_ns (ab_bounds st) \<le> now then 0
      else ucast ((db_execution_cutoff_ns (ab_bounds st) - now) div NS_PER_MS))"

definition submit_with :: "u64 \<Rightarrow> int option \<Rightarrow> choice_reason \<Rightarrow> arbiter \<Rightarrow> disposition \<times> arbiter" where
  "submit_with now status reason st0 =
     (let had_choice = (ab_frozen st0 \<noteq> None); st = update now st0
      in if had_choice then (DUPLICATE, st)
         else if \<not> ab_authorized st \<or> \<not> ab_owner_live st \<or> ab_frozen st \<noteq> None then (RETIRED, st)
         else (ACCEPTED, freeze status reason st))"

definition submit_response :: "u64 \<Rightarrow> int \<Rightarrow> arbiter \<Rightarrow> disposition \<times> arbiter" where
  "submit_response now status =
     submit_with now (Some (if 200 \<le> status \<and> status \<le> 599 then status else 500))
       (if 200 \<le> status \<and> status \<le> 599 then ChoseResponse else ChoseResponseInvalid)"

fun submit_failure :: "u64 \<Rightarrow> adapter_failure \<Rightarrow> arbiter \<Rightarrow> disposition \<times> arbiter" where
  "submit_failure now HANDLER_FAILED st = submit_with now (Some 500) ChoseHandlerFailed st"
| "submit_failure now RESPONSE_INVALID st = submit_with now (Some 500) ChoseResponseInvalid st"
| "submit_failure now EXECUTION_CANCELLED st = submit_with now (Some 500) ChoseResponseInvalid st"
| "submit_failure now ADAPTER_UNAVAILABLE st = submit_with now (Some 503) ChoseAdapterUnavailable st"
| "submit_failure now RESOURCE_EXHAUSTED st = submit_with now (Some 500) ChoseResourceExhausted st"

fun cancel_freeze :: "cancel_reason \<Rightarrow> arbiter \<Rightarrow> arbiter" where
  "cancel_freeze DEADLINE st = freeze (Some 504) ChoseDeadline st"
| "cancel_freeze CLIENT_GONE st = freeze None ChoseClientGone st"
| "cancel_freeze SHUTDOWN st = freeze (Some 503) ChoseShutdown st"
| "cancel_freeze GENERATION_RETIRED st = freeze (Some 503) ChoseGenerationRetired st"

definition cancel :: "u64 \<Rightarrow> cancel_reason \<Rightarrow> arbiter \<Rightarrow> arbiter" where
  "cancel now reason st0 =
     (let st1 = update now st0;
          st2 = (if ab_cancelled st1 = None then cancel_freeze reason (st1\<lparr>ab_cancelled := Some reason\<rparr>) else st1)
      in if reason \<noteq> DEADLINE
         then (let st3 = close_wire st2
               in if reason \<noteq> CLIENT_GONE then st3\<lparr>ab_owner_live := False\<rparr> else st3)
         else st2)"

definition expire :: "u64 \<Rightarrow> arbiter \<Rightarrow> arbiter" where
  "expire now st = update now st"

definition confirm_choice :: "u64 \<Rightarrow> choice_record \<Rightarrow> arbiter \<Rightarrow> bool \<times> arbiter" where
  "confirm_choice now acknowledged st0 =
     (let st = update now st0
      in if \<not> ab_owner_live st \<or> ab_frozen st = None \<or> ab_frozen st \<noteq> Some acknowledged then (False, st)
         else (True, st\<lparr>ab_durable := True, ab_acks := acknowledged # ab_acks st\<rparr>))"

definition dispatch_wire :: "u64 \<Rightarrow> bool \<Rightarrow> wire_observation option \<Rightarrow> arbiter \<Rightarrow> bool \<times> arbiter" where
  "dispatch_wire now writer observed st0 =
     (let st = update now st0
      in case ab_frozen st of
          None \<Rightarrow> (False, st)
        | Some record \<Rightarrow>
            if \<not> writer \<or> \<not> ab_owner_live st \<or> ab_closed st \<or> ab_handed_to_writer st \<or> \<not> ab_durable st \<or>
               cr_status record = None then (False, st)
            else (True, st\<lparr>ab_handed_to_writer := True,
                     ab_wire := (if observed = Some NOT_ATTEMPTED \<or> observed = Some ATTEMPT_STARTED
                                 then the observed else UNKNOWN),
                     ab_closed := True, ab_writes := (now, record) # ab_writes st\<rparr>))"

definition observe_wire :: "choice_record \<Rightarrow> wire_observation \<Rightarrow> arbiter \<Rightarrow> bool \<times> arbiter" where
  "observe_wire identity observation st =
     (if \<not> ab_owner_live st \<or> \<not> ab_handed_to_writer st \<or> ab_frozen st \<noteq> Some identity \<or>
         (ab_wire st \<noteq> ATTEMPT_STARTED \<and> ab_wire st \<noteq> UNKNOWN) \<or>
         (observation \<noteq> WRITE_COMPLETED \<and> observation \<noteq> WRITE_FAILED) then (False, st)
      else (True, st\<lparr>ab_wire := observation\<rparr>))"

datatype arbiter_event =
    AuthorizeDispatch u64
  | SubmitResponse u64 int
  | SubmitFailure u64 adapter_failure
  | Cancel u64 cancel_reason
  | Expire u64
  | ConfirmChoice u64 choice_record
  | DispatchWire u64 bool "wire_observation option"
  | ObserveWire choice_record wire_observation

fun arbiter_step :: "arbiter \<Rightarrow> arbiter_event \<Rightarrow> arbiter" where
  "arbiter_step st (AuthorizeDispatch now) = snd (authorize_dispatch now st)"
| "arbiter_step st (SubmitResponse now status) = snd (submit_response now status st)"
| "arbiter_step st (SubmitFailure now failure) = snd (submit_failure now failure st)"
| "arbiter_step st (Cancel now reason) = cancel now reason st"
| "arbiter_step st (Expire now) = expire now st"
| "arbiter_step st (ConfirmChoice now record) = snd (confirm_choice now record st)"
| "arbiter_step st (DispatchWire now writer observed) = snd (dispatch_wire now writer observed st)"
| "arbiter_step st (ObserveWire record observation) = snd (observe_wire record observation st)"

section \<open>Deadlines do not wrap\<close>

lemma u64_max_nat: "unat u64_max = 2 ^ 64 - 1"
  by (simp add: u64_max_def unsigned_minus_1_eq_mask mask_eq_exp_minus_1)

lemma unat_u64: "unat (w :: u64) \<le> 2 ^ 64 - 1"
  using unsigned_less [of w, where ?'a = nat] by simp

lemma saturated_add_nat: "unat (saturated_add a b) = min (2 ^ 64 - 1) (unat a + unat b)"
proof -
  have d: "unat (u64_max - b) = 2 ^ 64 - 1 - unat b"
    using unat_u64 [of b] by (simp add: unat_sub word_le_nat_alt u64_max_nat)
  show ?thesis
  proof (cases "u64_max - b < a")
    case True
    then have "2 ^ 64 - 1 - unat b < unat a" using d by (simp add: word_less_nat_alt)
    then have "min (2 ^ 64 - 1) (unat a + unat b) = 2 ^ 64 - 1" by (intro min_absorb1) linarith
    then show ?thesis using True by (simp only: saturated_add_def if_True u64_max_nat)
  next
    case False
    then have "unat a \<le> 2 ^ 64 - 1 - unat b" using d by (simp add: word_less_nat_alt not_less)
    then have le: "unat a + unat b \<le> 2 ^ 64 - 1" using unat_u64 [of b] by linarith
    then have "unat (a + b) = unat a + unat b" by (simp add: unat_add_lem [symmetric])
    then show ?thesis using False le by (simp add: saturated_add_def)
  qed
qed

lemma deadline_constants: "unat (5000 * NS_PER_MS) = 5000000000" "unat (4500 * NS_PER_MS) = 4500000000"
  by (simp_all add: NS_PER_MS_def)

lemma unat_min: "unat (min a b) = min (unat a) (unat (b :: u64))"
  by (simp add: min_def word_le_nat_alt)

lemma word_bounds_nat: "a < (b :: u64) \<longleftrightarrow> unat a < unat b" "a \<le> b \<longleftrightarrow> unat a \<le> unat b"
  by (simp_all add: word_less_nat_alt word_le_nat_alt)

text \<open>
  C27: Admission is refused exactly when no time is left: at the last clock value or when the
  enclosing deadline has passed. Otherwise the three bounds are ordered without wrap-around,
  at most 4.5 and 5 seconds after admission and within the enclosing deadline, and
  are bounds the arbiter accepts.
\<close>

theorem admission_deadlines:
  "case make_bounds admitted enclosing of
     None \<Rightarrow> unat admitted = 2 ^ 64 - 1 \<or> (\<exists>d. enclosing = Some d \<and> unat d \<le> unat admitted)
   | Some b \<Rightarrow> bounds_valid b \<and> db_admitted_at_ns b = admitted \<and>
       unat admitted < unat (db_execution_cutoff_ns b) \<and>
       unat (db_execution_cutoff_ns b) \<le> unat (db_wire_expiry_ns b) \<and>
       unat (db_execution_cutoff_ns b) \<le> unat admitted + 4500000000 \<and>
       unat (db_wire_expiry_ns b) \<le> unat admitted + 5000000000 \<and>
       unat (db_wire_expiry_ns b) \<le> (case enclosing of None \<Rightarrow> 2 ^ 64 - 1 | Some d \<Rightarrow> unat d)"
proof -
  define wire where "wire = (case enclosing of None \<Rightarrow> saturated_add admitted (5000 * NS_PER_MS)
    | Some d \<Rightarrow> min (saturated_add admitted (5000 * NS_PER_MS)) d)"
  have le: "unat admitted \<le> 2 ^ 64 - 1" by (rule unat_u64)
  have w: "unat wire = (case enclosing of None \<Rightarrow> min (2 ^ 64 - 1) (unat admitted + 5000000000)
    | Some d \<Rightarrow> min (min (2 ^ 64 - 1) (unat admitted + 5000000000)) (unat d))"
    by (simp add: wire_def unat_min saturated_add_nat deadline_constants split: option.splits)
  have m: "make_bounds admitted enclosing =
      (if wire \<le> admitted then None
       else Some \<lparr>db_admitted_at_ns = admitted,
         db_execution_cutoff_ns = min (saturated_add admitted (4500 * NS_PER_MS)) wire, db_wire_expiry_ns = wire\<rparr>)"
    by (simp add: make_bounds_def Let_def wire_def)
  show ?thesis
  proof (cases "wire \<le> admitted")
    case True
    then have "unat wire \<le> unat admitted" by (simp add: word_le_nat_alt)
    then have "unat admitted = 2 ^ 64 - 1 \<or> (\<exists>d. enclosing = Some d \<and> unat d \<le> unat admitted)"
      using w le by (auto split: option.splits)
    then show ?thesis using True m by simp
  next
    case False
    then have lt: "unat admitted < unat wire" by (simp add: word_le_nat_alt not_le)
    let ?c = "min (saturated_add admitted (4500 * NS_PER_MS)) wire"
    have c: "unat ?c = min (min (2 ^ 64 - 1) (unat admitted + 4500000000)) (unat wire)"
      by (simp add: unat_min saturated_add_nat deadline_constants)
    have w2: "unat wire \<le> 2 ^ 64 - 1" "unat wire \<le> unat admitted + 5000000000"
      "unat wire \<le> (case enclosing of None \<Rightarrow> 2 ^ 64 - 1 | Some d \<Rightarrow> unat d)"
      using w by (auto split: option.splits)
    have c2: "unat admitted < unat ?c" "unat ?c \<le> unat wire" "unat ?c \<le> unat admitted + 4500000000"
      using c lt w2(1) by linarith+
    have "bounds_valid \<lparr>db_admitted_at_ns = admitted, db_execution_cutoff_ns = ?c, db_wire_expiry_ns = wire\<rparr>"
      using c2 c w2 by (simp only: bounds_valid_def deadline_bounds.select_convs word_bounds_nat
          saturated_add_nat deadline_constants) linarith
    then show ?thesis using False m c2 w2 by simp
  qed
qed

section \<open>One choice, one hand-off\<close>

definition status_ok :: "choice_record \<Rightarrow> bool" where
  "status_ok r \<longleftrightarrow>
     (case cr_status r of None \<Rightarrow> cr_reason r = ChoseClientGone | Some s \<Rightarrow> 200 \<le> s \<and> s \<le> 599)"

definition frozen_next :: "arbiter \<Rightarrow> choice_record option \<Rightarrow> bool" where
  "frozen_next st f \<longleftrightarrow> f = ab_frozen st \<or>
     (ab_frozen st = None \<and> (\<exists>r. f = Some r \<and> cr_identity r = ab_identity st \<and> status_ok r))"

text \<open>A change that freezes a valid choice at most, and neither confirms nor hands off.\<close>

definition quiet_change :: "arbiter \<Rightarrow> arbiter \<Rightarrow> bool" where
  "quiet_change st st' \<longleftrightarrow>
     ab_identity st' = ab_identity st \<and> ab_bounds st' = ab_bounds st \<and> frozen_next st (ab_frozen st') \<and>
     ab_durable st' = ab_durable st \<and> ab_handed_to_writer st' = ab_handed_to_writer st \<and>
     (ab_closed st \<longrightarrow> ab_closed st') \<and> ab_acks st' = ab_acks st \<and> ab_writes st' = ab_writes st"

lemma quiet_refl [simp]: "quiet_change st st"
  by (simp add: quiet_change_def frozen_next_def)

lemma quiet_trans: "quiet_change a b \<Longrightarrow> quiet_change b c \<Longrightarrow> quiet_change a c"
  by (auto simp: quiet_change_def frozen_next_def)

lemma quiet_freeze:
  "case status of None \<Rightarrow> reason = ChoseClientGone | Some s \<Rightarrow> 200 \<le> s \<and> s \<le> 599 \<Longrightarrow>
   quiet_change st (freeze status reason st)"
  by (auto simp: quiet_change_def freeze_def frozen_next_def status_ok_def split: option.splits)

lemma quiet_close: "quiet_change st (close_wire st)"
  by (simp add: quiet_change_def close_wire_def frozen_next_def)

lemma quiet_fields [simp]:
  "quiet_change st (st\<lparr>ab_owner_live := x\<rparr>)" "quiet_change st (st\<lparr>ab_cancelled := c\<rparr>)"
  "quiet_change st (st\<lparr>ab_wire := w\<rparr>)" "quiet_change st (st\<lparr>ab_authorized := y\<rparr>)"
  by (simp_all add: quiet_change_def frozen_next_def)

lemma quiet_update: "quiet_change st (update now st)"
proof (cases "now < db_admitted_at_ns (ab_bounds st)")
  case True
  then show ?thesis
    using quiet_trans [OF quiet_fields(1) [of st False] quiet_close] by (simp add: update_def)
next
  case False
  define st1 where "st1 = (if db_execution_cutoff_ns (ab_bounds st) \<le> now
    then freeze (Some 504) ChoseDeadline
      (st\<lparr>ab_cancelled := (case ab_cancelled st of None \<Rightarrow> Some DEADLINE | c \<Rightarrow> c)\<rparr>) else st)"
  have 1: "quiet_change st st1"
    unfolding st1_def using quiet_trans [OF quiet_fields(2) quiet_freeze] by simp
  have "quiet_change st1 (if db_wire_expiry_ns (ab_bounds st1) \<le> now
      then (let st2 = close_wire st1 in if \<not> ab_handed_to_writer st2 then st2\<lparr>ab_wire := UNKNOWN\<rparr> else st2)
      else st1)"
    using quiet_close [of st1] quiet_trans [OF quiet_close quiet_fields(3)] by (simp add: Let_def)
  with 1 have "quiet_change st (if db_wire_expiry_ns (ab_bounds st1) \<le> now
      then (let st2 = close_wire st1 in if \<not> ab_handed_to_writer st2 then st2\<lparr>ab_wire := UNKNOWN\<rparr> else st2)
      else st1)"
    by (rule quiet_trans)
  then show ?thesis using False unfolding update_def st1_def [symmetric] by (simp add: Let_def)
qed

text \<open>After \<open>update\<close> an owner that is live and not closed is within its bounds.\<close>

lemma update_in_time:
  assumes "ab_owner_live (update now st)" "\<not> ab_closed (update now st)"
  shows "db_admitted_at_ns (ab_bounds st) \<le> now \<and> now < db_wire_expiry_ns (ab_bounds st)"
proof -
  have a: "\<not> now < db_admitted_at_ns (ab_bounds st)"
    using assms(1) by (auto simp: update_def close_wire_def)
  moreover have "\<not> db_wire_expiry_ns (ab_bounds st) \<le> now"
    using assms(2) a by (auto simp: update_def close_wire_def Let_def freeze_def split: if_splits)
  ultimately show ?thesis by (simp add: not_less not_le)
qed

definition arbiter_ok :: "arbiter \<Rightarrow> bool" where
  "arbiter_ok st \<longleftrightarrow>
     (\<forall>r. ab_frozen st = Some r \<longrightarrow> cr_identity r = ab_identity st \<and> status_ok r) \<and>
     (\<forall>r \<in> set (ab_acks st). ab_frozen st = Some r) \<and> (ab_durable st \<longrightarrow> ab_acks st \<noteq> []) \<and>
     (ab_handed_to_writer st \<longleftrightarrow> ab_writes st \<noteq> []) \<and> length (ab_writes st) \<le> 1 \<and>
     (\<forall>(t, r) \<in> set (ab_writes st). r \<in> set (ab_acks st) \<and> cr_status r \<noteq> None \<and>
        db_admitted_at_ns (ab_bounds st) \<le> t \<and> t < db_wire_expiry_ns (ab_bounds st))"

lemma arbiter_ok_init: "arbiter_ok (arbiter_init identity bounds)"
  by (simp add: arbiter_ok_def arbiter_init_def)

lemma arbiter_ok_quiet: "arbiter_ok st \<Longrightarrow> quiet_change st st' \<Longrightarrow> arbiter_ok st'"
proof -
  assume ok: "arbiter_ok st" and q: "quiet_change st st'"
  have same: "ab_identity st' = ab_identity st" "ab_bounds st' = ab_bounds st" "ab_acks st' = ab_acks st"
      "ab_writes st' = ab_writes st" "ab_durable st' = ab_durable st"
      "ab_handed_to_writer st' = ab_handed_to_writer st"
    using q by (simp_all add: quiet_change_def)
  have n: "frozen_next st (ab_frozen st')" using q by (simp add: quiet_change_def)
  have 1: "cr_identity r = ab_identity st \<and> status_ok r" if "ab_frozen st' = Some r" for r
    using n that ok by (auto simp: frozen_next_def arbiter_ok_def)
  have 2: "ab_frozen st' = Some r" if "r \<in> set (ab_acks st)" for r
  proof -
    have "ab_frozen st = Some r" using ok that by (simp add: arbiter_ok_def)
    then show ?thesis using n by (simp add: frozen_next_def)
  qed
  show ?thesis using ok 1 2 unfolding arbiter_ok_def same by blast
qed

lemma quiet_submit:
  "case status of None \<Rightarrow> reason = ChoseClientGone | Some s \<Rightarrow> 200 \<le> s \<and> s \<le> 599 \<Longrightarrow>
   quiet_change st (snd (submit_with now status reason st))"
  using quiet_trans [OF quiet_update quiet_freeze] quiet_update by (simp add: submit_with_def Let_def)

lemma quiet_cancel_freeze: "quiet_change st (cancel_freeze reason st)"
  by (cases reason) (simp_all add: quiet_freeze)

lemma quiet_cancel: "quiet_change st (cancel now reason st)"
proof -
  let ?s1 = "update now st"
  let ?s2 = "if ab_cancelled ?s1 = None then cancel_freeze reason (?s1\<lparr>ab_cancelled := Some reason\<rparr>) else ?s1"
  have 2: "quiet_change st ?s2"
    using quiet_trans [OF quiet_update quiet_trans [OF quiet_fields(2) quiet_cancel_freeze]] quiet_update by simp
  have 3: "quiet_change ?s2 (close_wire ?s2)" by (rule quiet_close)
  show ?thesis
    unfolding cancel_def Let_def
    using 2 quiet_trans [OF 2 3] quiet_trans [OF quiet_trans [OF 2 3] quiet_fields(1)] by simp
qed

lemma quiet_submit_response: "quiet_change st (snd (submit_response now status st))"
  unfolding submit_response_def by (rule quiet_submit) simp

lemma quiet_submit_failure: "quiet_change st (snd (submit_failure now failure st))"
  by (cases failure) (simp_all add: quiet_submit)

lemma quiet_authorize: "quiet_change st (snd (authorize_dispatch now st))"
  using quiet_update quiet_trans [OF quiet_update quiet_fields(4)] by (simp add: authorize_dispatch_def Let_def)

lemma quiet_observe: "quiet_change st (snd (observe_wire record observation st))"
  by (simp add: observe_wire_def)

lemma confirm_choice_cases:
  obtains "snd (confirm_choice now record st) = update now st"
    | "ab_frozen (update now st) = Some record"
      "snd (confirm_choice now record st) =
        (update now st)\<lparr>ab_durable := True, ab_acks := record # ab_acks (update now st)\<rparr>"
proof (cases "ab_owner_live (update now st) \<and> ab_frozen (update now st) = Some record")
  case True
  then show thesis by (intro that(2)) (simp_all add: confirm_choice_def Let_def)
next
  case False
  then show thesis by (intro that(1)) (simp add: confirm_choice_def Let_def)
qed

lemma dispatch_wire_cases:
  obtains "snd (dispatch_wire now writer observed st) = update now st"
    | r w where "ab_frozen (update now st) = Some r" "ab_owner_live (update now st)" "\<not> ab_closed (update now st)"
      "\<not> ab_handed_to_writer (update now st)" "ab_durable (update now st)" "cr_status r \<noteq> None"
      "snd (dispatch_wire now writer observed st) =
        (update now st)\<lparr>ab_handed_to_writer := True, ab_wire := w, ab_closed := True,
          ab_writes := (now, r) # ab_writes (update now st)\<rparr>"
proof (cases "ab_frozen (update now st)")
  case None
  then show thesis by (intro that(1)) (simp add: dispatch_wire_def Let_def)
next
  case (Some r)
  show thesis
  proof (cases "writer \<and> ab_owner_live (update now st) \<and> \<not> ab_closed (update now st) \<and>
      \<not> ab_handed_to_writer (update now st) \<and> ab_durable (update now st) \<and> cr_status r \<noteq> None")
    case True
    then show thesis
      using Some by (intro that(2) [of r "if observed = Some NOT_ATTEMPTED \<or> observed = Some ATTEMPT_STARTED
          then the observed else UNKNOWN"]) (simp_all add: dispatch_wire_def Let_def del: not_None_eq)
  next
    case False
    then show thesis using Some by (intro that(1)) (auto simp: dispatch_wire_def Let_def)
  qed
qed

lemma arbiter_ok_confirm: "arbiter_ok st \<Longrightarrow> arbiter_ok (snd (confirm_choice now record st))"
proof -
  assume ok: "arbiter_ok st"
  have u: "arbiter_ok (update now st)" using ok quiet_update by (rule arbiter_ok_quiet)
  show ?thesis
  proof (cases rule: confirm_choice_cases [of now "record" st])
    case 1
    then show ?thesis using u by simp
  next
    case 2
    show ?thesis using u unfolding 2(2) by (auto simp: arbiter_ok_def 2(1))
  qed
qed

lemma arbiter_ok_handoff:
  assumes ok: "arbiter_ok st" and r: "ab_frozen st = Some r" "cr_status r \<noteq> None"
    and fresh: "ab_durable st" "\<not> ab_handed_to_writer st"
    and t: "db_admitted_at_ns (ab_bounds st) \<le> now" "now < db_wire_expiry_ns (ab_bounds st)"
  shows "arbiter_ok (st\<lparr>ab_handed_to_writer := True, ab_wire := w, ab_closed := True,
    ab_writes := (now, r) # ab_writes st\<rparr>)"
proof -
  have a: "r \<in> set (ab_acks st)" using ok r(1) fresh(1) by (cases "ab_acks st") (auto simp: arbiter_ok_def)
  have e: "ab_writes st = []" using ok fresh(2) by (simp add: arbiter_ok_def)
  have 1: "\<forall>q. ab_frozen st = Some q \<longrightarrow> cr_identity q = ab_identity st \<and> status_ok q"
    and 2: "\<forall>q \<in> set (ab_acks st). ab_frozen st = Some q" and 3: "ab_durable st \<longrightarrow> ab_acks st \<noteq> []"
    using ok by (simp_all add: arbiter_ok_def)
  show ?thesis unfolding arbiter_ok_def arbiter.simps e using 1 2 3 a r(2) t by simp
qed

lemma arbiter_ok_dispatch: "arbiter_ok st \<Longrightarrow> arbiter_ok (snd (dispatch_wire now writer observed st))"
proof -
  assume ok: "arbiter_ok st"
  have u: "arbiter_ok (update now st)" using ok quiet_update by (rule arbiter_ok_quiet)
  have b: "ab_bounds (update now st) = ab_bounds st" using quiet_update [of st now] by (simp add: quiet_change_def)
  show ?thesis
  proof (cases rule: dispatch_wire_cases [of now writer observed st])
    case 1
    then show ?thesis using u by simp
  next
    case (2 r w)
    have "db_admitted_at_ns (ab_bounds st) \<le> now \<and> now < db_wire_expiry_ns (ab_bounds st)"
      using update_in_time 2(2,3) by blast
    then show ?thesis unfolding 2(7) by (intro arbiter_ok_handoff u 2) (simp_all add: b)
  qed
qed

lemma arbiter_ok_step: "arbiter_ok st \<Longrightarrow> arbiter_ok (arbiter_step st e)"
  using arbiter_ok_quiet [OF _ quiet_authorize] arbiter_ok_quiet [OF _ quiet_submit_response]
    arbiter_ok_quiet [OF _ quiet_submit_failure] arbiter_ok_quiet [OF _ quiet_cancel]
    arbiter_ok_quiet [OF _ quiet_update] arbiter_ok_quiet [OF _ quiet_observe]
  by (cases e) (simp_all add: expire_def arbiter_ok_confirm arbiter_ok_dispatch)

interpretation arbiter_run: invariant_step arbiter_step "\<lambda>_. True" arbiter_ok
  by unfold_locales (rule arbiter_ok_step)

lemma same_identity: "ab_identity (arbiter_step st e) = ab_identity st \<and> ab_bounds (arbiter_step st e) = ab_bounds st"
proof -
  have q: "quiet_change st st' \<Longrightarrow> ab_identity st' = ab_identity st \<and> ab_bounds st' = ab_bounds st" for st'
    by (simp add: quiet_change_def)
  note u = q [OF quiet_update]
  show ?thesis
  proof (cases e)
    case (ConfirmChoice now c)
    then show ?thesis using u by (cases rule: confirm_choice_cases [of now c st]) simp_all
  next
    case (DispatchWire now writer observed)
    then show ?thesis using u by (cases rule: dispatch_wire_cases [of now writer observed st]) simp_all
  qed (simp_all add: expire_def u q [OF quiet_authorize] q [OF quiet_submit_response] q [OF quiet_submit_failure]
      q [OF quiet_cancel] q [OF quiet_observe])
qed

lemma same_identity_run:
  "ab_identity (foldl arbiter_step st es) = ab_identity st \<and> ab_bounds (foldl arbiter_step st es) = ab_bounds st"
  by (induction es arbitrary: st) (simp_all add: same_identity)

text \<open>
  C3: Whatever sequence of calls an owner sees, and whatever its clock reads, at most one response is
  handed to a writer. It is the frozen choice, was acknowledged as durable before, carries a
  status between 200 and 599, and goes out within the dispatch's time bounds.
\<close>

theorem arbiter_single_handoff:
  "let st = foldl arbiter_step (arbiter_init identity bounds) es
   in length (ab_writes st) \<le> 1 \<and>
      list_all (\<lambda>(t, r). ab_frozen st = Some r \<and> r \<in> set (ab_acks st) \<and> cr_identity r = identity \<and>
        (\<exists>s. cr_status r = Some s \<and> 200 \<le> s \<and> s \<le> 599) \<and>
        db_admitted_at_ns bounds \<le> t \<and> t < db_wire_expiry_ns bounds) (ab_writes st)"
proof -
  define st where "st = foldl arbiter_step (arbiter_init identity bounds) es"
  have ok: "arbiter_ok st"
    unfolding st_def by (rule arbiter_run.run_inv [OF arbiter_ok_init]) (simp add: list_all_iff)
  have i: "ab_identity st = identity" "ab_bounds st = bounds"
    using same_identity_run [of "arbiter_init identity bounds" es] by (simp_all add: st_def arbiter_init_def)
  have "list_all (\<lambda>(t, r). ab_frozen st = Some r \<and> r \<in> set (ab_acks st) \<and> cr_identity r = identity \<and>
        (\<exists>s. cr_status r = Some s \<and> 200 \<le> s \<and> s \<le> 599) \<and>
        db_admitted_at_ns bounds \<le> t \<and> t < db_wire_expiry_ns bounds) (ab_writes st)"
    using ok i unfolding arbiter_ok_def list_all_iff by (fastforce simp: status_ok_def)
  then show ?thesis using ok unfolding st_def [symmetric] by (simp add: arbiter_ok_def Let_def)
qed

end
