(* ===== verification/Http_Frames.thy ===== *)
theory Http_Frames
  imports Http_Frame_Sax Http_Arbiter "HOL-Library.Monad_Syntax"
begin

text \<open>
  The frame protocol of \<open>extension_http/frames.cpp\<close> between the kernel and an adapter: the frame
  values, reading and writing them as JSON, their validation, the length header, and the
  operations that reserve memory on an admission before they allocate.

  \<open>read_frame\<close> indexes constant JSON values and takes members by type without asking first: a
  missing member is undefined behaviour and a member of another type an exception. The model
  answers \<open>None\<close> there, and it is shown that after the prepass it never does.
\<close>

section \<open>Frames\<close>

record handshake_identity =
  hi_owner_epoch :: string
  hi_adapter_epoch :: string
  hi_clock_domain_id :: string
  hi_extension :: extension

record frame_identity =
  fi_owner_epoch :: string
  fi_adapter_epoch :: string
  fi_dispatch_id :: string
  fi_generation_receipt_id :: string

datatype settlement_reason = COMPLETED | CANCELLED | FAILED

datatype peer_entry_state = NOT_ENTERED | ENTERED

record settlement =
  se_reason :: settlement_reason
  se_entry_state :: peer_entry_state
  se_entered_at_ns :: "u64 option"

datatype frame_outcome = ResponseOutcome native_response | FailureOutcome adapter_failure

datatype frame =
    Hello handshake_identity
  | HelloAck handshake_identity
  | Call frame_identity native_request context_data
  | Accepted frame_identity
  | Entered frame_identity u64
  | Result frame_identity frame_outcome
  | CancelFrame frame_identity cancel_reason
  | Settled frame_identity settlement

text \<open>The name tables, each name with the enumerator at its index.\<close>

definition ERRORS :: "(string \<times> adapter_failure) list" where
  "ERRORS = [(''handler_failed'', HANDLER_FAILED), (''response_invalid'', RESPONSE_INVALID),
     (''adapter_unavailable'', ADAPTER_UNAVAILABLE), (''resource_exhausted'', RESOURCE_EXHAUSTED),
     (''execution_cancelled'', EXECUTION_CANCELLED)]"

definition CANCELS :: "(string \<times> cancel_reason) list" where
  "CANCELS = [(''deadline'', DEADLINE), (''client_gone'', CLIENT_GONE), (''shutdown'', SHUTDOWN),
     (''generation_retired'', GENERATION_RETIRED)]"

definition SETTLEMENTS :: "(string \<times> settlement_reason) list" where
  "SETTLEMENTS = [(''completed'', COMPLETED), (''cancelled'', CANCELLED), (''failed'', FAILED)]"

definition ENTRIES :: "(string \<times> peer_entry_state) list" where
  "ENTRIES = [(''not_entered'', NOT_ENTERED), (''entered'', ENTERED)]"

fun enum_name :: "'e \<Rightarrow> (string \<times> 'e) list \<Rightarrow> string" where
  "enum_name e [] = []"
| "enum_name e ((n, x) # table) = (if x = e then n else enum_name e table)"

fun enum_value :: "json \<Rightarrow> (string \<times> 'e) list \<Rightarrow> 'e option" where
  "enum_value (JString s) table = map_of table s"
| "enum_value _ table = None"

fun type_name :: "frame \<Rightarrow> string" where
  "type_name (Hello _) = ''hello''"
| "type_name (HelloAck _) = ''hello_ack''"
| "type_name (Call _ _ _) = ''call''"
| "type_name (Accepted _) = ''accepted''"
| "type_name (Entered _ _) = ''entered''"
| "type_name (Result _ _) = ''result''"
| "type_name (CancelFrame _ _) = ''cancel''"
| "type_name (Settled _ _) = ''settled''"

section \<open>Validation\<close>

definition valid_extension :: "extension \<Rightarrow> bool" where
  "valid_extension e \<longleftrightarrow> valid_uuid (ex_package_id e) \<and> valid_name (ex_name e) \<and> valid_version (ex_version e) \<and>
     valid_hex256 (ex_artifact_sha256 e) \<and> valid_uuid (ex_generation_receipt_id e)"

definition valid_frame_identity :: "frame_identity \<Rightarrow> bool" where
  "valid_frame_identity i \<longleftrightarrow> valid_uuid (fi_owner_epoch i) \<and> valid_uuid (fi_adapter_epoch i) \<and>
     valid_uuid (fi_dispatch_id i) \<and> valid_uuid (fi_generation_receipt_id i)"

definition valid_handshake_identity :: "handshake_identity \<Rightarrow> bool" where
  "valid_handshake_identity i \<longleftrightarrow> valid_uuid (hi_owner_epoch i) \<and> valid_uuid (hi_adapter_epoch i) \<and>
     valid_uuid (hi_clock_domain_id i) \<and> valid_extension (hi_extension i)"

fun valid_identity :: "frame \<Rightarrow> bool" where
  "valid_identity (Hello i) = valid_handshake_identity i"
| "valid_identity (HelloAck i) = valid_handshake_identity i"
| "valid_identity (Call i _ _) = valid_frame_identity i"
| "valid_identity (Accepted i) = valid_frame_identity i"
| "valid_identity (Entered i _) = valid_frame_identity i"
| "valid_identity (Result i _) = valid_frame_identity i"
| "valid_identity (CancelFrame i _) = valid_frame_identity i"
| "valid_identity (Settled i _) = valid_frame_identity i"

definition extension_metadata :: "extension \<Rightarrow> nat" where
  "extension_metadata e = length (ex_package_id e) + length (ex_name e) + length (ex_version e) +
     length (ex_artifact_sha256 e) + length (ex_generation_receipt_id e)"

definition context_metadata :: "context_data \<Rightarrow> nat" where
  "context_metadata c =
     length (cx_dispatch_id c) + length (cx_owner_epoch c) + length (cx_adapter_epoch c) + length (cx_clock_domain_id c) +
     length (show_nat (unat (cx_admitted_at_ns c))) + length (show_nat (unat (cx_execution_cutoff_ns c))) +
     length (cx_matched_prefix c) +
     (if pr_kind (cx_principal c) = PAT then 3 + length (pr_user_id (cx_principal c)) + length (pr_pat_id (cx_principal c)) else 9) +
     extension_metadata (cx_extension c)"

definition headers_metadata :: "headers \<Rightarrow> nat" where
  "headers_metadata h = sum_list (map (\<lambda>(k, v). length k + length v) h)"

definition handshake_metadata :: "handshake_identity \<Rightarrow> nat" where
  "handshake_metadata i = length (hi_owner_epoch i) + length (hi_adapter_epoch i) + length (hi_clock_domain_id i) +
     extension_metadata (hi_extension i)"

definition common_metadata :: "frame_identity \<Rightarrow> nat" where
  "common_metadata i = length (fi_owner_epoch i) + length (fi_adapter_epoch i) + length (fi_dispatch_id i) +
     length (fi_generation_receipt_id i)"

definition request_metadata :: "native_request \<Rightarrow> nat" where
  "request_metadata request =
     (let r = nr_data request
      in length (rq_request_id r) + length (rq_method r) + length (tg_path (rq_target r)) +
         length (tg_original_path (rq_target r)) + length (tg_query (rq_target r)) + headers_metadata (rq_headers r))"

fun variant_metadata :: "frame \<Rightarrow> nat" where
  "variant_metadata (Hello i) = handshake_metadata i"
| "variant_metadata (HelloAck i) = handshake_metadata i"
| "variant_metadata (Call i r c) = common_metadata i + request_metadata r + context_metadata c"
| "variant_metadata (Accepted i) = common_metadata i"
| "variant_metadata (Entered i ns) = common_metadata i + length (show_nat (unat ns))"
| "variant_metadata (Result i (ResponseOutcome r)) = common_metadata i + 8 + headers_metadata (rs_headers r)"
| "variant_metadata (Result i (FailureOutcome e)) = common_metadata i + 5 + length (enum_name e ERRORS)"
| "variant_metadata (CancelFrame i reason) = common_metadata i + length (enum_name reason CANCELS)"
| "variant_metadata (Settled i s) = common_metadata i + length (enum_name (se_reason s) SETTLEMENTS) +
     length (enum_name (se_entry_state s) ENTRIES) +
     (case se_entered_at_ns s of None \<Rightarrow> 0 | Some ns \<Rightarrow> length (show_nat (unat ns)))"

definition metadata_size :: "frame \<Rightarrow> nat" where
  "metadata_size f = length (type_name f) + variant_metadata f"

fun validate_variant :: "frame \<Rightarrow> unit frame_result" where
  "validate_variant (Call i r c) =
     on_ok (mapped (validate_call_data r c)) (\<lambda>_.
       if fi_owner_epoch i \<noteq> cx_owner_epoch c \<or> fi_adapter_epoch i \<noteq> cx_adapter_epoch c \<or>
          fi_dispatch_id i \<noteq> cx_dispatch_id c \<or>
          fi_generation_receipt_id i \<noteq> ex_generation_receipt_id (cx_extension c)
       then Inl FRAME_INVALID else Inr ())"
| "validate_variant (Result i (ResponseOutcome r)) = mapped (validate_response r)"
| "validate_variant (Result i (FailureOutcome e)) = (if enum_name e ERRORS = [] then Inl FRAME_INVALID else Inr ())"
| "validate_variant (CancelFrame i reason) = (if enum_name reason CANCELS = [] then Inl FRAME_INVALID else Inr ())"
| "validate_variant (Settled i s) =
     (if enum_name (se_reason s) SETTLEMENTS = [] \<or> enum_name (se_entry_state s) ENTRIES = [] \<or>
         (se_entry_state s = ENTERED) \<noteq> (se_entered_at_ns s \<noteq> None)
      then Inl FRAME_INVALID else Inr ())"
| "validate_variant _ = Inr ()"

definition validate_data :: "frame \<Rightarrow> unit frame_result" where
  "validate_data f =
     (if \<not> valid_identity f then Inl FRAME_INVALID
      else on_ok (validate_variant f) (\<lambda>_.
        if MAX_METADATA_BYTES < metadata_size f then Inl FRAME_TOO_LARGE else Inr ()))"

section \<open>Reading\<close>

definition member_at :: "string \<Rightarrow> json \<Rightarrow> json option" where
  "member_at k j = map_of (members j) k"

definition text_at :: "string \<Rightarrow> json \<Rightarrow> string option" where
  "text_at k j = (case member_at k j of Some (JString s) \<Rightarrow> Some s | _ \<Rightarrow> None)"

definition extension_at :: "json \<Rightarrow> extension option" where
  "extension_at e = do {
     p \<leftarrow> text_at ''package_id'' e; n \<leftarrow> text_at ''name'' e; v \<leftarrow> text_at ''version'' e;
     a \<leftarrow> text_at ''artifact_sha256'' e; g \<leftarrow> text_at ''generation_receipt_id'' e;
     Some \<lparr>ex_package_id = p, ex_name = n, ex_version = v, ex_artifact_sha256 = a, ex_generation_receipt_id = g\<rparr> }"

definition identity_data :: "json \<Rightarrow> frame_identity option" where
  "identity_data j = do {
     oe \<leftarrow> text_at ''owner_epoch'' j; ae \<leftarrow> text_at ''adapter_epoch'' j;
     d \<leftarrow> text_at ''dispatch_id'' j; g \<leftarrow> text_at ''generation_receipt_id'' j;
     Some \<lparr>fi_owner_epoch = oe, fi_adapter_epoch = ae, fi_dispatch_id = d, fi_generation_receipt_id = g\<rparr> }"

definition handshake_data :: "json \<Rightarrow> handshake_identity option" where
  "handshake_data j = do {
     oe \<leftarrow> text_at ''owner_epoch'' j; ae \<leftarrow> text_at ''adapter_epoch'' j;
     c \<leftarrow> text_at ''clock_domain_id'' j; e \<leftarrow> member_at ''extension'' j; x \<leftarrow> extension_at e;
     Some \<lparr>hi_owner_epoch = oe, hi_adapter_epoch = ae, hi_clock_domain_id = c, hi_extension = x\<rparr> }"

text \<open>Go on with the value of a result, or return its error.\<close>

definition try_ok :: "'a frame_result \<Rightarrow> ('a \<Rightarrow> 'b frame_result option) \<Rightarrow> 'b frame_result option" where
  "try_ok r f = (case r of Inl e \<Rightarrow> Some (Inl e) | Inr x \<Rightarrow> f x)"

definition some_or_invalid :: "'a option \<Rightarrow> 'a frame_result" where
  "some_or_invalid x = (case x of None \<Rightarrow> Inl FRAME_INVALID | Some y \<Rightarrow> Inr y)"

definition read_call :: "json_lib \<Rightarrow> json \<Rightarrow> frame_identity \<Rightarrow> frame frame_result option" where
  "read_call lib j i = do {
     rq \<leftarrow> member_at ''request'' j;
     try_ok (mapped (parse_wire_request lib (json_dump lib rq))) (\<lambda>r. do {
       cx \<leftarrow> member_at ''context'' j;
       try_ok (mapped (parse_context lib (json_dump lib cx))) (\<lambda>c. Some (Inr (Call i r c))) }) }"

definition read_result :: "json_lib \<Rightarrow> json \<Rightarrow> frame_identity \<Rightarrow> frame frame_result option" where
  "read_result lib j i = do {
     out \<leftarrow> member_at ''outcome'' j; kind \<leftarrow> member_at ''kind'' out;
     if kind = JString ''response'' then do {
       rs \<leftarrow> member_at ''response'' out;
       try_ok (mapped (parse_wire_response lib (json_dump lib rs))) (\<lambda>r. Some (Inr (Result i (ResponseOutcome r)))) }
     else do {
       code \<leftarrow> member_at ''code'' out;
       try_ok (some_or_invalid (enum_value code ERRORS)) (\<lambda>e. Some (Inr (Result i (FailureOutcome e)))) } }"

definition read_entered :: "json \<Rightarrow> u64 option frame_result option" where
  "read_entered v =
     (case v of
        JNull \<Rightarrow> Some (Inr None)
      | JString t \<Rightarrow> try_ok (mapped (parse_ns t)) (\<lambda>n. Some (Inr (Some (of_nat n))))
      | _ \<Rightarrow> None)"

definition read_settled :: "json \<Rightarrow> frame_identity \<Rightarrow> frame frame_result option" where
  "read_settled j i = do {
     s \<leftarrow> member_at ''settlement'' j; reason \<leftarrow> member_at ''reason'' s; entry \<leftarrow> member_at ''entry_state'' s;
     case (enum_value reason SETTLEMENTS, enum_value entry ENTRIES) of
       (Some r, Some e) \<Rightarrow> do {
         v \<leftarrow> member_at ''entered_at_ns'' s;
         entered \<leftarrow> read_entered v;
         try_ok entered (\<lambda>ns. Some (Inr (Settled i \<lparr>se_reason = r, se_entry_state = e, se_entered_at_ns = ns\<rparr>))) }
     | _ \<Rightarrow> Some (Inl FRAME_INVALID) }"

definition read_frame :: "json_lib \<Rightarrow> json \<Rightarrow> frame frame_result option" where
  "read_frame lib j = do {
     ty \<leftarrow> member_at ''type'' j;
     if ty = JString ''hello'' \<or> ty = JString ''hello_ack'' then do {
       i \<leftarrow> handshake_data j;
       Some (Inr (if ty = JString ''hello'' then Hello i else HelloAck i)) }
     else do {
       i \<leftarrow> identity_data j;
       if ty = JString ''call'' then read_call lib j i
       else if ty = JString ''accepted'' then Some (Inr (Accepted i))
       else if ty = JString ''entered'' then do {
         t \<leftarrow> text_at ''entered_at_ns'' j;
         try_ok (mapped (parse_ns t)) (\<lambda>n. Some (Inr (Entered i (of_nat n)))) }
       else if ty = JString ''result'' then read_result lib j i
       else if ty = JString ''cancel'' then do {
         reason \<leftarrow> member_at ''reason'' j;
         try_ok (some_or_invalid (enum_value reason CANCELS)) (\<lambda>r. Some (Inr (CancelFrame i r))) }
       else if ty = JString ''settled'' then read_settled j i
       else Some (Inl FRAME_INVALID) } }"

section \<open>Writing\<close>

text \<open>The exceptions of \<open>Json::parse\<close> on a text the library has just written are the value \<open>None\<close>.\<close>

definition identity_fields :: "frame_identity \<Rightarrow> (string \<times> json) list" where
  "identity_fields i = [(''owner_epoch'', JString (fi_owner_epoch i)), (''adapter_epoch'', JString (fi_adapter_epoch i)),
     (''dispatch_id'', JString (fi_dispatch_id i)), (''generation_receipt_id'', JString (fi_generation_receipt_id i))]"

definition handshake_fields :: "handshake_identity \<Rightarrow> (string \<times> json) list" where
  "handshake_fields i = [(''owner_epoch'', JString (hi_owner_epoch i)), (''adapter_epoch'', JString (hi_adapter_epoch i)),
     (''clock_domain_id'', JString (hi_clock_domain_id i)), (''extension'', extension_json (hi_extension i))]"

definition settlement_json :: "settlement \<Rightarrow> json" where
  "settlement_json s = JObject [(''reason'', JString (enum_name (se_reason s) SETTLEMENTS)),
     (''entry_state'', JString (enum_name (se_entry_state s) ENTRIES)),
     (''entered_at_ns'', case se_entered_at_ns s of None \<Rightarrow> JNull | Some ns \<Rightarrow> JString (show_nat (unat ns)))]"

definition response_outcome :: "json \<Rightarrow> json" where
  "response_outcome r = JObject [(''kind'', JString ''response''), (''response'', r)]"

definition failure_outcome :: "adapter_failure \<Rightarrow> json" where
  "failure_outcome e = JObject [(''kind'', JString ''error''), (''code'', JString (enum_name e ERRORS))]"

fun frame_fields :: "json_lib \<Rightarrow> frame \<Rightarrow> (string \<times> json) list frame_result option" where
  "frame_fields lib (Hello i) = Some (Inr (handshake_fields i))"
| "frame_fields lib (HelloAck i) = Some (Inr (handshake_fields i))"
| "frame_fields lib (Call i r c) =
     try_ok (mapped (serialize_wire_request lib r)) (\<lambda>request. do {
       rq \<leftarrow> json_parse lib request;
       try_ok (mapped (serialize_context lib c)) (\<lambda>cx_text. do {
         cx \<leftarrow> json_parse lib cx_text;
         Some (Inr (identity_fields i @ [(''request'', rq), (''context'', cx)])) }) })"
| "frame_fields lib (Accepted i) = Some (Inr (identity_fields i))"
| "frame_fields lib (Entered i ns) =
     Some (Inr (identity_fields i @ [(''entered_at_ns'', JString (show_nat (unat ns)))]))"
| "frame_fields lib (Result i (ResponseOutcome r)) =
     try_ok (mapped (serialize_wire_response lib r)) (\<lambda>response. do {
       rs \<leftarrow> json_parse lib response;
       Some (Inr (identity_fields i @ [(''outcome'', response_outcome rs)])) })"
| "frame_fields lib (Result i (FailureOutcome e)) =
     Some (Inr (identity_fields i @ [(''outcome'', failure_outcome e)]))"
| "frame_fields lib (CancelFrame i reason) =
     Some (Inr (identity_fields i @ [(''reason'', JString (enum_name reason CANCELS))]))"
| "frame_fields lib (Settled i s) = Some (Inr (identity_fields i @ [(''settlement'', settlement_json s)]))"

definition frame_doc :: "frame \<Rightarrow> (string \<times> json) list \<Rightarrow> json" where
  "frame_doc f ms = JObject ((''schema'', JInt 1) # (''type'', JString (type_name f)) # ms)"

definition write_frame :: "json_lib \<Rightarrow> frame \<Rightarrow> string frame_result option" where
  "write_frame lib f = do {
     r \<leftarrow> frame_fields lib f;
     try_ok r (\<lambda>ms. Some (Inr (json_dump lib (frame_doc f ms)))) }"

section \<open>Frames on the wire\<close>

definition MIB :: nat where "MIB = 1024 * 1024"
definition DTO_BYTES :: nat where "DTO_BYTES = MAX_BODY_BYTES + 256 * 1024"
definition SERIAL_WORK_BYTES :: nat where "SERIAL_WORK_BYTES = 2 * MAX_WIRE_BYTES + 4 * MIB"

definition decode_frame_length :: "8 word \<Rightarrow> 8 word \<Rightarrow> 8 word \<Rightarrow> 8 word \<Rightarrow> u32 frame_result" where
  "decode_frame_length h0 h1 h2 h3 =
     (let n = push_bit 24 (ucast h0 :: u32) OR push_bit 16 (ucast h1) OR push_bit 8 (ucast h2) OR ucast h3
      in if n = 0 then Inl FRAME_INVALID else if MAX_WIRE_BYTES < unat n then Inl FRAME_TOO_LARGE else Inr n)"

definition frame_header :: "u32 \<Rightarrow> binary" where
  "frame_header n = [ucast (drop_bit 24 n), ucast (drop_bit 16 n), ucast (drop_bit 8 n), ucast n]"

definition bytes_of :: "string \<Rightarrow> binary" where
  "bytes_of s = map (\<lambda>c. of_nat (byte_of c)) s"

definition text_of :: "binary \<Rightarrow> string" where
  "text_of b = map (\<lambda>x. char_of (unat x)) b"

text \<open>
  The charges of an operation are local objects: on every return those not moved into the result
  are released, the last reserved first. \<open>overhead\<close> is the size of a charge token.
\<close>

definition allocate_frame_payload ::
  "nat \<Rightarrow> 8 word \<Rightarrow> 8 word \<Rightarrow> 8 word \<Rightarrow> 8 word \<Rightarrow> nat option \<Rightarrow> credits \<Rightarrow> binary frame_result \<times> credits" where
  "allocate_frame_payload overhead h0 h1 h2 h3 admission st =
     (case decode_frame_length h0 h1 h2 h3 of
        Inl e \<Rightarrow> (Inl e, st)
      | Inr n \<Rightarrow> (case admission of
          None \<Rightarrow> (Inl RESOURCE_UNAVAILABLE, st)
        | Some i \<Rightarrow> (case reserve_extra overhead i (unat n) st of
            (ok, st1) \<Rightarrow> if \<not> ok then (Inl RESOURCE_UNAVAILABLE, st1) else (Inr (replicate (unat n) 0), st1))))"

text \<open>Two reservations around a computation; the second one stays with a successful result.\<close>

definition with_charges ::
  "nat \<Rightarrow> nat \<Rightarrow> nat \<Rightarrow> nat \<Rightarrow> 'a frame_result \<Rightarrow> credits \<Rightarrow> 'a frame_result \<times> credits" where
  "with_charges overhead i work storage result st =
     (case reserve_extra overhead i work st of
        (False, st1) \<Rightarrow> (Inl RESOURCE_UNAVAILABLE, st1)
      | (True, st1) \<Rightarrow> (case reserve_extra overhead i storage st1 of
          (False, st2) \<Rightarrow> (Inl RESOURCE_UNAVAILABLE, release_charge i (work + overhead) st2)
        | (True, st2) \<Rightarrow> (case result of
            Inl e \<Rightarrow> (Inl e, release_charge i (work + overhead) (release_charge i (storage + overhead) st2))
          | Inr x \<Rightarrow> (Inr x, release_charge i (work + overhead) st2))))"

text \<open>\<open>catch (...)\<close>.\<close>

definition caught :: "'a frame_result option \<Rightarrow> 'a frame_result" where
  "caught r = (case r of None \<Rightarrow> Inl RESOURCE_UNAVAILABLE | Some x \<Rightarrow> x)"

definition parse_payload :: "json_lib \<Rightarrow> string \<Rightarrow> frame frame_result" where
  "parse_payload lib raw =
     on_ok (frame_preflight_pass lib raw) (\<lambda>_.
     on_ok (caught (Option.bind (json_parse lib raw) (read_frame lib))) (\<lambda>f.
     on_ok (validate_data f) (\<lambda>_. Inr f)))"

definition parse_frame_payload ::
  "nat \<Rightarrow> json_lib \<Rightarrow> string \<Rightarrow> nat option \<Rightarrow> credits \<Rightarrow> frame frame_result \<times> credits" where
  "parse_frame_payload overhead lib raw admission st =
     (if raw = [] then (Inl FRAME_INVALID, st)
      else if MAX_WIRE_BYTES < length raw then (Inl FRAME_TOO_LARGE, st)
      else case admission of
          None \<Rightarrow> (Inl RESOURCE_UNAVAILABLE, st)
        | Some i \<Rightarrow> with_charges overhead i (3 * length raw + 12 * MIB) DTO_BYTES (parse_payload lib raw) st)"

definition parse_framed_buffer ::
  "nat \<Rightarrow> json_lib \<Rightarrow> binary \<Rightarrow> nat option \<Rightarrow> credits \<Rightarrow> frame frame_result \<times> credits" where
  "parse_framed_buffer overhead lib raw admission st =
     (case raw of
        h0 # h1 # h2 # h3 # payload \<Rightarrow> (case decode_frame_length h0 h1 h2 h3 of
          Inl e \<Rightarrow> (Inl e, st)
        | Inr n \<Rightarrow> if length payload \<noteq> unat n then (Inl FRAME_INVALID, st)
            else parse_frame_payload overhead lib (text_of payload) admission st)
      | _ \<Rightarrow> (Inl FRAME_INVALID, st))"

definition encode_payload :: "json_lib \<Rightarrow> frame \<Rightarrow> binary frame_result" where
  "encode_payload lib f =
     on_ok (validate_data f) (\<lambda>_.
     on_ok (caught (write_frame lib f)) (\<lambda>raw.
     on_ok (frame_preflight_pass lib raw) (\<lambda>_. Inr (frame_header (of_nat (length raw)) @ bytes_of raw))))"

definition encode_frame ::
  "nat \<Rightarrow> json_lib \<Rightarrow> frame \<Rightarrow> nat option \<Rightarrow> credits \<Rightarrow> binary frame_result \<times> credits" where
  "encode_frame overhead lib f admission st =
     (case admission of
        None \<Rightarrow> (Inl RESOURCE_UNAVAILABLE, st)
      | Some i \<Rightarrow> with_charges overhead i SERIAL_WORK_BYTES (MAX_WIRE_BYTES + 4) (encode_payload lib f) st)"

section \<open>The reader after the prepass\<close>

lemma shape_member: "record_shape table j \<Longrightarrow> (k, P) \<in> set table \<Longrightarrow> \<exists>v. member_at k j = Some v \<and> P v"
  by (auto simp: record_shape_def member_at_def list_all_iff simp del: map_of_eq_Some_iff split: json.splits option.splits dest!: bspec)

lemma shape_text: "record_shape table j \<Longrightarrow> (k, is_string) \<in> set table \<Longrightarrow> \<exists>t. text_at k j = Some t"
  using shape_member [of table j k is_string] by (auto simp: text_at_def elim!: is_string.elims)

lemma extension_defined: "extension_shape e \<Longrightarrow> \<exists>x. extension_at e = Some x"
proof -
  assume e: "extension_shape e"
  have "\<exists>t. text_at k e = Some t" if "k \<in> set [''package_id'', ''name'', ''version'', ''artifact_sha256'', ''generation_receipt_id'']" for k
    using e that by (auto simp: extension_shape_def text_fields_def intro!: shape_text)
  then show ?thesis by (simp add: extension_at_def) (metis bind.bind_lunit)
qed

lemma identity_defined:
  assumes "record_shape (dispatch_fields @ more_fields) j"
  shows "\<exists>i. identity_data j = Some i"
proof -
  have "\<exists>t. text_at k j = Some t" if "k \<in> set [''owner_epoch'', ''adapter_epoch'', ''dispatch_id'', ''generation_receipt_id'']" for k
    using assms that by (auto simp: dispatch_fields_def text_fields_def intro!: shape_text)
  then show ?thesis by (simp add: identity_data_def) (metis bind.bind_lunit)
qed

lemma handshake_defined:
  assumes j: "record_shape (schema_field # (''extension'', extension_shape) #
    text_fields [''type'', ''owner_epoch'', ''adapter_epoch'', ''clock_domain_id'']) j"
  shows "\<exists>i. handshake_data j = Some i"
proof -
  have "\<exists>t. text_at k j = Some t" if "k \<in> set [''owner_epoch'', ''adapter_epoch'', ''clock_domain_id'']" for k
    using that by (auto simp: text_fields_def intro!: shape_text [OF j])
  moreover obtain e x where "member_at ''extension'' j = Some e" "extension_at e = Some x"
    using shape_member [OF j, of "''extension''" extension_shape] by (auto dest: extension_defined)
  ultimately show ?thesis by (simp add: handshake_data_def) (metis bind.bind_lunit)
qed

lemma try_ok_defined: "(\<And>x. r = Inr x \<Longrightarrow> f x \<noteq> None) \<Longrightarrow> try_ok r f \<noteq> None"
  by (simp add: try_ok_def split: sum.splits)

lemma read_call_defined:
  assumes "record_shape (dispatch_fields @ [(''request'', request_shape), (''context'', context_shape)]) j"
  shows "read_call lib j i \<noteq> None"
proof -
  obtain rq cx where "member_at ''request'' j = Some rq" "member_at ''context'' j = Some cx"
    using shape_member [OF assms, of "''request''" request_shape] shape_member [OF assms, of "''context''" context_shape] by auto
  then show ?thesis by (auto simp: read_call_def try_ok_def split: sum.splits)
qed

lemma outcome_members:
  assumes "outcome_shape out"
  obtains v where "member_at ''kind'' out = Some (JString ''response'')" "member_at ''response'' out = Some v"
    | v where "member_at ''kind'' out = Some (JString ''error'')" "member_at ''code'' out = Some v"
proof -
  obtain t table where t: "get_member ''kind'' out = JString t" and r: "record_shape table out"
    and c: "t = ''response'' \<and> table = [(''kind'', is_string), (''response'', response_shape)] \<or>
      t = ''error'' \<and> table = text_fields [''kind'', ''code'']"
    using assms by (auto simp: outcome_shape_def variant_shape_def split: json.splits if_splits)
  have "member_at ''kind'' out = Some (JString t)"
    using t by (simp add: get_member_def member_at_def split: option.splits)
  moreover have "(\<exists>v. member_at ''response'' out = Some v) \<or> t \<noteq> ''response''"
    using c shape_member [OF r, of "''response''" response_shape] by auto
  moreover have "(\<exists>v. member_at ''code'' out = Some v) \<or> t \<noteq> ''error''"
    using c shape_member [OF r, of "''code''" is_string] by (auto simp: text_fields_def)
  ultimately show thesis using that c by blast
qed

lemma read_result_defined:
  assumes "record_shape (dispatch_fields @ [(''outcome'', outcome_shape)]) j"
  shows "read_result lib j i \<noteq> None"
proof -
  obtain out where out: "member_at ''outcome'' j = Some out" "outcome_shape out"
    using shape_member [OF assms, of "''outcome''" outcome_shape] by auto
  from out(2) show ?thesis
    by (cases rule: outcome_members) (simp_all add: read_result_def out(1) try_ok_def split: sum.splits)
qed

lemma read_settled_defined:
  assumes "record_shape (dispatch_fields @ [(''settlement'', settlement_shape)]) j"
  shows "read_settled j i \<noteq> None"
proof -
  obtain s where s: "member_at ''settlement'' j = Some s" "settlement_shape s"
    using shape_member [OF assms, of "''settlement''" settlement_shape] by auto
  note m = shape_member [OF s(2) [unfolded settlement_shape_def]]
  obtain r e v where "member_at ''reason'' s = Some r" "member_at ''entry_state'' s = Some e"
    "member_at ''entered_at_ns'' s = Some v" "is_string v \<or> v = JNull"
    using m [of "''reason''" is_string] m [of "''entry_state''" is_string]
      m [of "''entered_at_ns''" "\<lambda>v. is_string v \<or> v = JNull"] by auto
  then show ?thesis
    by (auto simp: read_settled_def s(1) read_entered_def try_ok_def split: option.splits sum.splits json.splits elim!: is_string.elims)
qed

lemma read_frame_defined:
  assumes "frame_shape j"
  shows "read_frame lib j \<noteq> None"
proof -
  obtain t table where t: "get_member ''type'' j = JString t" and r: "record_shape table j"
    and c: "(t = ''hello'' \<or> t = ''hello_ack'') \<and> table = schema_field # (''extension'', extension_shape) #
          text_fields [''type'', ''owner_epoch'', ''adapter_epoch'', ''clock_domain_id''] \<or>
        t = ''call'' \<and> table = dispatch_fields @ [(''request'', request_shape), (''context'', context_shape)] \<or>
        t = ''accepted'' \<and> table = dispatch_fields @ [] \<or>
        t = ''entered'' \<and> table = dispatch_fields @ [(''entered_at_ns'', is_string)] \<or>
        t = ''result'' \<and> table = dispatch_fields @ [(''outcome'', outcome_shape)] \<or>
        t = ''cancel'' \<and> table = dispatch_fields @ [(''reason'', is_string)] \<or>
        t = ''settled'' \<and> table = dispatch_fields @ [(''settlement'', settlement_shape)]"
    using assms unfolding frame_shape_def variant_shape_def
    by (simp split: json.splits if_splits option.splits)
  have ty: "member_at ''type'' j = Some (JString t)"
    using t by (simp add: get_member_def member_at_def split: option.splits)
  have hello: "read_frame lib j \<noteq> None" if h1: "t = ''hello'' \<or> t = ''hello_ack''"
    and h2: "table = schema_field # (''extension'', extension_shape) # text_fields [''type'', ''owner_epoch'', ''adapter_epoch'', ''clock_domain_id'']"
  proof -
    obtain i where "handshake_data j = Some i" using handshake_defined r h2 by blast
    then show ?thesis using h1 by (auto simp: read_frame_def ty)
  qed
  have i: "\<exists>i. identity_data j = Some i" if "table = dispatch_fields @ more_fields" for more_fields
    using identity_defined r that by blast
  show ?thesis
    using c
  proof (elim disjE conjE)
    assume t': "t = ''call''" and m: "table = dispatch_fields @ [(''request'', request_shape), (''context'', context_shape)]"
    obtain i where "identity_data j = Some i" using i [OF m] by blast
    then show ?thesis using read_call_defined [OF r [unfolded m]] by (simp add: read_frame_def ty t' del: not_None_eq)
  next
    assume t': "t = ''entered''" and m: "table = dispatch_fields @ [(''entered_at_ns'', is_string)]"
    obtain i where "identity_data j = Some i" using i [OF m] by blast
    moreover obtain x where "text_at ''entered_at_ns'' j = Some x" using shape_text [OF r, of "''entered_at_ns''"] m by auto
    ultimately show ?thesis by (simp add: read_frame_def ty t' try_ok_defined del: not_None_eq)
  next
    assume t': "t = ''result''" and m: "table = dispatch_fields @ [(''outcome'', outcome_shape)]"
    obtain i where "identity_data j = Some i" using i [OF m] by blast
    then show ?thesis using read_result_defined [OF r [unfolded m]] by (simp add: read_frame_def ty t' del: not_None_eq)
  next
    assume t': "t = ''cancel''" and m: "table = dispatch_fields @ [(''reason'', is_string)]"
    obtain i where "identity_data j = Some i" using i [OF m] by blast
    moreover obtain x where "member_at ''reason'' j = Some x" using shape_member [OF r, of "''reason''" is_string] m by auto
    ultimately show ?thesis by (simp add: read_frame_def ty t' try_ok_defined del: not_None_eq)
  next
    assume t': "t = ''settled''" and m: "table = dispatch_fields @ [(''settlement'', settlement_shape)]"
    obtain i where "identity_data j = Some i" using i [OF m] by blast
    then show ?thesis using read_settled_defined [OF r [unfolded m]] by (simp add: read_frame_def ty t' del: not_None_eq)
  next
    assume t': "t = ''accepted''" and m: "table = dispatch_fields @ []"
    obtain i where "identity_data j = Some i" using i [OF m] by blast
    then show ?thesis by (simp add: read_frame_def ty t')
  qed (simp_all add: hello)
qed

text \<open>
  C7: After the prepass has accepted a document, the frame reader finds every member it takes, with the
  type it assumes: it answers with a frame or an error, and never indexes a missing member.
\<close>

theorem accepted_frame_readable:
  assumes "fst (feed frame_step (doc_events j) frame_preflight_init)"
  shows "\<exists>r. read_frame lib j = Some r"
  using assms read_frame_defined [of j lib] by (auto simp: frame_preflight_iff)

section \<open>Memory charges\<close>

lemma update_same: "map_of al k = Some v \<Longrightarrow> AList.update k v al = al"
  by (induction al) (auto split: if_splits)

lemma update_twice: "AList.update k v (AList.update k w al) = AList.update k v al"
  by (induction al) auto

lemma map_of_update_same: "map_of (AList.update k v al) k = Some v"
  by (simp add: update_conv')

lemma reserved_state:
  assumes "reserve_extra overhead i n st = (True, st')"
  obtains l where "map_of (cr_leases st) i = Some l" "ls_admission l"
    "st' = st\<lparr>cr_leases := AList.update i (l\<lparr>ls_extra := ls_extra l + (n + overhead), ls_charges := (n + overhead) # ls_charges l\<rparr>) (cr_leases st)\<rparr>"
  using assms by (auto simp: reserve_extra_def Let_def simp del: map_of_eq_Some_iff split: option.splits if_splits)

lemma refused_state: "reserve_extra overhead i n st = (False, st') \<Longrightarrow> st' = st"
  by (auto simp: reserve_extra_def Let_def split: option.splits if_splits)

text \<open>Releasing what was just reserved restores the state.\<close>

lemma reserve_release: "reserve_extra overhead i n st = (True, st') \<Longrightarrow> release_charge i (n + overhead) st' = st"
  by (erule reserved_state)
    (simp add: release_charge_def settle_lease_def map_of_update_same update_twice update_same del: map_of_eq_Some_iff)

text \<open>Releasing the first of two reservations leaves the second alone.\<close>

lemma reserve_release_first:
  assumes a: "reserve_extra overhead i w st = (True, st1)" and b: "reserve_extra overhead i n st1 = (True, st2)"
  shows "reserve_extra overhead i n st = (True, release_charge i (w + overhead) st2)"
proof -
  obtain l where l: "map_of (cr_leases st) i = Some l" "ls_admission l"
    and 1: "st1 = st\<lparr>cr_leases := AList.update i (l\<lparr>ls_extra := ls_extra l + (w + overhead), ls_charges := (w + overhead) # ls_charges l\<rparr>) (cr_leases st)\<rparr>"
    using a by (rule reserved_state)
  have fits: "n \<noteq> 0" "n \<le> EXTRA_BYTES_PER_LEASE - overhead" "n + overhead \<le> EXTRA_BYTES_PER_LEASE - ls_extra l"
    and 2: "st2 = st\<lparr>cr_leases := AList.update i (l\<lparr>ls_extra := ls_extra l + (w + overhead) + (n + overhead),
      ls_charges := (n + overhead) # (w + overhead) # ls_charges l\<rparr>) (cr_leases st)\<rparr>"
    using b l by (auto simp: 1 reserve_extra_def Let_def map_of_update_same update_twice simp del: map_of_eq_Some_iff
        split: if_splits)
  have "release_charge i (w + overhead) st2 = st\<lparr>cr_leases := AList.update i (l\<lparr>ls_extra := ls_extra l + (n + overhead),
      ls_charges := (n + overhead) # ls_charges l\<rparr>) (cr_leases st)\<rparr>"
    using l by (simp add: 2 release_charge_def settle_lease_def map_of_update_same update_twice del: map_of_eq_Some_iff)
  then show ?thesis using fits l by (simp add: reserve_extra_def Let_def del: map_of_eq_Some_iff)
qed

lemma with_charges_exact:
  "case with_charges overhead i work storage result st of
     (Inl e, st') \<Rightarrow> st' = st \<and> (result = Inl e \<or> e = RESOURCE_UNAVAILABLE)
   | (Inr x, st') \<Rightarrow> result = Inr x \<and> reserve_extra overhead i storage st = (True, st')"
proof (cases "reserve_extra overhead i work st")
  case (Pair ok st1)
  obtain ok2 st2 where 2: "reserve_extra overhead i storage st1 = (ok2, st2)" by force
  show ?thesis
    using Pair 2 refused_state [of overhead i work st st1] refused_state [of overhead i storage st1 st2]
      reserve_release [of overhead i work st st1] reserve_release [of overhead i storage st1 st2]
      reserve_release_first [of overhead i work st st1 storage st2]
    by (cases ok; cases ok2) (auto simp: with_charges_def split: sum.splits)
qed

text \<open>
  C16: Parsing and encoding a frame account for their memory exactly: a call that fails leaves the
  credits as they were, and one that succeeds leaves only the charge that the result owns.
\<close>

theorem frame_charges_exact:
  "(case parse_frame_payload overhead lib raw admission st of
      (Inl e, st') \<Rightarrow> st' = st
    | (Inr f, st') \<Rightarrow> (\<exists>i. admission = Some i \<and> reserve_extra overhead i DTO_BYTES st = (True, st'))) \<and>
   (case encode_frame overhead lib g admission st of
      (Inl e, st') \<Rightarrow> st' = st
    | (Inr b, st') \<Rightarrow> (\<exists>i. admission = Some i \<and> reserve_extra overhead i (MAX_WIRE_BYTES + 4) st = (True, st')))"
proof (cases admission)
  case (Some i)
  show ?thesis
    using with_charges_exact [where overhead = overhead and i = i and work = "3 * length raw + 12 * MIB" and storage = DTO_BYTES
        and result = "parse_payload lib raw" and st = st]
      with_charges_exact [where overhead = overhead and i = i and work = SERIAL_WORK_BYTES and storage = "MAX_WIRE_BYTES + 4"
        and result = "encode_payload lib g" and st = st] Some
    by (auto simp: parse_frame_payload_def encode_frame_def split: prod.splits sum.splits)
qed (simp add: parse_frame_payload_def encode_frame_def)

section \<open>Round trip\<close>

text \<open>The length header, big-endian.\<close>

lemma header_word:
  "push_bit 24 (ucast (ucast (drop_bit 24 n) :: 8 word) :: u32) OR push_bit 16 (ucast (ucast (drop_bit 16 n) :: 8 word)) OR
   push_bit 8 (ucast (ucast (drop_bit 8 n) :: 8 word)) OR ucast (ucast n :: 8 word) = n"
proof (rule bit_word_eqI)
  fix k assume k: "k < LENGTH(32)"
  consider "k < 8" | "8 \<le> k" "k < 16" | "16 \<le> k" "k < 24" | "24 \<le> k" "k < 32" using k by force
  then show "bit (push_bit 24 (ucast (ucast (drop_bit 24 n) :: 8 word) :: u32) OR
      push_bit 16 (ucast (ucast (drop_bit 16 n) :: 8 word)) OR push_bit 8 (ucast (ucast (drop_bit 8 n) :: 8 word)) OR
      ucast (ucast n :: 8 word)) k = bit n k"
    by cases (auto simp: bit_simps)
qed

lemma wire_length_word: "n \<le> MAX_WIRE_BYTES \<Longrightarrow> unat (of_nat n :: u32) = n"
  by (simp add: MAX_WIRE_BYTES_def unat_of_nat take_bit_nat_eq_self)

lemma decode_frame_header:
  assumes "0 < n" "n \<le> MAX_WIRE_BYTES"
  shows "decode_frame_length (ucast (drop_bit 24 (of_nat n :: u32))) (ucast (drop_bit 16 (of_nat n :: u32)))
    (ucast (drop_bit 8 (of_nat n :: u32))) (ucast (of_nat n :: u32)) = Inr (of_nat n)"
proof -
  have "(of_nat n :: u32) \<noteq> 0" using wire_length_word [OF assms(2)] assms(1) by (metis not_gr_zero unsigned_0)
  then show ?thesis unfolding decode_frame_length_def header_word using assms wire_length_word [OF assms(2)] by (simp add: Let_def)
qed

lemma text_of_bytes_of: "text_of (bytes_of s) = s"
proof -
  have "char_of (unat (of_nat (byte_of c) :: 8 word)) = c" for c
    using byte_of_bound [of c] by (simp add: unat_of_nat take_bit_nat_eq_self)
  then show ?thesis by (simp add: text_of_def bytes_of_def map_idI)
qed

text \<open>The documents written for a frame, given without the library.\<close>

definition body_text :: "binary \<Rightarrow> string" where
  "body_text b = (case encode_body64 b of Inr t \<Rightarrow> t | Inl _ \<Rightarrow> [])"

fun nested_docs :: "frame \<Rightarrow> json list" where
  "nested_docs (Call i r c) = [request_json r (body_text (nr_body r)), context_json c]"
| "nested_docs (Result i (ResponseOutcome r)) = [response_json r (body_text (rs_body r))]"
| "nested_docs _ = []"

fun plain_fields :: "frame \<Rightarrow> (string \<times> json) list" where
  "plain_fields (Hello i) = handshake_fields i"
| "plain_fields (HelloAck i) = handshake_fields i"
| "plain_fields (Call i r c) = identity_fields i @ [(''request'', request_json r (body_text (nr_body r))), (''context'', context_json c)]"
| "plain_fields (Accepted i) = identity_fields i"
| "plain_fields (Entered i ns) = identity_fields i @ [(''entered_at_ns'', JString (show_nat (unat ns)))]"
| "plain_fields (Result i (ResponseOutcome r)) = identity_fields i @ [(''outcome'', response_outcome (response_json r (body_text (rs_body r))))]"
| "plain_fields (Result i (FailureOutcome e)) = identity_fields i @ [(''outcome'', failure_outcome e)]"
| "plain_fields (CancelFrame i reason) = identity_fields i @ [(''reason'', JString (enum_name reason CANCELS))]"
| "plain_fields (Settled i s) = identity_fields i @ [(''settlement'', settlement_json s)]"

definition written_docs :: "frame \<Rightarrow> json list" where
  "written_docs f = frame_doc f (plain_fields f) # nested_docs f"

definition reads_back :: "json_lib \<Rightarrow> json \<Rightarrow> bool" where
  "reads_back lib d \<longleftrightarrow> json_parse lib (json_dump lib d) = Some d"

lemma write_json_dump: "write_json lib j r = Inr raw \<Longrightarrow> raw = json_dump lib j"
  by (cases "sax_parse lib pf_step (preflight_init r) (json_dump lib j)") (auto simp: write_json_def Let_def split: if_splits)

lemma request_written:
  "serialize_wire_request lib r = Inr raw \<Longrightarrow> raw = json_dump lib (request_json r (body_text (nr_body r)))"
  by (auto simp: serialize_wire_request_def body_text_def dest!: write_json_dump)

lemma response_written:
  "serialize_wire_response lib r = Inr raw \<Longrightarrow> raw = json_dump lib (response_json r (body_text (rs_body r)))"
  by (auto simp: serialize_wire_response_def body_text_def dest!: write_json_dump)

lemma context_written: "serialize_context lib c = Inr raw \<Longrightarrow> raw = json_dump lib (context_json c)"
  by (auto simp: serialize_context_def dest!: write_json_dump)

lemma mapped_Inr: "mapped r = Inr x \<longleftrightarrow> r = Inr x"
  by (cases r) auto

lemma try_ok_Inr: "try_ok r f = Some (Inr y) \<longleftrightarrow> (\<exists>x. r = Inr x \<and> f x = Some (Inr y))"
  by (auto simp: try_ok_def split: sum.splits)

lemma frame_fields_plain:
  assumes "frame_fields lib f = Some (Inr ms)" and "list_all (reads_back lib) (nested_docs f)"
  shows "ms = plain_fields f"
  using assms
  by (cases "(lib, f)" rule: frame_fields.cases)
    (auto simp: try_ok_Inr mapped_Inr reads_back_def dest!: request_written context_written response_written)

lemma enum_round_trip:
  "enum_value (JString (enum_name e ERRORS)) ERRORS = Some e" "enum_value (JString (enum_name r CANCELS)) CANCELS = Some r"
  "enum_value (JString (enum_name t SETTLEMENTS)) SETTLEMENTS = Some t" "enum_value (JString (enum_name n ENTRIES)) ENTRIES = Some n"
  by (cases e, simp_all add: ERRORS_def) (cases r, simp_all add: CANCELS_def, cases t, simp_all add: SETTLEMENTS_def,
      cases n, simp_all add: ENTRIES_def)

lemma identity_fields_read: "identity_data (frame_doc f (identity_fields i @ ms)) = Some i"
  by (cases i) (simp add: identity_data_def text_at_def member_at_def frame_doc_def identity_fields_def)

lemma extension_json_read: "extension_at (extension_json e) = Some e"
  by (cases e) (simp add: extension_at_def text_at_def member_at_def extension_json_def)

lemma handshake_fields_read: "handshake_data (frame_doc f (handshake_fields i)) = Some i"
  by (cases i) (simp add: handshake_data_def text_at_def member_at_def frame_doc_def handshake_fields_def extension_json_read)

lemma frame_doc_members:
  "member_at ''type'' (frame_doc f ms) = Some (JString (type_name f))"
  "k \<notin> set [''schema'', ''type''] \<Longrightarrow> member_at k (frame_doc f ms) = map_of ms k"
  "map_of (identity_fields i @ [(k, v)]) k' =
     (if k' \<in> set [''owner_epoch'', ''adapter_epoch'', ''dispatch_id'', ''generation_receipt_id''] then map_of (identity_fields i) k'
      else if k' = k then Some v else None)"
  by (auto simp: member_at_def frame_doc_def identity_fields_def)

lemma call_read_back:
  assumes "serialize_wire_request lib r = Inr a" "serialize_context lib c = Inr b"
    and "reads_back lib (request_json r (body_text (nr_body r)))" "reads_back lib (context_json c)"
  shows "parse_wire_request lib (json_dump lib (request_json r (body_text (nr_body r)))) = Inr r"
    and "parse_context lib (json_dump lib (context_json c)) = Inr c"
proof -
  have "parse_wire_request lib a = Inr r"
    using assms(1,3) by (intro request_read_back) (simp_all add: reads_back_def body_text_def)
  then show "parse_wire_request lib (json_dump lib (request_json r (body_text (nr_body r)))) = Inr r"
    using request_written [OF assms(1)] by simp
  show "parse_context lib (json_dump lib (context_json c)) = Inr c"
    using context_round_trip [OF assms(2)] context_written [OF assms(2)] assms(4) by (simp add: reads_back_def)
qed

lemma response_read_back:
  assumes "serialize_wire_response lib r = Inr a" and "reads_back lib (response_json r (body_text (rs_body r)))"
  shows "parse_wire_response lib (json_dump lib (response_json r (body_text (rs_body r)))) = Inr r"
proof -
  have "parse_wire_response lib a = Inr r"
    using assms by (intro wire_response_round_trip) (simp_all add: reads_back_def body_text_def)
  then show ?thesis using response_written [OF assms(1)] by simp
qed

lemma read_call_back:
  assumes "frame_fields lib (Call i r c) = Some (Inr ms)" and "list_all (reads_back lib) (nested_docs (Call i r c))"
  shows "read_call lib (frame_doc (Call i r c) (plain_fields (Call i r c))) i = Some (Inr (Call i r c))"
proof -
  obtain a b where s: "serialize_wire_request lib r = Inr a" "serialize_context lib c = Inr b"
    using assms(1) by (auto simp: try_ok_Inr mapped_Inr bind_eq_Some_conv)
  show ?thesis using call_read_back [OF s] assms(2)
    by (simp add: read_call_def member_at_def frame_doc_def identity_fields_def try_ok_def)
qed

lemma read_result_back:
  assumes "frame_fields lib (Result i out) = Some (Inr ms)" and "list_all (reads_back lib) (nested_docs (Result i out))"
  shows "read_result lib (frame_doc (Result i out) (plain_fields (Result i out))) i = Some (Inr (Result i out))"
proof (cases out)
  case (ResponseOutcome r)
  obtain a where s: "serialize_wire_response lib r = Inr a"
    using assms(1) by (auto simp: ResponseOutcome try_ok_Inr mapped_Inr)
  show ?thesis using response_read_back [OF s] assms(2)
    by (simp add: ResponseOutcome read_result_def member_at_def frame_doc_def identity_fields_def response_outcome_def try_ok_def)
next
  case (FailureOutcome e)
  show ?thesis
    using enum_round_trip(1) [of e]
    by (simp add: FailureOutcome read_result_def member_at_def frame_doc_def identity_fields_def failure_outcome_def try_ok_def some_or_invalid_def)
qed

lemma read_settled_back: "read_settled (frame_doc (Settled i s) (plain_fields (Settled i s))) i = Some (Inr (Settled i s))"
  using enum_round_trip(3) [of "se_reason s"] enum_round_trip(4) [of "se_entry_state s"]
  by (cases s; cases "se_entered_at_ns s")
    (simp_all add: read_settled_def member_at_def frame_doc_def identity_fields_def settlement_json_def read_entered_def
      try_ok_def parse_ns_show)

lemma read_frame_back:
  assumes "frame_fields lib f = Some (Inr ms)" and "list_all (reads_back lib) (nested_docs f)"
  shows "read_frame lib (frame_doc f (plain_fields f)) = Some (Inr f)"
proof (cases f)
  case (Entered i ns)
  then show ?thesis
    by (simp add: read_frame_def frame_doc_members(1) identity_fields_read)
      (simp add: text_at_def member_at_def frame_doc_def identity_fields_def parse_ns_show try_ok_def)
next
  case (CancelFrame i reason)
  then show ?thesis
    using enum_round_trip(2) [of reason]
    by (simp add: read_frame_def frame_doc_members(1) identity_fields_read)
      (simp add: member_at_def frame_doc_def identity_fields_def try_ok_def some_or_invalid_def)
next
  case (Accepted i)
  then show ?thesis using identity_fields_read [of f i "[]"] by (simp add: read_frame_def frame_doc_members(1))
next
  case (Call i r c)
  then show ?thesis using read_call_back [of lib i r c ms] assms by (simp add: read_frame_def frame_doc_members(1) identity_fields_read)
next
  case (Result i out)
  have "\<exists>v. plain_fields (Result i out) = identity_fields i @ [v]" by (cases out) simp_all
  then show ?thesis using Result read_result_back [of lib i out ms] assms
    by (auto simp: read_frame_def frame_doc_members(1) identity_fields_read)
next
  case (Settled i s)
  then show ?thesis using read_settled_back [of i s] by (simp add: read_frame_def frame_doc_members(1) identity_fields_read)
qed (simp_all add: read_frame_def frame_doc_members(1) handshake_fields_read)

lemma header_elems_metadata: "elem_metadata (map (\<lambda>(n, v). JArray [JString n, JString v]) hs) = headers_metadata hs"
  by (induction hs) (auto simp: headers_metadata_def)

lemma nested_metadata:
  "doc_metadata k (extension_json e) = extension_metadata e" "doc_metadata k (request_json r b) = request_metadata r"
  "doc_metadata k (response_json rs b) = headers_metadata (rs_headers rs)" "doc_metadata k (context_json c) = context_metadata c"
  by (simp_all add: extension_json_def extension_metadata_def request_json_def request_metadata_def response_json_def
      context_json_def context_metadata_def write_headers_def header_elems_metadata Let_def)

lemma plain_metadata: "doc_metadata [] (frame_doc f (plain_fields f)) = metadata_size f"
  by (cases f rule: plain_fields.cases)
    (simp_all add: frame_doc_def metadata_size_def identity_fields_def handshake_fields_def common_metadata_def
      handshake_metadata_def nested_metadata response_outcome_def failure_outcome_def settlement_json_def split: option.split)

lemma preflight_pass_bounds: "frame_preflight_pass lib raw = Inr () \<Longrightarrow> 0 < length raw \<and> length raw \<le> MAX_WIRE_BYTES"
  by (auto simp: frame_preflight_pass_def raw_bounds_def raw_bounds_with_def mapped_Inr split: if_splits)

lemma payload_round_trip:
  assumes enc: "encode_payload lib f = Inr bytes" and docs: "list_all (reads_back lib) (written_docs f)"
  obtains raw where "bytes = frame_header (of_nat (length raw)) @ bytes_of raw" "0 < length raw" "length raw \<le> MAX_WIRE_BYTES"
    "parse_payload lib raw = Inr f"
proof -
  obtain raw where v: "validate_data f = Inr ()" and w: "caught (write_frame lib f) = Inr raw"
    and p: "frame_preflight_pass lib raw = Inr ()" and b: "bytes = frame_header (of_nat (length raw)) @ bytes_of raw"
    using enc by (auto simp: encode_payload_def)
  from w have "write_frame lib f = Some (Inr raw)" by (auto simp: caught_def split: option.splits)
  then obtain ms where ms: "frame_fields lib f = Some (Inr ms)" and raw: "raw = json_dump lib (frame_doc f ms)"
    by (auto simp: write_frame_def try_ok_Inr bind_eq_Some_conv)
  have n: "list_all (reads_back lib) (nested_docs f)" using docs by (simp add: written_docs_def)
  have raw': "raw = json_dump lib (frame_doc f (plain_fields f))" using raw frame_fields_plain [OF ms n] by simp
  then have "json_parse lib raw = Some (frame_doc f (plain_fields f))"
    using docs by (simp add: written_docs_def reads_back_def)
  then have "parse_payload lib raw = Inr f"
    using p v read_frame_back [OF ms n] by (simp add: parse_payload_def caught_def)
  then show thesis using that b preflight_pass_bounds [OF p] by blast
qed

lemma reserve_extra_fits:
  assumes "map_of (cr_leases st) i = Some l" "ls_admission l" "0 < n" "ls_extra l + n + overhead \<le> EXTRA_BYTES_PER_LEASE"
  shows "reserve_extra overhead i n st = (True, st\<lparr>cr_leases := AList.update i
    (l\<lparr>ls_extra := ls_extra l + (n + overhead), ls_charges := (n + overhead) # ls_charges l\<rparr>) (cr_leases st)\<rparr>)"
proof -
  have "\<not> EXTRA_BYTES_PER_LEASE - overhead < n" "\<not> EXTRA_BYTES_PER_LEASE - ls_extra l < n + overhead" using assms(4) by linarith+
  then show ?thesis using assms(1-3) by (simp add: reserve_extra_def Let_def del: map_of_eq_Some_iff)
qed

lemma with_charges_fits:
  assumes "map_of (cr_leases st) i = Some l" "ls_admission l" "0 < work" "0 < storage"
    and "ls_extra l + work + storage + 2 * overhead \<le> EXTRA_BYTES_PER_LEASE"
  shows "fst (with_charges overhead i work storage (Inr x) st) = Inr x"
proof -
  define l1 where "l1 = l\<lparr>ls_extra := ls_extra l + (work + overhead), ls_charges := (work + overhead) # ls_charges l\<rparr>"
  define st1 where "st1 = st\<lparr>cr_leases := AList.update i l1 (cr_leases st)\<rparr>"
  have 1: "reserve_extra overhead i work st = (True, st1)"
    unfolding st1_def l1_def by (rule reserve_extra_fits) (use assms in simp_all)
  have "map_of (cr_leases st1) i = Some l1" by (simp add: st1_def map_of_update_same)
  from reserve_extra_fits [OF this, of storage overhead]
  obtain st2 where "reserve_extra overhead i storage st1 = (True, st2)" using assms by (auto simp: l1_def)
  with 1 show ?thesis by (simp add: with_charges_def)
qed

text \<open>
  C6: What \<open>encode_frame\<close> writes, header included, \<open>parse_framed_buffer\<close> reads back as the same frame, on
  any admission whose memory is not otherwise used up. Of the JSON library it is assumed that it reads
  back the documents it has written for this frame.
\<close>

theorem frame_round_trip:
  assumes "fst (encode_frame overhead lib f (Some i) st) = Inr bytes"
    and "list_all (reads_back lib) (written_docs f)"
    and "map_of (cr_leases st') k = Some l" "ls_admission l"
      "ls_extra l + 3 * MAX_WIRE_BYTES + 12 * MIB + DTO_BYTES + 2 * overhead \<le> EXTRA_BYTES_PER_LEASE"
  shows "fst (parse_framed_buffer overhead lib bytes (Some k) st') = Inr f"
proof -
  obtain st1 where e: "encode_frame overhead lib f (Some i) st = (Inr bytes, st1)" using assms(1) by (metis prod.collapse)
  then have "encode_payload lib f = Inr bytes"
    using with_charges_exact [where overhead = overhead and i = i and work = SERIAL_WORK_BYTES and storage = "MAX_WIRE_BYTES + 4"
        and result = "encode_payload lib f" and st = st] by (simp add: encode_frame_def)
  from payload_round_trip [OF this assms(2)] obtain raw where
    b: "bytes = frame_header (of_nat (length raw)) @ bytes_of raw" and n: "0 < length raw" "length raw \<le> MAX_WIRE_BYTES"
    and p: "parse_payload lib raw = Inr f" by blast
  have "fst (with_charges overhead k (3 * length raw + 12 * MIB) DTO_BYTES (Inr f) st') = Inr f"
    using n assms(5) by (intro with_charges_fits [OF assms(3,4)]) (simp_all add: DTO_BYTES_def)
  then have "fst (parse_frame_payload overhead lib raw (Some k) st') = Inr f"
    using n p by (simp add: parse_frame_payload_def)
  then show ?thesis
    using n decode_frame_header [OF n] wire_length_word [OF n(2)]
    by (simp add: parse_framed_buffer_def b frame_header_def text_of_bytes_of) (simp add: bytes_of_def)
qed

text \<open>
  C28: The metadata size that \<open>validate_data\<close> computes for a frame is exactly what the prepass counts on
  the document written for it, so the two limits are the same limit.
\<close>

theorem frame_metadata_exact:
  assumes "frame_fields lib f = Some (Inr ms)" and "list_all (reads_back lib) (nested_docs f)"
  shows "doc_metadata [] (frame_doc f ms) = metadata_size f"
  using frame_fields_plain [OF assms] by (simp add: plain_metadata)

section \<open>A concrete frame\<close>

definition sample_settled :: frame where
  "sample_settled = Settled
     \<lparr>fi_owner_epoch = sample_uuid, fi_adapter_epoch = sample_uuid, fi_dispatch_id = sample_uuid,
      fi_generation_receipt_id = sample_uuid\<rparr>
     \<lparr>se_reason = COMPLETED, se_entry_state = ENTERED, se_entered_at_ns = Some 17\<rparr>"

definition sample_frame_doc :: json where
  "sample_frame_doc = frame_doc sample_settled (plain_fields sample_settled)"

abbreviation sample_lib :: json_lib where
  "sample_lib \<equiv> plain_lib sample_frame_doc"

lemma sample_reads_back: "list_all (reads_back sample_lib) (written_docs sample_settled)"
  by (simp add: written_docs_def reads_back_def plain_lib_def sample_frame_doc_def) (simp add: sample_settled_def)

lemma sample_frame_shape: "frame_shape sample_frame_doc"
  by code_simp

lemma sample_frame_counts: "doc_nodes sample_frame_doc \<le> 1024" "metadata_size sample_settled \<le> MAX_METADATA_BYTES"
proof -
  have "doc_nodes sample_frame_doc = 11" "metadata_size sample_settled = 169" by code_simp+
  then show "doc_nodes sample_frame_doc \<le> 1024" "metadata_size sample_settled \<le> MAX_METADATA_BYTES"
    by (simp_all add: MAX_METADATA_BYTES_def)
qed

lemma sample_frame_accepted: "fst (feed frame_step (doc_events sample_frame_doc) frame_preflight_init)"
  using sample_frame_shape sample_frame_counts by (simp add: frame_preflight_iff sample_frame_doc_def plain_metadata)

theorem accepted_frame_readable_witness: "\<exists>r. read_frame sample_lib sample_frame_doc = Some r"
  by (rule accepted_frame_readable [OF sample_frame_accepted])

theorem frame_metadata_exact_witness: "doc_metadata [] sample_frame_doc = metadata_size sample_settled"
proof -
  have "frame_fields sample_lib sample_settled = Some (Inr (plain_fields sample_settled))" by (simp add: sample_settled_def)
  then show ?thesis unfolding sample_frame_doc_def by (rule frame_metadata_exact) (simp add: sample_settled_def)
qed

abbreviation sample_raw_frame :: string where
  "sample_raw_frame \<equiv> plain_dump sample_frame_doc"

definition sample_bytes :: binary where
  "sample_bytes = frame_header (of_nat (length sample_raw_frame)) @ bytes_of sample_raw_frame"

definition sample_credits :: credits where
  "sample_credits = admit ''demo'' 5 0 credits_init"

lemma sample_lease: "\<exists>l. map_of (cr_leases sample_credits) 0 = Some l \<and> ls_admission l \<and> ls_extra l = OWNER_BOOKKEEPING_BYTES"
  by (simp add: sample_credits_def admit_def credits_init_def Let_def)

lemma sample_raw_length: "length sample_raw_frame < 1000" "sample_raw_frame \<noteq> []"
  by code_simp+

lemma sample_pass: "frame_preflight_pass sample_lib sample_raw_frame = Inr ()"
proof -
  have "bounds_scan decoded_key sample_raw_frame False 0 = Inr 0" "list_all ascii sample_raw_frame" by code_simp+
  then have "raw_bounds sample_raw_frame = Inr ()"
    using sample_raw_length ascii_utf8
    by (simp add: raw_bounds_def raw_bounds_with_def MAX_WIRE_BYTES_def MAX_ENCODED_METADATA_BYTES_def)
  moreover have "fst (sax_parse sample_lib frame_step frame_preflight_init sample_raw_frame)"
    using sample_frame_accepted by (auto simp: sax_parse_def plain_lib_def split: prod.splits)
  ultimately show ?thesis by (auto simp: frame_preflight_pass_def split: prod.splits)
qed

lemma sample_encoded: "encode_payload sample_lib sample_settled = Inr sample_bytes"
proof -
  have "validate_data sample_settled = Inr ()"
    using sample_frame_counts(2) sample_uuid_ok enum_round_trip(3) [of COMPLETED] enum_round_trip(4) [of ENTERED]
    by (simp add: validate_data_def) (simp add: sample_settled_def valid_frame_identity_def SETTLEMENTS_def ENTRIES_def)
  moreover have "write_frame sample_lib sample_settled = Some (Inr sample_raw_frame)"
    by (simp add: write_frame_def sample_frame_doc_def) (simp add: sample_settled_def try_ok_def plain_lib_def)
  ultimately show ?thesis using sample_pass by (simp add: encode_payload_def caught_def sample_bytes_def)
qed

theorem frame_round_trip_witness:
  "fst (parse_framed_buffer 24 sample_lib sample_bytes (Some 0) sample_credits) = Inr sample_settled"
proof -
  obtain l where l: "map_of (cr_leases sample_credits) 0 = Some l" "ls_admission l" "ls_extra l = OWNER_BOOKKEEPING_BYTES"
    using sample_lease by blast
  note bounds = EXTRA_BYTES_PER_LEASE_def OWNER_BOOKKEEPING_BYTES_def MAX_WIRE_BYTES_def MAX_BODY_BYTES_def MIB_def
    DTO_BYTES_def SERIAL_WORK_BYTES_def
  have "fst (encode_frame 24 sample_lib sample_settled (Some 0) sample_credits) = Inr sample_bytes"
    unfolding encode_frame_def option.case sample_encoded by (rule with_charges_fits [OF l(1,2)]) (simp_all add: l(3) bounds)
  from frame_round_trip [OF this sample_reads_back l(1,2)] l(3) show ?thesis by (simp add: bounds)
qed

end
