(* ===== verification/Rate_Limiter.thy ===== *)
theory Rate_Limiter
  imports Prelude
begin

text \<open>
  The in-memory sliding-window rate limiter, \<^verbatim>\<open>src/kernel/auth/rate_limiter.cpp\<close>.
  The mutex makes every public operation atomic, so each is one function on the state. Every
  call of \<^verbatim>\<open>steady_clock::now()\<close> is modelled: \<open>clk i\<close> is the value of the
  \<open>i\<close>-th call and the state counts the calls made so far.
\<close>

section \<open>State and operations\<close>

record rl_options =
  rl_max_attempts :: nat
  rl_window :: int
  rl_max_keys :: nat

record rate_limiter =
  rl_opts :: rl_options
  rl_attempts :: "(string \<times> time_ns list) list"
  rl_reads :: nat

datatype rl_error = InvalidArgument

definition default_options :: rl_options where
  "default_options = \<lparr>rl_max_attempts = 5, rl_window = 60, rl_max_keys = 4096\<rparr>"

definition make_rate_limiter :: "rl_options \<Rightarrow> rl_error + rate_limiter" where
  "make_rate_limiter o' =
     (if rl_max_attempts o' = 0 \<or> rl_window o' \<le> 0 \<or> rl_max_keys o' = 0
      then Inl InvalidArgument
      else Inr \<lparr>rl_opts = o', rl_attempts = [], rl_reads = 0\<rparr>)"

abbreviation window_ns :: "rl_options \<Rightarrow> time_ns" where
  "window_ns o' \<equiv> rl_window o' * second_ns"

text \<open>\<^verbatim>\<open>attempts[key]\<close>: the entries of a key, an empty deque for an absent one.\<close>

definition entries_in :: "(string \<times> time_ns list) list \<Rightarrow> string \<Rightarrow> time_ns list" where
  "entries_in m key = (case map_of m key of None \<Rightarrow> [] | Some es \<Rightarrow> es)"

definition purge_expired :: "rl_options \<Rightarrow> time_ns \<Rightarrow> time_ns list \<Rightarrow> time_ns list" where
  "purge_expired o' now entries = dropWhile (\<lambda>e. e < now - window_ns o') entries"

fun purge_stale_keys ::
  "clock \<Rightarrow> rl_options \<Rightarrow> nat \<Rightarrow> (string \<times> time_ns list) list \<Rightarrow> nat \<times> (string \<times> time_ns list) list"
where
  "purge_stale_keys clk o' n [] = (n, [])"
| "purge_stale_keys clk o' n ((k, entries) # m) =
     (let entries' = purge_expired o' (clk n) entries;
          (n', m') = purge_stale_keys clk o' (Suc n) m
      in (n', if entries' = [] then m' else (k, entries') # m'))"

definition ensure_key_available :: "clock \<Rightarrow> rate_limiter \<Rightarrow> string \<Rightarrow> bool \<times> rate_limiter" where
  "ensure_key_available clk s key =
     (if map_of (rl_attempts s) key \<noteq> None then (True, s)
      else
        let s' = (if length (rl_attempts s) \<ge> rl_max_keys (rl_opts s)
                  then (let (n, m) = purge_stale_keys clk (rl_opts s) (rl_reads s) (rl_attempts s)
                        in s\<lparr>rl_attempts := m, rl_reads := n\<rparr>)
                  else s)
        in (length (rl_attempts s') < rl_max_keys (rl_opts s'), s'))"

definition check :: "clock \<Rightarrow> rate_limiter \<Rightarrow> string \<Rightarrow> bool \<times> rate_limiter" where
  "check clk s ip =
     (case map_of (rl_attempts s) ip of
        None \<Rightarrow> ensure_key_available clk s ip
      | Some entries \<Rightarrow>
          let entries' = purge_expired (rl_opts s) (clk (rl_reads s)) entries;
              n = Suc (rl_reads s)
          in if entries' = []
             then (True, s\<lparr>rl_attempts := AList.delete ip (rl_attempts s), rl_reads := n\<rparr>)
             else (length entries' < rl_max_attempts (rl_opts s),
                   s\<lparr>rl_attempts := AList.update ip entries' (rl_attempts s), rl_reads := n\<rparr>))"

definition consume :: "clock \<Rightarrow> rate_limiter \<Rightarrow> string \<Rightarrow> bool \<times> rate_limiter" where
  "consume clk s key =
     (let (ok, s1) = ensure_key_available clk s key
      in if \<not> ok then (False, s1)
         else
           let entries = purge_expired (rl_opts s1) (clk (rl_reads s1)) (entries_in (rl_attempts s1) key);
               s2 = s1\<lparr>rl_attempts := AList.update key entries (rl_attempts s1),
                       rl_reads := Suc (rl_reads s1)\<rparr>
           in if length entries \<ge> rl_max_attempts (rl_opts s1) then (False, s2)
              else (True, s2\<lparr>rl_attempts := AList.update key (entries @ [clk (rl_reads s2)]) (rl_attempts s2),
                             rl_reads := Suc (rl_reads s2)\<rparr>))"

definition record_failure :: "clock \<Rightarrow> rate_limiter \<Rightarrow> string \<Rightarrow> rate_limiter" where
  "record_failure clk s ip =
     (let (ok, s1) = ensure_key_available clk s ip
      in if \<not> ok then s1
         else
           let entries = purge_expired (rl_opts s1) (clk (rl_reads s1)) (entries_in (rl_attempts s1) ip);
               n = Suc (rl_reads s1)
           in s1\<lparr>rl_attempts := AList.update ip (entries @ [clk n]) (rl_attempts s1),
                  rl_reads := Suc n\<rparr>)"

definition retry_after :: "clock \<Rightarrow> rate_limiter \<Rightarrow> string \<Rightarrow> int \<times> rate_limiter" where
  "retry_after clk s ip =
     (case map_of (rl_attempts s) ip of
        None \<Rightarrow>
          (if length (rl_attempts s) \<ge> rl_max_keys (rl_opts s)
           then (to_int32 (rl_window (rl_opts s)), s) else (0, s))
      | Some entries \<Rightarrow>
          let entries' = purge_expired (rl_opts s) (clk (rl_reads s)) entries;
              s1 = s\<lparr>rl_attempts := AList.update ip entries' (rl_attempts s),
                     rl_reads := Suc (rl_reads s)\<rparr>
          in if length entries' < rl_max_attempts (rl_opts s) then (0, s1)
             else
               let oldest = hd entries';
                   expires_at = oldest + window_ns (rl_opts s);
                   remaining = trunc_div (expires_at - clk (rl_reads s1)) second_ns
               in (max 1 (to_int32 remaining), s1\<lparr>rl_reads := Suc (rl_reads s1)\<rparr>))"

definition reset :: "rate_limiter \<Rightarrow> string \<Rightarrow> rate_limiter" where
  "reset s key = s\<lparr>rl_attempts := AList.delete key (rl_attempts s)\<rparr>"

definition tracked_keys :: "rate_limiter \<Rightarrow> nat" where
  "tracked_keys s = length (rl_attempts s)"

section \<open>Runs\<close>

text \<open>
  A run is a sequence of calls. Its log holds, for every successful \<open>consume\<close>, the key and
  the time stored for it.
\<close>

datatype rl_call = Check string | Consume string | RecordFailure string | RetryAfter string | Reset string

type_synonym rl_log = "(string \<times> time_ns) list"

fun rl_step :: "clock \<Rightarrow> rate_limiter \<times> rl_log \<Rightarrow> rl_call \<Rightarrow> rate_limiter \<times> rl_log" where
  "rl_step clk (s, l) (Check k) = (snd (check clk s k), l)"
| "rl_step clk (s, l) (Consume k) =
     (let (ok, s') = consume clk s k
      in (s', if ok then l @ [(k, clk (rl_reads s' - 1))] else l))"
| "rl_step clk (s, l) (RecordFailure k) = (record_failure clk s k, l)"
| "rl_step clk (s, l) (RetryAfter k) = (snd (retry_after clk s k), l)"
| "rl_step clk (s, l) (Reset k) = (reset s k, l)"

definition rl_run :: "clock \<Rightarrow> rate_limiter \<times> rl_log \<Rightarrow> rl_call list \<Rightarrow> rate_limiter \<times> rl_log" where
  "rl_run clk c xs = foldl (rl_step clk) c xs"

definition admitted :: "rl_log \<Rightarrow> string \<Rightarrow> time_ns list" where
  "admitted l k = map snd (filter (\<lambda>e. fst e = k) l)"


section \<open>Well-formedness\<close>

definition rl_wf :: "rate_limiter \<Rightarrow> bool" where
  "rl_wf s \<longleftrightarrow>
     0 < rl_max_attempts (rl_opts s) \<and> 0 < rl_window (rl_opts s) \<and>
     distinct_keys (rl_attempts s) \<and> length (rl_attempts s) \<le> rl_max_keys (rl_opts s)"

lemma make_rate_limiter_wf:
  "make_rate_limiter o' = Inr s \<Longrightarrow> rl_wf s \<and> rl_attempts s = []"
  by (auto simp: make_rate_limiter_def rl_wf_def split: if_splits)

lemma purge_stale_keys_subset:
  "set (keys (snd (purge_stale_keys clk o' n m))) \<subseteq> set (keys m)"
proof (induction m arbitrary: n)
  case (Cons e m)
  then show ?case
    using Cons.IH [of "Suc n"] by (cases e) (auto simp: Let_def case_prod_beta split: if_splits)
qed simp

lemma purge_stale_keys_distinct:
  "distinct_keys m \<Longrightarrow> distinct_keys (snd (purge_stale_keys clk o' n m))"
proof (induction m arbitrary: n)
  case (Cons e m)
  then show ?case
    using purge_stale_keys_subset [of clk o' "Suc n" m]
    by (cases e) (auto simp: Let_def case_prod_beta)
qed simp

lemma purge_stale_keys_length:
  "length (snd (purge_stale_keys clk o' n m)) \<le> length m"
  by (induction m arbitrary: n) (auto simp: Let_def case_prod_beta le_SucI)

lemma purge_stale_keys_reads:
  "fst (purge_stale_keys clk o' n m) = n + length m"
  by (induction m arbitrary: n) (auto simp: Let_def case_prod_beta)

text \<open>
  The entries of a key after a sweep: those a purge at some reading between the first and the
  last of the sweep keeps.
\<close>

lemma purge_stale_keys_lookup:
  assumes "distinct_keys m"
  shows "\<exists>i\<ge>n. i \<le> n + length m \<and>
    entries_in (snd (purge_stale_keys clk o' n m)) k = purge_expired o' (clk i) (entries_in m k)"
  using assms
proof (induction m arbitrary: n)
  case Nil
  then show ?case by (auto simp: purge_expired_def entries_in_def)
next
  case (Cons e m)
  obtain k' es where e: "e = (k', es)" by force
  show ?case
  proof (cases "k = k'")
    case True
    have "k \<notin> set (keys (snd (purge_stale_keys clk o' (Suc n) m)))"
      using Cons.prems True e purge_stale_keys_subset [of clk o' "Suc n" m] by auto
    then have "map_of (snd (purge_stale_keys clk o' (Suc n) m)) k = None"
      by (simp add: map_of_eq_None_iff)
    with True e have "entries_in (snd (purge_stale_keys clk o' n (e # m))) k =
        purge_expired o' (clk n) (entries_in (e # m) k)"
      by (simp add: Let_def case_prod_beta entries_in_def)
    then show ?thesis by (intro exI [of _ n]) simp
  next
    case False
    from Cons.IH [of "Suc n"] Cons.prems obtain i where
      i: "Suc n \<le> i" "i \<le> Suc n + length m" "entries_in (snd (purge_stale_keys clk o' (Suc n) m)) k =
        purge_expired o' (clk i) (entries_in m k)"
      by auto
    from False e i(3) have "entries_in (snd (purge_stale_keys clk o' n (e # m))) k =
        purge_expired o' (clk i) (entries_in (e # m) k)"
      by (simp add: Let_def case_prod_beta entries_in_def)
    with i(1,2) show ?thesis by (intro exI [of _ i]) simp
  qed
qed


lemma ensure_key_available_cases:
  assumes "ensure_key_available clk s key = (ok, s1)"
  shows "rl_opts s1 = rl_opts s"
    and "rl_wf s \<Longrightarrow> rl_wf s1"
    and "rl_reads s \<le> rl_reads s1"
    and "ok \<Longrightarrow> map_of (rl_attempts s1) key \<noteq> None \<or> length (rl_attempts s1) < rl_max_keys (rl_opts s1)"
    and "distinct_keys (rl_attempts s) \<Longrightarrow> \<exists>i\<le>rl_reads s1.
           entries_in (rl_attempts s1) k = entries_in (rl_attempts s) k \<or>
           entries_in (rl_attempts s1) k = purge_expired (rl_opts s) (clk i) (entries_in (rl_attempts s) k)"
proof -
  let ?p = "purge_stale_keys clk (rl_opts s) (rl_reads s) (rl_attempts s)"
  note defs = assms ensure_key_available_def Let_def case_prod_beta
  note p = purge_stale_keys_reads [of clk "rl_opts s" "rl_reads s" "rl_attempts s"]
  show "rl_opts s1 = rl_opts s" "rl_reads s \<le> rl_reads s1"
    using assms p by (auto simp: ensure_key_available_def Let_def case_prod_beta split: if_splits)
  show "rl_wf s1" if "rl_wf s"
    using that assms purge_stale_keys_distinct [of "rl_attempts s"]
      order_trans [OF purge_stale_keys_length [of clk "rl_opts s" "rl_reads s" "rl_attempts s"]]
    by (auto simp: rl_wf_def ensure_key_available_def Let_def case_prod_beta split: if_splits)
  show "map_of (rl_attempts s1) key \<noteq> None \<or> length (rl_attempts s1) < rl_max_keys (rl_opts s1)" if ok
    using that assms by (auto simp: ensure_key_available_def Let_def case_prod_beta split: if_splits)
  show "\<exists>i\<le>rl_reads s1. entries_in (rl_attempts s1) k = entries_in (rl_attempts s) k \<or>
      entries_in (rl_attempts s1) k = purge_expired (rl_opts s) (clk i) (entries_in (rl_attempts s) k)"
    if "distinct_keys (rl_attempts s)"
    using assms p purge_stale_keys_lookup [OF that, of "rl_reads s" clk "rl_opts s" k]
    by (fastforce simp: ensure_key_available_def Let_def case_prod_beta split: if_splits)
qed

lemma rl_wf_update:
  "rl_wf s \<Longrightarrow> map_of (rl_attempts s) k \<noteq> None \<or> length (rl_attempts s) < rl_max_keys (rl_opts s)
   \<Longrightarrow> rl_wf (s\<lparr>rl_attempts := AList.update k es (rl_attempts s), rl_reads := n\<rparr>)"
  by (auto simp: rl_wf_def length_update)


lemma ensure_key_available_wf [wf_preserved]:
  "rl_wf s \<Longrightarrow> rl_wf (snd (ensure_key_available clk s k))"
  by (rule ensure_key_available_cases(2) [OF surjective_pairing])

lemma check_wf [wf_preserved]: "rl_wf s \<Longrightarrow> rl_wf (snd (check clk s k))"
proof (cases "map_of (rl_attempts s) k")
  case None
  assume "rl_wf s"
  with None show ?thesis by (simp add: check_def wf_preserved)
next
  case (Some es)
  assume "rl_wf s"
  with Some show ?thesis
    by (auto simp: check_def Let_def rl_wf_def length_update le_trans [OF length_delete_le])
qed

lemma consume_wf [wf_preserved]:
  assumes "rl_wf s"
  shows "rl_wf (snd (consume clk s k))"
proof -
  obtain ok s1 where e: "ensure_key_available clk s k = (ok, s1)" by force
  have "rl_wf s1" by (rule ensure_key_available_cases(2) [OF e assms])
  then show ?thesis
    using ensure_key_available_cases(4) [OF e]
    by (auto simp: consume_def e Let_def rl_wf_def length_update)
qed

lemma record_failure_wf [wf_preserved]:
  assumes "rl_wf s"
  shows "rl_wf (record_failure clk s k)"
proof -
  obtain ok s1 where e: "ensure_key_available clk s k = (ok, s1)" by force
  have "rl_wf s1" by (rule ensure_key_available_cases(2) [OF e assms])
  then show ?thesis
    using ensure_key_available_cases(4) [OF e]
    by (auto simp: record_failure_def e Let_def rl_wf_def length_update)
qed

lemma retry_after_wf [wf_preserved]: "rl_wf s \<Longrightarrow> rl_wf (snd (retry_after clk s k))"
  by (auto simp: retry_after_def Let_def rl_wf_def length_update split: option.splits)

lemma reset_wf [wf_preserved]: "rl_wf s \<Longrightarrow> rl_wf (reset s k)"
  by (auto simp: reset_def rl_wf_def le_trans [OF length_delete_le])

lemma rl_step_wf: "rl_wf (fst c) \<Longrightarrow> rl_wf (fst (rl_step clk c x))"
  by (cases c; cases x) (auto simp: wf_preserved case_prod_beta)


section \<open>The sliding window\<close>

text \<open>
  A transition keeps the recent entries of a key when no entry younger than the window before
  the next clock reading is lost.
\<close>

definition recent :: "rate_limiter \<Rightarrow> string \<Rightarrow> time_ns \<Rightarrow> nat" where
  "recent s k c = length (filter (\<lambda>e. c \<le> e) (entries_in (rl_attempts s) k))"

definition keeps_recent :: "clock \<Rightarrow> rate_limiter \<Rightarrow> rate_limiter \<Rightarrow> string \<Rightarrow> bool" where
  "keeps_recent clk s s' k \<longleftrightarrow>
     rl_opts s' = rl_opts s \<and> rl_reads s \<le> rl_reads s' \<and>
     (\<forall>c. clk (rl_reads s') - window_ns (rl_opts s) \<le> c \<longrightarrow> recent s k c \<le> recent s' k c)"

lemma filter_purge_expired:
  "now - window_ns o' \<le> c \<Longrightarrow> filter (\<lambda>e. c \<le> e) (purge_expired o' now es) = filter (\<lambda>e. c \<le> e) es"
  unfolding purge_expired_def by (rule filter_dropWhile_weaker) auto

lemma entries_in_update:
  "entries_in (AList.update k es m) k' = (if k' = k then es else entries_in m k')"
  by (simp add: entries_in_def)

lemma entries_in_delete:
  "entries_in (AList.delete k m) k' = (if k' = k then [] else entries_in m k')"
  by (simp add: entries_in_def)

lemma ensure_key_available_keeps:
  assumes "mono clk" and "rl_wf s" and e: "ensure_key_available clk s key = (ok, s1)"
  shows "keeps_recent clk s s1 k"
proof -
  from assms(2) have d: "distinct_keys (rl_attempts s)" by (simp add: rl_wf_def)
  obtain i where i: "i \<le> rl_reads s1"
    and c: "entries_in (rl_attempts s1) k = entries_in (rl_attempts s) k \<or>
      entries_in (rl_attempts s1) k = purge_expired (rl_opts s) (clk i) (entries_in (rl_attempts s) k)"
    using ensure_key_available_cases(5) [OF e d] by blast
  from i assms(1) have "clk i \<le> clk (rl_reads s1)" by (simp add: monoD)
  with c show ?thesis
    using ensure_key_available_cases(1,3) [OF e]
    by (auto simp: keeps_recent_def recent_def filter_purge_expired)
qed


lemma keeps_recentD:
  "keeps_recent clk s s' k \<Longrightarrow> clk (rl_reads s') - window_ns (rl_opts s) \<le> c \<Longrightarrow> recent s k c \<le> recent s' k c"
  by (simp add: keeps_recent_def)

lemma keeps_recent_clock:
  "mono clk \<Longrightarrow> keeps_recent clk s s' k \<Longrightarrow> clk (rl_reads s) \<le> clk (rl_reads s')"
  by (simp add: keeps_recent_def monoD)

lemma keeps_recent_trans:
  assumes "mono clk" "keeps_recent clk s s1 k" "keeps_recent clk s1 s2 k"
  shows "keeps_recent clk s s2 k"
  unfolding keeps_recent_def
proof (intro conjI allI impI)
  show "rl_opts s2 = rl_opts s" "rl_reads s \<le> rl_reads s2"
    using assms(2,3) by (auto simp: keeps_recent_def)
  fix c assume c: "clk (rl_reads s2) - window_ns (rl_opts s) \<le> c"
  have "recent s k c \<le> recent s1 k c"
    using keeps_recent_clock [OF assms(1,3)] c by (intro keeps_recentD [OF assms(2)]) linarith
  also have "\<dots> \<le> recent s2 k c"
    using assms(2) c by (intro keeps_recentD [OF assms(3)]) (simp add: keeps_recent_def)
  finally show "recent s k c \<le> recent s2 k c" .
qed

text \<open>Storing a purged list, possibly with new entries behind it, keeps the recent entries.\<close>

lemma keeps_recent_store:
  assumes "mono clk" and "rl_reads s \<le> n"
  shows "keeps_recent clk s
    (s\<lparr>rl_attempts := AList.update key
         (purge_expired (rl_opts s) (clk (rl_reads s)) (entries_in (rl_attempts s) key) @ es) (rl_attempts s),
       rl_reads := n\<rparr>) k"
proof -
  from assms have "clk (rl_reads s) \<le> clk n" by (simp add: monoD)
  then show ?thesis
    using assms(2) by (auto simp: keeps_recent_def recent_def entries_in_update filter_purge_expired)
qed

lemma check_keeps:
  assumes "mono clk" and "rl_wf s"
  shows "keeps_recent clk s (snd (check clk s key)) k"
proof (cases "map_of (rl_attempts s) key")
  case None
  then show ?thesis
    using ensure_key_available_keeps [OF assms surjective_pairing] by (simp add: check_def)
next
  case (Some es)
  have mono: "clk (rl_reads s) \<le> clk (Suc (rl_reads s))" using assms(1) by (simp add: monoD)
  have es: "entries_in (rl_attempts s) key = es" using Some by (simp add: entries_in_def)
  show ?thesis
  proof (cases "purge_expired (rl_opts s) (clk (rl_reads s)) es = []")
    case True
    have "filter (\<lambda>e. c \<le> e) es = []" if "clk (Suc (rl_reads s)) - window_ns (rl_opts s) \<le> c" for c
      using filter_purge_expired [of "clk (rl_reads s)" "rl_opts s" c es] that mono True by simp
    with Some es True show ?thesis
      by (auto simp: check_def Let_def keeps_recent_def recent_def entries_in_delete)
  next
    case False
    with Some es keeps_recent_store [OF assms(1), of s "Suc (rl_reads s)" key "[]"] show ?thesis
      by (simp add: check_def Let_def)
  qed
qed

lemma retry_after_keeps:
  assumes "mono clk"
  shows "keeps_recent clk s (snd (retry_after clk s key)) k"
proof (cases "map_of (rl_attempts s) key")
  case None
  then show ?thesis by (simp add: retry_after_def keeps_recent_def)
next
  case (Some es)
  then have es: "entries_in (rl_attempts s) key = es" by (simp add: entries_in_def)
  show ?thesis
    using Some es keeps_recent_store [OF assms, of s "Suc (rl_reads s)" key "[]" k]
      keeps_recent_store [OF assms, of s "Suc (Suc (rl_reads s))" key "[]" k]
    by (simp add: retry_after_def Let_def)
qed

lemma record_failure_keeps:
  assumes "mono clk" and "rl_wf s"
  shows "keeps_recent clk s (record_failure clk s key) k"
proof -
  obtain ok s1 where e: "ensure_key_available clk s key = (ok, s1)" by force
  note k1 = ensure_key_available_keeps [OF assms e, of k]
  have "keeps_recent clk s1 (record_failure clk s key) k" if ok
    using that keeps_recent_store [OF assms(1), of s1 "Suc (Suc (rl_reads s1))" key]
    by (simp add: record_failure_def e Let_def)
  with k1 show ?thesis
    using keeps_recent_trans [OF assms(1) k1] by (cases ok) (auto simp: record_failure_def e)
qed

text \<open>
  A successful \<open>consume\<close> stores the time it logs, and found fewer than
  \<open>max_attempts\<close> entries inside the window that ends at that time.
\<close>

lemma consume_cases:
  assumes "mono clk" and "rl_wf s" and c: "consume clk s key = (ok, s')"
  shows "keeps_recent clk s s' k"
    and "ok \<Longrightarrow> t = clk (rl_reads s' - 1) \<Longrightarrow> clk (rl_reads s) \<le> t \<and> rl_reads s < rl_reads s' \<and>
      (\<forall>c. clk (rl_reads s') - window_ns (rl_opts s) \<le> c \<longrightarrow> c \<le> t \<longrightarrow>
         recent s key c < recent s' key c) \<and>
      (\<forall>c. t - window_ns (rl_opts s) \<le> c \<longrightarrow> recent s key c < rl_max_attempts (rl_opts s))"
proof -
  obtain ok1 s1 where e: "ensure_key_available clk s key = (ok1, s1)" by force
  let ?es = "purge_expired (rl_opts s1) (clk (rl_reads s1)) (entries_in (rl_attempts s1) key)"
  let ?t = "clk (Suc (rl_reads s1))"
  note k1 = ensure_key_available_keeps [OF assms(1,2) e]
  note o1 = ensure_key_available_cases(1,3) [OF e]
  have le: "clk (rl_reads s) \<le> ?t" "clk (rl_reads s1) \<le> ?t" "?t \<le> clk (Suc (Suc (rl_reads s1)))"
    using assms(1) o1(2) by (simp_all add: monoD)
  have "keeps_recent clk s1 s' k" if ok1
    using that c keeps_recent_store [OF assms(1), of s1 "Suc (rl_reads s1)" key "[]" k]
      keeps_recent_store [OF assms(1), of s1 "Suc (Suc (rl_reads s1))" key "[?t]" k]
    by (auto simp: consume_def e Let_def split: if_splits)
  then show "keeps_recent clk s s' k"
    using k1 keeps_recent_trans [OF assms(1) k1] c by (cases ok1) (auto simp: consume_def e)
  assume ok and t: "t = clk (rl_reads s' - 1)"
  then have r: "rl_reads s' = Suc (Suc (rl_reads s1))" "t = ?t"
    and a: "entries_in (rl_attempts s') key = ?es @ [?t]"
    and lt: "length ?es < rl_max_attempts (rl_opts s)"
    using c o1 by (auto simp: consume_def e Let_def entries_in_update split: if_splits)
  have es: "recent s1 key c = length (filter (\<lambda>e. c \<le> e) ?es)"
    if "?t - window_ns (rl_opts s) \<le> c" for c
    using that le(2) o1 by (simp add: recent_def filter_purge_expired)
  have rec: "recent s key c \<le> recent s1 key c" if "?t - window_ns (rl_opts s) \<le> c" for c
    using k1 [of key] that le(2) by (auto simp: keeps_recent_def)
  have "recent s key c < recent s' key c" if "?t - window_ns (rl_opts s) \<le> c" "c \<le> ?t" for c
    using rec [OF that(1)] es [OF that(1)] that a by (simp add: recent_def)
  moreover have "recent s key c < rl_max_attempts (rl_opts s)" if "?t - window_ns (rl_opts s) \<le> c" for c
    using rec [OF that] es [OF that] lt length_filter_le [of "\<lambda>e. c \<le> e" ?es] by linarith
  ultimately show "clk (rl_reads s) \<le> t \<and> rl_reads s < rl_reads s' \<and>
      (\<forall>c. clk (rl_reads s') - window_ns (rl_opts s) \<le> c \<longrightarrow> c \<le> t \<longrightarrow>
         recent s key c < recent s' key c) \<and>
      (\<forall>c. t - window_ns (rl_opts s) \<le> c \<longrightarrow> recent s key c < rl_max_attempts (rl_opts s))"
    using r le o1(2) by auto
qed


lemma reset_other_keeps: "k \<noteq> key \<Longrightarrow> keeps_recent clk s (reset s key) k"
  by (simp add: keeps_recent_def recent_def reset_def entries_in_delete)

definition spaced :: "rl_options \<Rightarrow> time_ns list \<Rightarrow> bool" where
  "spaced o' ts \<longleftrightarrow>
     (\<forall>a. length (filter (\<lambda>e. a \<le> e \<and> e \<le> a + window_ns o') ts) \<le> rl_max_attempts o')"

text \<open>
  The inductive invariant for one key: the log is spaced, and every logged time that the window
  has not passed is still among the entries of the key.
\<close>

definition window_inv :: "clock \<Rightarrow> rl_options \<Rightarrow> string \<Rightarrow> rate_limiter \<times> rl_log \<Rightarrow> bool" where
  "window_inv clk o' k c \<longleftrightarrow>
     mono clk \<and> rl_wf (fst c) \<and> rl_opts (fst c) = o' \<and> spaced o' (admitted (snd c) k) \<and>
     (\<forall>a. clk (rl_reads (fst c)) - window_ns o' \<le> a \<longrightarrow>
        length (filter (\<lambda>e. a \<le> e) (admitted (snd c) k)) \<le> recent (fst c) k a)"

lemma window_inv_keeps:
  assumes inv: "window_inv clk o' k (s, l)" and ks: "keeps_recent clk s s' k"
    and "rl_wf s'" and l': "admitted l' k = admitted l k"
  shows "window_inv clk o' k (s', l')"
proof -
  from inv have m: "mono clk" and o': "rl_opts s = o'" and sp: "spaced o' (admitted l k)"
    and cov: "\<And>a. clk (rl_reads s) - window_ns o' \<le> a \<Longrightarrow>
      length (filter (\<lambda>e. a \<le> e) (admitted l k)) \<le> recent s k a"
    by (auto simp: window_inv_def)
  have "length (filter (\<lambda>e. a \<le> e) (admitted l k)) \<le> recent s' k a"
    if a: "clk (rl_reads s') - window_ns o' \<le> a" for a
  proof -
    have "length (filter (\<lambda>e. a \<le> e) (admitted l k)) \<le> recent s k a"
      using keeps_recent_clock [OF m ks] a by (intro cov) linarith
    also have "\<dots> \<le> recent s' k a" using a o' by (intro keeps_recentD [OF ks]) simp
    finally show ?thesis .
  qed
  then show ?thesis
    using m o' sp ks l' assms(3) by (simp add: window_inv_def keeps_recent_def)
qed

lemma admitted_snoc: "admitted (l @ [(k', t)]) k = admitted l k @ (if k' = k then [t] else [])"
  by (simp add: admitted_def)

lemma window_inv_consume:
  assumes inv: "window_inv clk o' k (s, l)" and c: "consume clk s k = (True, s')"
  shows "window_inv clk o' k (s', l @ [(k, clk (rl_reads s' - 1))])"
proof -
  let ?t = "clk (rl_reads s' - 1)"
  from inv have m: "mono clk" and wf: "rl_wf s" and o': "rl_opts s = o'"
    and sp: "spaced o' (admitted l k)"
    and cov: "\<And>a. clk (rl_reads s) - window_ns o' \<le> a \<Longrightarrow>
      length (filter (\<lambda>e. a \<le> e) (admitted l k)) \<le> recent s k a"
    by (auto simp: window_inv_def)
  note cc = consume_cases(2) [OF m wf c TrueI refl] and ck = consume_cases(1) [OF m wf c, of k]
  have le: "clk (rl_reads s) \<le> ?t" "?t \<le> clk (rl_reads s')"
    using cc m by (auto simp: monoD)
  have wf': "rl_wf s'" using consume_wf [OF wf, of clk k] c by simp
  have "spaced o' (admitted l k @ [?t])"
    unfolding spaced_def
  proof
    fix a
    let ?P = "\<lambda>e. a \<le> e \<and> e \<le> a + window_ns o'"
    have "length (filter ?P (admitted l k)) < rl_max_attempts o'" if "?P ?t"
    proof -
      have "length (filter ?P (admitted l k)) \<le> length (filter (\<lambda>e. a \<le> e) (admitted l k))"
        by (rule length_filter_mono) simp
      also have "\<dots> \<le> recent s k a" using cov that le by auto
      also have "\<dots> < rl_max_attempts o'" using cc that o' by auto
      finally show ?thesis .
    qed
    moreover have "length (filter ?P (admitted l k)) \<le> rl_max_attempts o'"
      using sp by (simp add: spaced_def)
    ultimately show "length (filter ?P (admitted l k @ [?t])) \<le> rl_max_attempts o'"
      by (auto simp: Suc_le_eq)
  qed
  moreover have "length (filter (\<lambda>e. a \<le> e) (admitted l k @ [?t])) \<le> recent s' k a"
    if "clk (rl_reads s') - window_ns o' \<le> a" for a
    using cov [of a] cc ck that le o' by (auto simp: keeps_recent_def Suc_le_eq intro: order_trans order_le_less_trans)
  ultimately show ?thesis
    using m wf' o' ck by (simp add: window_inv_def admitted_snoc keeps_recent_def)
qed

lemma rl_step_window_inv:
  assumes "window_inv clk o' k c" and "x \<noteq> Reset k"
  shows "window_inv clk o' k (rl_step clk c x)"
proof -
  obtain s l where c: "c = (s, l)" by force
  from assms(1) c have m: "mono clk" and wf: "rl_wf s" by (auto simp: window_inv_def)
  note inv = assms(1) [unfolded c]
  show ?thesis
  proof (cases x)
    case (Consume k')
    obtain ok s' where e: "consume clk s k' = (ok, s')" by force
    have wf': "rl_wf s'" using consume_wf [OF wf, of clk k'] e by simp
    show ?thesis
    proof (cases "ok \<and> k' = k")
      case True
      then have "window_inv clk o' k (s', l @ [(k, clk (rl_reads s' - 1))])"
        using e by (intro window_inv_consume [OF inv]) simp
      with True e Consume c show ?thesis by simp
    next
      case False
      with window_inv_keeps [OF inv consume_cases(1) [OF m wf e] wf'] Consume c e show ?thesis
        by (auto simp: admitted_snoc)
    qed
  qed (use assms(2) c window_inv_keeps [OF inv] wf m in
      \<open>auto simp: wf_preserved check_keeps record_failure_keeps retry_after_keeps reset_other_keeps\<close>)
qed

interpretation rl_window: invariant_step "rl_step clk" "\<lambda>x. x \<noteq> Reset k" "window_inv clk o' k" for clk o' k
  by unfold_locales (rule rl_step_window_inv)

interpretation rl_wf_run: invariant_step "rl_step clk" "\<lambda>_. True" "\<lambda>c. rl_wf (fst c)" for clk
  by unfold_locales (rule rl_step_wf)


lemma ensure_key_available_opts [simp]:
  "rl_opts (snd (ensure_key_available clk s k)) = rl_opts s"
  by (rule ensure_key_available_cases(1) [OF surjective_pairing])

lemma rl_step_opts: "rl_opts (fst (rl_step clk c x)) = rl_opts (fst c)"
  by (cases c; cases x)
     (auto simp: check_def consume_def record_failure_def retry_after_def reset_def Let_def case_prod_beta
       split: option.splits)

interpretation rl_opts_run: invariant_step "rl_step clk" "\<lambda>_. True" "\<lambda>c. rl_opts (fst c) = o'" for clk o'
  by unfold_locales (simp add: rl_step_opts)

section \<open>Properties\<close>

text \<open>
  C9: No key is admitted more than \<open>max_attempts\<close> times within any interval as long as the
  window, whatever calls (on this and other keys, including the sweeps that evict stale keys)
  are interleaved, as long as the key is not reset and the steady clock does not run backwards.
\<close>

theorem consume_sliding_window:
  assumes "mono clk" and "make_rate_limiter o' = Inr s0" and "list_all (\<lambda>x. x \<noteq> Reset k) xs"
  shows "length (filter (\<lambda>t. a \<le> t \<and> t \<le> a + rl_window o' * second_ns)
           (admitted (snd (rl_run clk (s0, []) xs)) k)) \<le> rl_max_attempts o'"
proof -
  have "window_inv clk o' k (s0, [])"
    using assms(1) make_rate_limiter_wf [OF assms(2)] assms(2)
    by (auto simp: window_inv_def spaced_def admitted_def make_rate_limiter_def split: if_splits)
  from rl_window.run_inv [OF this assms(3)] show ?thesis
    by (simp add: rl_run_def window_inv_def spaced_def)
qed

theorem consume_sliding_window_witness:
  "length (filter (\<lambda>t. 0 \<le> t \<and> t \<le> 0 + 1 * second_ns)
     (admitted (snd (rl_run int (\<lparr>rl_opts = \<lparr>rl_max_attempts = 2, rl_window = 1, rl_max_keys = 3\<rparr>,
        rl_attempts = [], rl_reads = 0\<rparr>, []) [Consume ''a'', Consume ''a'', Consume ''a'']) ) ''a'')) \<le> 2 \<and>
   admitted (snd (rl_run int (\<lparr>rl_opts = \<lparr>rl_max_attempts = 2, rl_window = 1, rl_max_keys = 3\<rparr>,
        rl_attempts = [], rl_reads = 0\<rparr>, []) [Consume ''a'', Consume ''a'', Consume ''a''])) ''a'' = [1, 3]"
proof
  let ?o = "\<lparr>rl_max_attempts = 2, rl_window = 1, rl_max_keys = 3\<rparr>"
  let ?s = "\<lparr>rl_opts = ?o, rl_attempts = [], rl_reads = 0\<rparr>"
  have "make_rate_limiter ?o = Inr ?s" by (simp add: make_rate_limiter_def)
  from consume_sliding_window [OF _ this, of int "''a''" "[Consume ''a'', Consume ''a'', Consume ''a'']" 0]
  show "length (filter (\<lambda>t. 0 \<le> t \<and> t \<le> 0 + 1 * second_ns)
     (admitted (snd (rl_run int (?s, []) [Consume ''a'', Consume ''a'', Consume ''a''])) ''a'')) \<le> 2"
    by (simp add: mono_def)
  show "admitted (snd (rl_run int (?s, []) [Consume ''a'', Consume ''a'', Consume ''a''])) ''a'' = [1, 3]"
    by (simp add: rl_run_def consume_def ensure_key_available_def purge_expired_def entries_in_def
        admitted_def second_ns_def Let_def)
qed

text \<open>
  The table of tracked keys never grows beyond \<open>max_keys\<close>, after any sequence of calls.
\<close>

theorem tracked_keys_bounded:
  assumes "make_rate_limiter o' = Inr s0"
  shows "tracked_keys (fst (rl_run clk (s0, []) xs)) \<le> rl_max_keys o'"
proof -
  have "rl_wf (fst (s0, []))" "rl_opts (fst (s0, [])) = o'"
    using make_rate_limiter_wf [OF assms] assms by (auto simp: make_rate_limiter_def split: if_splits)
  then show ?thesis
    using rl_wf_run.run_inv [of "(s0, [])" xs clk] rl_opts_run.run_inv [of "(s0, [])" o' xs clk]
    by (simp add: rl_run_def tracked_keys_def rl_wf_def list_all_iff)
qed

theorem tracked_keys_bounded_witness:
  "tracked_keys (fst (rl_run int (\<lparr>rl_opts = \<lparr>rl_max_attempts = 2, rl_window = 1, rl_max_keys = 1\<rparr>,
     rl_attempts = [], rl_reads = 0\<rparr>, []) [Consume ''a'', Consume ''b''])) \<le> 1"
  using tracked_keys_bounded [of "\<lparr>rl_max_attempts = 2, rl_window = 1, rl_max_keys = 1\<rparr>"
    "\<lparr>rl_opts = \<lparr>rl_max_attempts = 2, rl_window = 1, rl_max_keys = 1\<rparr>, rl_attempts = [], rl_reads = 0\<rparr>"
    int "[Consume ''a'', Consume ''b'']"]
  by (simp add: make_rate_limiter_def)

text \<open>
  \<open>retry_after\<close> rounds the remaining time down, so a client that waits as long as it
  was told can still be refused: there is a state in which the answer is one second and the
  check made exactly one second later fails.
\<close>

theorem retry_after_underestimates:
  "\<exists>clk s k. mono clk \<and> rl_wf s \<and> fst (retry_after clk s k) = 1 \<and>
     (let s1 = snd (retry_after clk s k)
      in clk (rl_reads s1) = clk (rl_reads s) + fst (retry_after clk s k) * second_ns \<and>
         \<not> fst (check clk s1 k))"
proof -
  let ?clk = "\<lambda>n::nat. if n < 2 then 100000000 else 1100000000 :: int"
  let ?s = "\<lparr>rl_opts = \<lparr>rl_max_attempts = 1, rl_window = 2, rl_max_keys = 3\<rparr>,
    rl_attempts = [(''a'', [0])], rl_reads = 0\<rparr>"
  have "mono ?clk" by (rule monoI) simp
  moreover have "rl_wf ?s" by (simp add: rl_wf_def)
  moreover have r: "retry_after ?clk ?s ''a'' = (1, ?s\<lparr>rl_reads := 2\<rparr>)"
    by (simp add: retry_after_def purge_expired_def second_ns_def trunc_div_def)
  moreover have "\<not> fst (check ?clk (?s\<lparr>rl_reads := 2\<rparr>) ''a'')"
    by (simp add: check_def purge_expired_def second_ns_def)
  ultimately show ?thesis
    by (intro exI [of _ ?clk] exI [of _ ?s] exI [of _ "''a''"])
       (simp add: second_ns_def)
qed

end
