(* ===== verification/Capability_Names.thy ===== *)
theory Capability_Names
  imports Cpp_Strings
begin

text \<open>
  Capability names: \<open>capabilities/types.hpp\<close>, \<open>validation.cpp\<close> and \<open>parser.cpp\<close>.
  A registration carries a namespace, a version and a function; the signature
  \<open>ns:version:function\<close> is printed by \<open>make_signature\<close> and read back by
  \<open>parse_signature\<close>. Validators return \<open>None\<close> where the source returns \<open>std::nullopt\<close>.
\<close>

section \<open>Types\<close>

datatype capability_error =
    INVALID_NAMESPACE | INVALID_VERSION | INVALID_FUNCTION | INVALID_SCOPE
  | INVALID_PROVIDER_TYPE | INVALID_DESCRIPTION | INVALID_CAPABILITY | MISSING_EXTENSION_NAME
  | RESERVED_NAMESPACE | NAMESPACE_MISMATCH | CAPABILITY_EXISTS | CAPABILITY_NOT_FOUND
  | RBAC_RULE_NOT_FOUND | USER_SCOPE_NOT_SUPPORTED | DB_ERROR | CAPABILITY_DISABLED
  | TIER3_NOT_AVAILABLE | CALL_DEPTH_EXCEEDED | PERMISSION_DENIED | ASYNC_REQUIRED
  | EXTENSION_DISPATCH_FAILED

fun error_code :: "capability_error \<Rightarrow> string" where
  "error_code INVALID_NAMESPACE = ''invalid_namespace''"
| "error_code INVALID_VERSION = ''invalid_version''"
| "error_code INVALID_FUNCTION = ''invalid_function''"
| "error_code INVALID_SCOPE = ''invalid_scope''"
| "error_code INVALID_PROVIDER_TYPE = ''invalid_provider_type''"
| "error_code INVALID_DESCRIPTION = ''invalid_description''"
| "error_code INVALID_CAPABILITY = ''invalid_capability''"
| "error_code MISSING_EXTENSION_NAME = ''missing_extension_name''"
| "error_code RESERVED_NAMESPACE = ''reserved_namespace''"
| "error_code NAMESPACE_MISMATCH = ''namespace_mismatch''"
| "error_code CAPABILITY_EXISTS = ''capability_exists''"
| "error_code CAPABILITY_NOT_FOUND = ''capability_not_found''"
| "error_code RBAC_RULE_NOT_FOUND = ''rbac_rule_not_found''"
| "error_code USER_SCOPE_NOT_SUPPORTED = ''user_scope_not_supported''"
| "error_code DB_ERROR = ''db_error''"
| "error_code CAPABILITY_DISABLED = ''capability_disabled''"
| "error_code TIER3_NOT_AVAILABLE = ''tier3_not_available''"
| "error_code CALL_DEPTH_EXCEEDED = ''call_depth_exceeded''"
| "error_code PERMISSION_DENIED = ''permission_denied''"
| "error_code ASYNC_REQUIRED = ''async_required''"
| "error_code EXTENSION_DISPATCH_FAILED = ''extension_dispatch_failed''"

record capability_registration =
  reg_namespace :: string
  reg_version :: int
  reg_function :: string
  reg_provider_type :: string
  reg_extension_name :: "string option"
  reg_scope :: string
  reg_description :: string
  reg_rbac_rule :: string

record parsed_signature =
  ps_namespace :: string
  ps_version :: int
  ps_function :: string

section \<open>Validation\<close>

definition namespace_max_len :: nat where "namespace_max_len = 64"
definition function_max_len :: nat where "function_max_len = 128"
definition description_max_len :: nat where "description_max_len = 256"

definition is_namespace_tail :: "char \<Rightarrow> bool" where
  "is_namespace_tail ch \<longleftrightarrow> is_lower_char ch \<or> is_digit_char ch \<or> ch = CHR ''_''"

definition is_function_tail :: "char \<Rightarrow> bool" where
  "is_function_tail ch \<longleftrightarrow>
     is_lower_char ch \<or> is_digit_char ch \<or> ch = CHR ''_'' \<or> ch = CHR ''.''"

definition validate_namespace :: "string \<Rightarrow> capability_error option" where
  "validate_namespace ns =
     (if ns = [] \<or> length ns > namespace_max_len then Some INVALID_NAMESPACE
      else if \<not> is_lower_char (hd ns) then Some INVALID_NAMESPACE
      else if \<not> list_all is_namespace_tail (tl ns) then Some INVALID_NAMESPACE
      else None)"

definition validate_version :: "int \<Rightarrow> capability_error option" where
  "validate_version version = (if version < 1 then Some INVALID_VERSION else None)"

definition validate_function :: "string \<Rightarrow> capability_error option" where
  "validate_function f =
     (if f = [] \<or> length f > function_max_len then Some INVALID_FUNCTION
      else if \<not> is_lower_char (hd f) then Some INVALID_FUNCTION
      else if last f = CHR ''.'' then Some INVALID_FUNCTION
      else if \<not> list_all is_function_tail (tl f) then Some INVALID_FUNCTION
      else if list_ex (\<lambda>i. f ! i = CHR ''.'' \<and> f ! (i - 1) = CHR ''.'') [1..<length f]
        then Some INVALID_FUNCTION
      else None)"

definition validate_scope :: "string \<Rightarrow> capability_error option" where
  "validate_scope scope =
     (if scope = ''instance'' then None
      else if scope = ''user'' then Some USER_SCOPE_NOT_SUPPORTED
      else Some INVALID_SCOPE)"

definition validate_provider_type :: "string \<Rightarrow> capability_error option" where
  "validate_provider_type provider_type =
     (if provider_type = ''kernel'' \<or> provider_type = ''extension'' \<or> provider_type = ''sidecar''
      then None else Some INVALID_PROVIDER_TYPE)"

definition validate_description :: "string \<Rightarrow> capability_error option" where
  "validate_description description =
     (if length description > description_max_len then Some INVALID_DESCRIPTION else None)"

text \<open>The first error of a sequence of checks, in the order the source runs them.\<close>

primrec first_error :: "'e option list \<Rightarrow> 'e option" where
  "first_error [] = None"
| "first_error (e # es) = (case e of Some x \<Rightarrow> Some x | None \<Rightarrow> first_error es)"

definition validate_registration :: "capability_registration \<Rightarrow> capability_error option" where
  "validate_registration reg = first_error
     [validate_namespace (reg_namespace reg),
      validate_version (reg_version reg),
      validate_function (reg_function reg),
      validate_provider_type (reg_provider_type reg),
      validate_scope (reg_scope reg),
      validate_description (reg_description reg),
      (let needs_extension_name =
             (reg_provider_type reg = ''extension'' \<or> reg_provider_type reg = ''sidecar'')
       in if needs_extension_name \<and> (reg_extension_name reg = None \<or> reg_extension_name reg = Some [])
          then Some MISSING_EXTENSION_NAME else None),
      (if reg_namespace reg = ''kernel'' \<and> reg_provider_type reg \<noteq> ''kernel''
       then Some RESERVED_NAMESPACE else None),
      (let prf = reg_namespace reg @ ''.''
       in if \<not> prefix prf (reg_rbac_rule reg) \<or> length (reg_rbac_rule reg) = length prf
          then Some NAMESPACE_MISMATCH else None)]"

definition make_signature :: "capability_registration \<Rightarrow> string" where
  "make_signature reg =
     reg_namespace reg @ '':'' @ show_int (reg_version reg) @ '':'' @ reg_function reg"

section \<open>Parsing\<close>

definition parse_signature :: "string \<Rightarrow> parsed_signature + capability_error" where
  "parse_signature s =
    (case find_char (CHR '':'') s 0 of
       None \<Rightarrow> Inr INVALID_CAPABILITY
     | Some i \<Rightarrow> (case find_char (CHR '':'') s (i + 1) of
         None \<Rightarrow> Inr INVALID_CAPABILITY
       | Some j \<Rightarrow>
          if find_char (CHR '':'') s (j + 1) \<noteq> None then Inr INVALID_CAPABILITY
          else let ns_view = substr s 0 i;
                   ver_view = substr s (i + 1) (j - i - 1);
                   fn_view = drop (j + 1) s
               in if ns_view = [] \<or> ver_view = [] \<or> fn_view = [] then Inr INVALID_CAPABILITY
                  else if \<not> is_digit_char (hd ver_view) then Inr INVALID_CAPABILITY
                  else (case from_chars_int ver_view of
                          None \<Rightarrow> Inr INVALID_CAPABILITY
                        | Some (version, rest) \<Rightarrow>
                            if rest \<noteq> [] then Inr INVALID_CAPABILITY
                            else (case first_error [validate_namespace ns_view,
                                     validate_version version, validate_function fn_view] of
                                    Some e \<Rightarrow> Inr e
                                  | None \<Rightarrow> Inl \<lparr>ps_namespace = ns_view, ps_version = version,
                                                  ps_function = fn_view\<rparr>))))"

section \<open>The shape of a signature\<close>

abbreviation colon :: char where "colon \<equiv> CHR '':''"

text \<open>What the parser does once the three fields are cut out.\<close>

definition parse_fields :: "string \<Rightarrow> string \<Rightarrow> string \<Rightarrow> parsed_signature + capability_error" where
  "parse_fields a b f =
     (if a = [] \<or> b = [] \<or> f = [] then Inr INVALID_CAPABILITY
      else if \<not> is_digit_char (hd b) then Inr INVALID_CAPABILITY
      else (case from_chars_int b of
              None \<Rightarrow> Inr INVALID_CAPABILITY
            | Some (version, rest) \<Rightarrow>
                if rest \<noteq> [] then Inr INVALID_CAPABILITY
                else (case first_error [validate_namespace a, validate_version version,
                                        validate_function f] of
                        Some e \<Rightarrow> Inr e
                      | None \<Rightarrow> Inl \<lparr>ps_namespace = a, ps_version = version, ps_function = f\<rparr>)))"

lemma parse_signature_fields:
  assumes "colon \<notin> set a" and "colon \<notin> set b" and "colon \<notin> set f"
  shows "parse_signature (a @ colon # b @ colon # f) = parse_fields a b f"
proof -
  let ?s = "a @ colon # b @ colon # f"
  have 1: "find_char colon ?s 0 = Some (length a)"
    using find_char_hit [of colon a "[]" "b @ colon # f"] assms by simp
  have 2: "find_char colon ?s (length a + 1) = Some (length a + 1 + length b)"
    using find_char_hit [of colon b "a @ [colon]" f] assms by simp
  have 3: "find_char colon ?s (length a + 1 + length b + 1) = None"
    using find_char_none [of colon f "a @ colon # b @ [colon]"] assms by simp
  have "substr ?s 0 (length a) = a"
    "substr ?s (length a + 1) (length a + 1 + length b - length a - 1) = b"
    "drop (length a + 1 + length b + 1) ?s = f"
    by (simp_all add: substr_def)
  then show ?thesis
    unfolding parse_signature_def parse_fields_def
    by (simp only: 1 2 3 option.case Let_def simp_thms if_False option.simps)
qed

lemma find_char_cut:
  assumes "find_char c s p = Some i"
  shows "s = take p s @ substr s p (i - p) @ c # drop (i + 1) s \<and> c \<notin> set (substr s p (i - p))"
proof -
  from find_char_SomeD [OF assms]
  have i: "p \<le> i" "i < length s" "s ! i = c" "c \<notin> set (take (i - p) (drop p s))" by auto
  have "s = take i s @ c # drop (i + 1) s" using id_take_nth_drop [of i s] i by simp
  moreover have "take i s = take p s @ take (i - p) (drop p s)"
    using i(1) by (metis le_add_diff_inverse take_add)
  ultimately show ?thesis using i by (simp add: substr_def)
qed

lemma parse_signature_InlD:
  assumes "parse_signature s = Inl p"
  shows "\<exists>a b f. s = a @ colon # b @ colon # f \<and> colon \<notin> set a \<and> colon \<notin> set b \<and> colon \<notin> set f
           \<and> parse_fields a b f = Inl p"
proof -
  from assms obtain i j where i: "find_char colon s 0 = Some i"
    and j: "find_char colon s (i + 1) = Some j" and k: "find_char colon s (j + 1) = None"
    by (auto simp: parse_signature_def split: option.splits if_splits)
  let ?a = "substr s 0 (i - 0)" and ?b = "substr s (i + 1) (j - (i + 1))" and ?f = "drop (j + 1) s"
  have "j < length s" using find_char_SomeD [OF j] by simp
  then have f: "colon \<notin> set ?f" using find_char_NoneD [OF k] by simp
  have a: "s = ?a @ colon # drop (i + 1) s" "colon \<notin> set ?a"
    using find_char_cut [OF i] by simp_all
  have b: "s = take (i + 1) s @ ?b @ colon # ?f" "colon \<notin> set ?b"
    using find_char_cut [OF j] by simp_all
  have "drop (i + 1) s = ?b @ colon # ?f"
    using b(1) by (metis append_eq_append_conv append_take_drop_id)
  with a have s: "s = ?a @ colon # ?b @ colon # ?f" by simp
  then have "parse_fields ?a ?b ?f = Inl p"
    using parse_signature_fields [OF a(2) b(2) f] assms by metis
  with s a b f show ?thesis by blast
qed

lemma parse_fields_InlD:
  assumes "parse_fields a b f = Inl p"
  shows "ps_namespace p = a \<and> ps_function p = f \<and> ps_version p = dec_value b
     \<and> b \<noteq> [] \<and> list_all is_digit_char b \<and> 1 \<le> ps_version p \<and> ps_version p \<le> int_max
     \<and> validate_namespace a = None \<and> validate_function f = None"
proof -
  from assms obtain v where b: "b \<noteq> []" "is_digit_char (hd b)" "from_chars_int b = Some (v, [])"
    and e: "validate_namespace a = None" "validate_version v = None" "validate_function f = None"
    and p: "p = \<lparr>ps_namespace = a, ps_version = v, ps_function = f\<rparr>"
    by (auto simp: parse_fields_def split: if_splits option.splits)
  from from_chars_int_digitsD [OF b(3,1,2)] e p b(1) show ?thesis
    by (auto simp: validate_version_def split: if_splits)
qed

lemma colon_not_tail [simp]: "\<not> is_function_tail colon" "\<not> is_namespace_tail colon"
  "\<not> is_lower_char colon" "\<not> is_digit_char colon"
  by (simp_all add: is_function_tail_def is_namespace_tail_def char_in_def)

lemma not_in_all: "list_all P xs \<Longrightarrow> \<not> P c \<Longrightarrow> c \<notin> set xs"
  by (auto simp: list_all_iff)

lemma validate_namespace_None:
  "validate_namespace a = None \<longleftrightarrow> a \<noteq> [] \<and> length a \<le> namespace_max_len \<and> is_lower_char (hd a)
     \<and> list_all is_namespace_tail (tl a)"
  by (auto simp: validate_namespace_def)

lemma validate_function_None:
  "validate_function f = None \<longleftrightarrow> f \<noteq> [] \<and> length f \<le> function_max_len \<and> is_lower_char (hd f)
     \<and> last f \<noteq> CHR ''.'' \<and> list_all is_function_tail (tl f)
     \<and> (\<forall>i\<in>{1..<length f}. \<not> (f ! i = CHR ''.'' \<and> f ! (i - 1) = CHR ''.''))"
  unfolding validate_function_def list_ex_iff set_upt by (simp add: not_less)

lemma validate_namespace_colon: "validate_namespace a = None \<Longrightarrow> a \<noteq> [] \<and> colon \<notin> set a"
  unfolding validate_namespace_None
  by (cases a) (auto simp: not_in_all [where P = is_namespace_tail] simp del: colon_not_tail(1)
      dest: arg_cong [where f = is_lower_char])

lemma validate_function_colon: "validate_function f = None \<Longrightarrow> f \<noteq> [] \<and> colon \<notin> set f"
  unfolding validate_function_None
  by (cases f) (auto simp: not_in_all [where P = is_function_tail])

text \<open>Printing valid fields and parsing the result gives the fields back.\<close>

lemma parse_print:
  assumes "validate_namespace a = None" and "validate_function f = None" and "1 \<le> v" and "v \<le> int_max"
  shows "parse_signature (a @ '':'' @ show_int v @ '':'' @ f)
           = Inl \<lparr>ps_namespace = a, ps_version = v, ps_function = f\<rparr>"
proof -
  let ?b = "show_nat (nat v)"
  have d: "list_all is_digit_char ?b" by (rule show_nat_digits)
  have "colon \<notin> set ?b" using not_in_all [OF d] by simp
  moreover have "is_digit_char (hd ?b)" using d by (cases ?b) auto
  moreover have "from_chars_int ?b = Some (v, [])"
    using from_chars_int_show_nat [of "nat v"] assms by simp
  ultimately show ?thesis
    using parse_signature_fields [of a ?b f] validate_namespace_colon [OF assms(1)]
      validate_function_colon [OF assms(2)] assms
    by (simp add: show_int_def parse_fields_def validate_version_def)
qed

lemma first_error_None: "first_error es = None \<longleftrightarrow> (\<forall>e\<in>set es. e = None)"
  by (induction es) (auto split: option.splits)

section \<open>The grammar of function names\<close>

text \<open>
  Reference grammar: dot-separated, non-empty segments of letters, digits and underscores, the
  first of which starts with a letter.
\<close>

definition is_segment :: "string \<Rightarrow> bool" where
  "is_segment p \<longleftrightarrow> p \<noteq> [] \<and> list_all is_namespace_tail p"

fun no_double :: "char \<Rightarrow> string \<Rightarrow> bool" where
  "no_double c (x # y # s) \<longleftrightarrow> \<not> (x = c \<and> y = c) \<and> no_double c (y # s)"
| "no_double c _ \<longleftrightarrow> True"

lemma ball_from_one: "(\<forall>i\<in>{1..<n}. P i) \<longleftrightarrow> (\<forall>j. Suc j < n \<longrightarrow> P (Suc j))"
  by (auto simp: Suc_le_eq gr0_conv_Suc)

lemma all_Suc_split: "(\<forall>j. Q j) \<longleftrightarrow> Q 0 \<and> (\<forall>j. Q (Suc j))"
  by (metis not0_implies_Suc)

lemma no_double_nth:
  "no_double c s \<longleftrightarrow> (\<forall>i\<in>{1..<length s}. \<not> (s ! i = c \<and> s ! (i - 1) = c))"
  unfolding ball_from_one
proof (induction c s rule: no_double.induct)
  case (1 c x y s)
  show ?case
    by (subst all_Suc_split) (use 1 in auto)
qed auto

lemma function_tail_iff: "is_function_tail c \<longleftrightarrow> is_namespace_tail c \<or> c = CHR ''.''"
  by (auto simp: is_function_tail_def is_namespace_tail_def)

lemma dot_not_tail [simp]: "\<not> is_namespace_tail (CHR ''.'')" "\<not> is_lower_char (CHR ''.'')"
  by (simp_all add: is_namespace_tail_def char_in_def)

lemma lower_is_tail: "is_lower_char c \<Longrightarrow> is_namespace_tail c"
  by (simp add: is_namespace_tail_def)

lemma is_segment_simps [simp]:
  "\<not> is_segment []" "is_segment (x # p) \<longleftrightarrow> is_namespace_tail x \<and> (p = [] \<or> is_segment p)"
  by (auto simp: is_segment_def)

lemma no_double_skip [simp]: "u \<noteq> [] \<Longrightarrow> hd u \<noteq> c \<Longrightarrow> no_double c (c # u) = no_double c u"
  by (cases u) auto

lemma segments_iff:
  "s \<noteq> [] \<Longrightarrow> hd s \<noteq> CHR ''.'' \<Longrightarrow>
   list_all is_segment (split_on (CHR ''.'') s) \<longleftrightarrow>
     list_all is_function_tail s \<and> last s \<noteq> CHR ''.'' \<and> no_double (CHR ''.'') s"
proof (induction s rule: length_induct)
  case (1 s)
  obtain x t where s: "s = x # t" using 1 by (cases s) auto
  show ?case
  proof (cases t)
    case Nil
    with s 1 show ?thesis by (auto simp: function_tail_iff)
  next
    case (Cons y u)
    note t = this
    show ?thesis
    proof (cases "y = CHR ''.'' \<and> u \<noteq> [] \<and> hd u \<noteq> CHR ''.''")
      case True
      then have "list_all is_segment (split_on (CHR ''.'') u) \<longleftrightarrow>
          list_all is_function_tail u \<and> last u \<noteq> CHR ''.'' \<and> no_double (CHR ''.'') u"
        using 1 s t by simp
      with True s t 1(3) show ?thesis by (auto simp: function_tail_iff [of x] function_tail_iff [of "CHR ''.''"])
    next
      case False
      show ?thesis
      proof (cases "y = CHR ''.''")
        case True
        with False have "u = [] \<or> (\<exists>v. u = CHR ''.'' # v)" by (cases u) auto
        with True s t show ?thesis by auto
      next
        case False
        obtain p ps where "split_on (CHR ''.'') u = p # ps" by (cases "split_on (CHR ''.'') u") auto
        moreover have "list_all is_segment (split_on (CHR ''.'') t) \<longleftrightarrow>
          list_all is_function_tail t \<and> last t \<noteq> CHR ''.'' \<and> no_double (CHR ''.'') t"
          using spec [OF 1(1), of t] s t False by simp
        ultimately show ?thesis using False s t 1(3)
          by (auto simp: function_tail_iff [of x] function_tail_iff [of y])
      qed
    qed
  qed
qed

section \<open>Properties\<close>

text \<open>
  C29: Printing the signature of a registration that passes validation and parsing it again gives
  back exactly its namespace, version and function (the version being an \<open>int\<close>). So two valid
  registrations share a signature only when they agree on all three.
\<close>

theorem signature_round_trip:
  assumes "validate_registration r = None" and "reg_version r \<le> int_max"
  shows "parse_signature (make_signature r) =
     Inl \<lparr>ps_namespace = reg_namespace r, ps_version = reg_version r, ps_function = reg_function r\<rparr>"
proof -
  have "validate_namespace (reg_namespace r) = None" "validate_function (reg_function r) = None"
    "validate_version (reg_version r) = None"
    using assms(1) unfolding validate_registration_def first_error_None by simp_all
  moreover from this(3) have "1 \<le> reg_version r"
    by (simp add: validate_version_def split: if_splits)
  ultimately show ?thesis unfolding make_signature_def using assms(2) by (intro parse_print)
qed

theorem signature_round_trip_witness:
  "parse_signature (make_signature
     \<lparr>reg_namespace = ''notes'', reg_version = 12, reg_function = ''note.get'',
      reg_provider_type = ''extension'', reg_extension_name = Some ''notes'',
      reg_scope = ''instance'', reg_description = [], reg_rbac_rule = ''notes.read''\<rparr>) =
   Inl \<lparr>ps_namespace = ''notes'', ps_version = 12, ps_function = ''note.get''\<rparr>"
  by (subst signature_round_trip) (code_simp, simp, simp)

text \<open>
  C20: The accepted language of \<open>parse_signature\<close>, completely: a string is accepted exactly when
  it is \<open>ns:digits:fn\<close> with a valid namespace and function name and a decimal version that fits
  an \<open>int\<close> and is at least one; and the parts returned are those of the string.
\<close>

theorem parse_signature_language:
  "parse_signature s = Inl p \<longleftrightarrow>
     (\<exists>ds. s = ps_namespace p @ '':'' @ ds @ '':'' @ ps_function p
        \<and> ds \<noteq> [] \<and> list_all is_digit_char ds \<and> dec_value ds = ps_version p
        \<and> 1 \<le> ps_version p \<and> ps_version p \<le> int_max
        \<and> validate_namespace (ps_namespace p) = None \<and> validate_function (ps_function p) = None)"
    (is "?l \<longleftrightarrow> ?r")
proof
  assume ?l
  then obtain a b f where "s = a @ colon # b @ colon # f" "parse_fields a b f = Inl p"
    using parse_signature_InlD by blast
  with parse_fields_InlD [OF this(2)] show ?r by (intro exI [of _ b]) auto
next
  assume ?r
  then obtain ds where s: "s = ps_namespace p @ colon # ds @ colon # ps_function p"
    and ds: "ds \<noteq> []" "list_all is_digit_char ds" "dec_value ds = ps_version p"
    and v: "1 \<le> ps_version p" "ps_version p \<le> int_max"
    and ok: "validate_namespace (ps_namespace p) = None" "validate_function (ps_function p) = None"
    by auto
  have h: "is_digit_char (hd ds)" using ds by (cases ds) auto
  have w: "takeWhile is_digit_char ds = ds" "dropWhile is_digit_char ds = []"
    using ds by (auto simp: list_all_iff takeWhile_eq_all_conv dropWhile_eq_Nil_conv)
  have "from_chars_int ds = Some (ps_version p, [])"
    using hd_digit_not_minus [OF h] ds v by (simp add: from_chars_int_def Let_def w)
  then have "parse_fields (ps_namespace p) ds (ps_function p) = Inl p"
    using ok v ds h validate_namespace_colon validate_function_colon
    by (simp add: parse_fields_def validate_version_def)
  then show ?l using s parse_signature_fields validate_namespace_colon [OF ok(1)]
    validate_function_colon [OF ok(2)] not_in_all [OF ds(2)] by auto
qed

text \<open>
  The character-level checks of \<open>validate_function\<close> accept exactly the names of the
  grammar: at most 128 characters, dot-separated non-empty segments over letters, digits and
  underscores, starting with a letter.
\<close>

theorem validate_function_grammar:
  "validate_function f = None \<longleftrightarrow>
     length f \<le> 128 \<and> f \<noteq> [] \<and> is_lower_char (hd f) \<and> list_all is_segment (split_on (CHR ''.'') f)"
proof (cases "f \<noteq> [] \<and> is_lower_char (hd f)")
  case True
  then have "hd f \<noteq> CHR ''.''" by auto
  moreover have "list_all is_function_tail f = list_all is_function_tail (tl f)"
    using True by (cases f) (auto simp: function_tail_iff lower_is_tail)
  ultimately show ?thesis
    using True segments_iff [of f] no_double_nth [of "CHR ''.''" f]
    by (auto simp: validate_function_None function_max_len_def)
qed (auto simp: validate_function_None)

end
