(* ===== verification/Drain.thy ===== *)
theory Drain
  imports Prelude
begin

text \<open>
  The lifecycle dispatch fence: \<open>capabilities/drain.cpp\<close>. Every extension name in use has a
  shared \<open>DrainState\<close> reached through \<open>g_drains\<close>; the objects live in \<open>dw_states\<close> and a
  \<open>shared_ptr\<close> is an index into it, so that a state that was erased from the map but is still
  held by a guard or by the caller of \<open>begin_drain\<close> keeps its value. Each operation holds
  \<open>g_mu\<close> and is one atomic step; the interleavings of the threads are sequences of steps.
\<close>

section \<open>State and operations\<close>

record drain_state =
  in_flight :: nat
  fenced :: bool
  application_blocked :: bool

record drain_world =
  dw_states :: "drain_state list"
  g_drains :: "(string \<times> nat) list"
  g_active_count :: nat

definition fresh_state :: drain_state where
  "fresh_state = \<lparr>in_flight = 0, fenced = False, application_blocked = False\<rparr>"

definition empty_world :: drain_world where
  "empty_world = \<lparr>dw_states = [], g_drains = [], g_active_count = 0\<rparr>"

definition modify_state :: "nat \<Rightarrow> (drain_state \<Rightarrow> drain_state) \<Rightarrow> drain_world \<Rightarrow> drain_world" where
  "modify_state i f w = w\<lparr>dw_states := (dw_states w)[i := f (dw_states w ! i)]\<rparr>"

text \<open>\<open>g_drains.try_emplace(name, make_shared<DrainState>())\<close>: the address the name maps to.\<close>

definition try_emplace :: "string \<Rightarrow> drain_world \<Rightarrow> nat \<times> drain_world" where
  "try_emplace name w =
     (case map_of (g_drains w) name of
        Some i \<Rightarrow> (i, w)
      | None \<Rightarrow> (length (dw_states w),
                 w\<lparr>dw_states := dw_states w @ [fresh_state],
                   g_drains := AList.update name (length (dw_states w)) (g_drains w)\<rparr>))"

definition begin_drain :: "string \<Rightarrow> drain_world \<Rightarrow> nat \<times> drain_world" where
  "begin_drain name w =
     (case map_of (g_drains w) name of
        Some i \<Rightarrow>
          (let was = fenced (dw_states w ! i);
               w1 = modify_state i (fenced_update (\<lambda>_. True)) w
           in (i, if \<not> was then w1\<lparr>g_active_count := g_active_count w1 + 1\<rparr> else w1))
      | None \<Rightarrow>
          (let i = length (dw_states w)
           in (i, w\<lparr>dw_states := dw_states w @ [fresh_state\<lparr>fenced := True\<rparr>],
                    g_drains := AList.update name i (g_drains w),
                    g_active_count := g_active_count w + 1\<rparr>)))"

definition end_drain :: "string \<Rightarrow> drain_world \<Rightarrow> drain_world" where
  "end_drain name w =
     (case map_of (g_drains w) name of
        None \<Rightarrow> w
      | Some i \<Rightarrow>
          (let was = fenced (dw_states w ! i);
               w1 = modify_state i (fenced_update (\<lambda>_. False)) w;
               w2 = (if was then w1\<lparr>g_active_count := g_active_count w1 - 1\<rparr> else w1);
               w3 = modify_state i (application_blocked_update (\<lambda>_. False)) w2
           in if in_flight (dw_states w3 ! i) = 0
              then w3\<lparr>g_drains := AList.delete name (g_drains w3)\<rparr> else w3))"

definition is_fenced :: "string \<Rightarrow> drain_world \<Rightarrow> bool" where
  "is_fenced name w =
     (case map_of (g_drains w) name of None \<Rightarrow> False | Some i \<Rightarrow> fenced (dw_states w ! i))"

definition block_application :: "string \<Rightarrow> drain_world \<Rightarrow> drain_world" where
  "block_application name w =
     (let (i, w1) = try_emplace name w
      in modify_state i (application_blocked_update (\<lambda>_. True)) w1)"

definition is_application_blocked :: "string \<Rightarrow> drain_world \<Rightarrow> bool" where
  "is_application_blocked name w =
     (case map_of (g_drains w) name of
        None \<Rightarrow> False | Some i \<Rightarrow> application_blocked (dw_states w ! i))"

text \<open>
  \<open>wait_for_zero\<close> returns after the predicate was last evaluated (in \<open>w1\<close>) and the counter was
  read again (in \<open>w2\<close>); other threads may have run in between.
\<close>

definition wait_for_zero :: "nat \<Rightarrow> drain_world \<Rightarrow> drain_world \<Rightarrow> bool \<times> nat" where
  "wait_for_zero i w1 w2 = (in_flight (dw_states w1 ! i) = 0, in_flight (dw_states w2 ! i))"

definition active_drain_count :: "drain_world \<Rightarrow> nat" where
  "active_drain_count w = g_active_count w"

definition tracked_state_count :: "drain_world \<Rightarrow> nat" where
  "tracked_state_count w = length (g_drains w)"

record dispatch_guard =
  dg_name :: string
  dg_state :: "nat option"

definition was_admitted :: "dispatch_guard \<Rightarrow> bool" where
  "was_admitted g \<longleftrightarrow> dg_state g \<noteq> None"

definition make_guard :: "string \<Rightarrow> drain_world \<Rightarrow> dispatch_guard \<times> drain_world" where
  "make_guard name w =
     (let (i, w1) = try_emplace name w
      in if fenced (dw_states w1 ! i) then (\<lparr>dg_name = [], dg_state = None\<rparr>, w1)
         else (\<lparr>dg_name = name, dg_state = Some i\<rparr>,
               modify_state i (in_flight_update (\<lambda>n. n + 1)) w1))"

definition destroy_guard :: "dispatch_guard \<Rightarrow> drain_world \<Rightarrow> drain_world" where
  "destroy_guard g w =
     (case dg_state g of
        None \<Rightarrow> w
      | Some i \<Rightarrow>
          (let prev = in_flight (dw_states w ! i);
               w1 = modify_state i (in_flight_update (\<lambda>n. n - 1)) w
           in if prev = 1 \<and> \<not> fenced (dw_states w1 ! i) \<and> \<not> application_blocked (dw_states w1 ! i)
                 \<and> map_of (g_drains w1) (dg_name g) = Some i
              then w1\<lparr>g_drains := AList.delete (dg_name g) (g_drains w1)\<rparr>
              else w1))"

section \<open>Threads\<close>

text \<open>
  A configuration is the process-wide state and the guards alive in the threads. The transitions
  are the calls the dispatchers and the lifecycle code make, in any order.
\<close>

type_synonym drain_conf = "drain_world \<times> dispatch_guard list"

datatype drain_event = Begin string | End string | Block string | Enter string | Leave nat

inductive drain_step :: "drain_conf \<Rightarrow> drain_event \<Rightarrow> drain_conf \<Rightarrow> bool" where
  step_begin: "begin_drain n w = (i, w') \<Longrightarrow> drain_step (w, gs) (Begin n) (w', gs)"
| step_end: "drain_step (w, gs) (End n) (end_drain n w, gs)"
| step_block: "drain_step (w, gs) (Block n) (block_application n w, gs)"
| step_enter: "make_guard n w = (g, w') \<Longrightarrow> drain_step (w, gs) (Enter n) (w', g # gs)"
| step_leave: "k < length gs \<Longrightarrow>
    drain_step (w, gs) (Leave k) (destroy_guard (gs ! k) w, take k gs @ drop (Suc k) gs)"

inductive drain_steps :: "drain_conf \<Rightarrow> drain_event list \<Rightarrow> drain_conf \<Rightarrow> bool" where
  steps_nil: "drain_steps c [] c"
| steps_cons: "drain_step c e c' \<Longrightarrow> drain_steps c' es c'' \<Longrightarrow> drain_steps c (e # es) c''"

inductive_cases drain_stepE: "drain_step (w, gs) e c"

text \<open>The live guards counted on the state at an address, and those of a name.\<close>

definition holders :: "nat \<Rightarrow> dispatch_guard list \<Rightarrow> nat" where
  "holders i gs = length (filter (\<lambda>g. dg_state g = Some i) gs)"

definition live :: "string \<Rightarrow> dispatch_guard list \<Rightarrow> nat" where
  "live n gs = length (filter (\<lambda>g. was_admitted g \<and> dg_name g = n) gs)"

definition fenced_names :: "drain_world \<Rightarrow> string set" where
  "fenced_names w = {n. is_fenced n w}"

section \<open>The invariant\<close>

definition map_ok :: "drain_world \<Rightarrow> bool" where
  "map_ok w \<longleftrightarrow> distinct_keys (g_drains w)
     \<and> (\<forall>n i. map_of (g_drains w) n = Some i \<longrightarrow> i < length (dw_states w))
     \<and> (\<forall>n m i. map_of (g_drains w) n = Some i \<longrightarrow> map_of (g_drains w) m = Some i \<longrightarrow> n = m)"

definition guards_ok :: "drain_world \<Rightarrow> dispatch_guard list \<Rightarrow> bool" where
  "guards_ok w gs \<longleftrightarrow>
     (\<forall>g\<in>set gs. \<forall>i. dg_state g = Some i \<longrightarrow> map_of (g_drains w) (dg_name g) = Some i)"

definition counts_ok :: "drain_world \<Rightarrow> dispatch_guard list \<Rightarrow> bool" where
  "counts_ok w gs \<longleftrightarrow> (\<forall>i<length (dw_states w). in_flight (dw_states w ! i) = holders i gs)"

definition no_leak :: "drain_world \<Rightarrow> bool" where
  "no_leak w \<longleftrightarrow> (\<forall>n i. map_of (g_drains w) n = Some i \<longrightarrow>
     fenced (dw_states w ! i) \<or> application_blocked (dw_states w ! i) \<or> 0 < in_flight (dw_states w ! i))"

definition active_ok :: "drain_world \<Rightarrow> bool" where
  "active_ok w \<longleftrightarrow> g_active_count w = card (fenced_names w)"

definition drain_inv :: "drain_conf \<Rightarrow> bool" where
  "drain_inv c \<longleftrightarrow> (case c of (w, gs) \<Rightarrow>
     map_ok w \<and> guards_ok w gs \<and> counts_ok w gs \<and> no_leak w \<and> active_ok w)"

lemmas drain_inv_defs = map_ok_def guards_ok_def counts_ok_def no_leak_def

lemma holders_simps [simp]:
  "holders i [] = 0"
  "holders i (g # gs) = (if dg_state g = Some i then 1 else 0) + holders i gs"
  by (simp_all add: holders_def)

lemma holders_append [simp]: "holders i (gs @ hs) = holders i gs + holders i hs"
  by (simp add: holders_def)

lemma holders_remove:
  assumes "k < length gs"
  shows "holders i gs = (if dg_state (gs ! k) = Some i then 1 else 0)
     + holders i (take k gs @ drop (Suc k) gs)"
proof -
  have "gs = take k gs @ gs ! k # drop (Suc k) gs" using assms by (rule id_take_nth_drop)
  then have "holders i gs = holders i (take k gs @ gs ! k # drop (Suc k) gs)" by simp
  then show ?thesis by simp
qed

lemma holders_zero: "holders i gs = 0 \<longleftrightarrow> (\<forall>g\<in>set gs. dg_state g \<noteq> Some i)"
  by (simp add: holders_def filter_empty_conv)

lemma set_remove: "set (take k gs @ drop (Suc k) gs) \<subseteq> set gs"
  using set_take_subset set_drop_subset by fastforce

text \<open>An address nobody allocated is held by no guard.\<close>

lemma holders_fresh:
  "map_ok w \<Longrightarrow> guards_ok w gs \<Longrightarrow> holders (length (dw_states w)) gs = 0"
  unfolding holders_zero map_ok_def guards_ok_def by (metis less_irrefl)

lemma finite_fenced_names [simp]: "finite (fenced_names w)"
proof (rule finite_subset)
  show "fenced_names w \<subseteq> set (keys (g_drains w))"
    by (auto simp: fenced_names_def is_fenced_def split: option.splits dest!: map_of_SomeD_keys)
qed simp

lemma modify_state_simps [simp]:
  "g_drains (modify_state i f w) = g_drains w"
  "g_active_count (modify_state i f w) = g_active_count w"
  "length (dw_states (modify_state i f w)) = length (dw_states w)"
  "i < length (dw_states w) \<Longrightarrow> dw_states (modify_state i f w) ! j =
     (if j = i then f (dw_states w ! i) else dw_states w ! j)"
  by (simp_all add: modify_state_def)

lemma is_fenced_cong:
  "g_drains w' = g_drains w \<Longrightarrow> (\<And>n i. map_of (g_drains w) n = Some i \<Longrightarrow>
     fenced (dw_states w' ! i) = fenced (dw_states w ! i)) \<Longrightarrow> fenced_names w' = fenced_names w"
  by (auto simp: fenced_names_def is_fenced_def split: option.splits)

lemma map_ok_modify [simp]: "map_ok (modify_state i f w) = map_ok w"
  by (simp add: map_ok_def)

lemma guards_ok_modify [simp]: "guards_ok (modify_state i f w) gs = guards_ok w gs"
  by (simp add: guards_ok_def)

lemma map_okD:
  assumes "map_ok w" and "map_of (g_drains w) n = Some i"
  shows "i < length (dw_states w)" and "map_of (g_drains w) m = Some i \<longleftrightarrow> m = n"
  using assms unfolding map_ok_def by (metis, metis)

lemma guards_ok_delete:
  assumes g: "guards_ok w gs" and i: "map_of (g_drains w) n = Some i" and h: "holders i gs = 0"
    and d: "g_drains w' = AList.delete n (g_drains w)"
  shows "guards_ok w' gs"
  unfolding guards_ok_def
proof (intro ballI allI impI)
  fix x j assume x: "x \<in> set gs" "dg_state x = Some j"
  then have "map_of (g_drains w) (dg_name x) = Some j" using g by (simp add: guards_ok_def)
  moreover have "j \<noteq> i" using h x unfolding holders_zero by auto
  ultimately show "map_of (g_drains w') (dg_name x) = Some j" using i by (auto simp: d map_of_delete)
qed

subsection \<open>Beginning and ending a drain\<close>

lemma is_fenced_begin:
  assumes m: "map_ok w" and b: "begin_drain n w = (i, w')"
  shows "is_fenced k w' \<longleftrightarrow> k = n \<or> is_fenced k w"
proof (cases "map_of (g_drains w) n")
  case None
  with b have "w' = w\<lparr>dw_states := dw_states w @ [fresh_state\<lparr>fenced := True\<rparr>],
      g_drains := AList.update n (length (dw_states w)) (g_drains w),
      g_active_count := g_active_count w + 1\<rparr>"
    by (auto simp: begin_drain_def Let_def)
  then show ?thesis using map_okD(1) [OF m, of k]
    by (cases "map_of (g_drains w) k") (auto simp: is_fenced_def map_of_update nth_append)
next
  case (Some j)
  note j = map_okD(1) [OF m Some]
  from Some b have "g_drains w' = g_drains w"
    "dw_states w' = dw_states (modify_state j (fenced_update (\<lambda>_. True)) w)"
    by (auto simp: begin_drain_def Let_def)
  then show ?thesis using j Some map_okD(2) [OF m Some, of k]
    by (cases "map_of (g_drains w) k") (auto simp: is_fenced_def)
qed

lemma fenced_names_begin:
  "map_ok w \<Longrightarrow> begin_drain n w = (i, w') \<Longrightarrow> fenced_names w' = insert n (fenced_names w)"
  unfolding fenced_names_def by (auto simp: is_fenced_begin)

lemma begin_drain_inv:
  assumes inv: "drain_inv (w, gs)" and b: "begin_drain n w = (i, w')"
  shows "drain_inv (w', gs) \<and> map_of (g_drains w') n = Some i"
proof -
  from inv have m: "map_ok w" and g: "guards_ok w gs" and c: "counts_ok w gs" and l: "no_leak w"
    and a: "active_ok w" by (simp_all add: drain_inv_def)
  have fn: "fenced_names w' = insert n (fenced_names w)" by (rule fenced_names_begin [OF m b])
  show ?thesis
  proof (cases "map_of (g_drains w) n")
    case None
    let ?i = "length (dw_states w)"
    from None b have i: "i = ?i" and w': "w' = w\<lparr>dw_states := dw_states w @ [fresh_state\<lparr>fenced := True\<rparr>],
         g_drains := AList.update n ?i (g_drains w), g_active_count := g_active_count w + 1\<rparr>"
      by (auto simp: begin_drain_def Let_def)
    have "n \<notin> fenced_names w" using None by (simp add: fenced_names_def is_fenced_def)
    then have "active_ok w'" using a fn by (simp add: active_ok_def w')
    moreover have "map_ok w'" using m unfolding w' map_ok_def
      by (auto simp: map_of_update distinct_keys_update less_Suc_eq) (metis less_irrefl)+
    moreover have "guards_ok w' gs" using g None unfolding w' guards_ok_def
      by (auto simp: map_of_update)
    moreover have "counts_ok w' gs" using c holders_fresh [OF m g] unfolding w' counts_ok_def
      by (auto simp: nth_append fresh_state_def less_Suc_eq)
    moreover have "no_leak w'" using l m unfolding w' no_leak_def map_ok_def
      by (auto simp: nth_append map_of_update fresh_state_def)
    ultimately show ?thesis by (simp add: drain_inv_def i w' map_of_update)
  next
    case (Some j)
    note j = map_okD(1) [OF m Some]
    from Some b have i: "i = j" and w': "w' = (if fenced (dw_states w ! j)
         then modify_state j (fenced_update (\<lambda>_. True)) w
         else modify_state j (fenced_update (\<lambda>_. True)) w\<lparr>g_active_count := g_active_count w + 1\<rparr>)"
      by (auto simp: begin_drain_def Let_def modify_state_def)
    have "n \<in> fenced_names w \<longleftrightarrow> fenced (dw_states w ! j)"
      using Some by (simp add: fenced_names_def is_fenced_def)
    then have "active_ok w'" using a fn by (auto simp: active_ok_def w' insert_absorb)
    then show ?thesis using m g c l j Some
      unfolding drain_inv_def w' map_ok_def guards_ok_def counts_ok_def no_leak_def i
      by (auto simp: modify_state_def nth_list_update)
  qed
qed

lemma end_drain_cases:
  assumes "map_ok w"
  shows "(map_of (g_drains w) n = None \<and> end_drain n w = w) \<or>
    (\<exists>i. map_of (g_drains w) n = Some i \<and>
       dw_states (end_drain n w) = (dw_states w)
         [i := (dw_states w ! i)\<lparr>fenced := False, application_blocked := False\<rparr>] \<and>
       g_active_count (end_drain n w) = g_active_count w - (if fenced (dw_states w ! i) then 1 else 0) \<and>
       g_drains (end_drain n w) =
         (if in_flight (dw_states w ! i) = 0 then AList.delete n (g_drains w) else g_drains w))"
  using map_okD(1) [OF assms, of n]
  by (cases "map_of (g_drains w) n")
    (auto simp: end_drain_def Let_def modify_state_def)

lemma is_fenced_end:
  assumes m: "map_ok w"
  shows "is_fenced k (end_drain n w) \<longleftrightarrow> k \<noteq> n \<and> is_fenced k w"
proof (cases "map_of (g_drains w) n")
  case None
  then show ?thesis by (auto simp: end_drain_def is_fenced_def)
next
  case (Some i)
  with end_drain_cases [OF m, of n] map_okD(2) [OF m Some, of k] map_okD(1) [OF m Some] show ?thesis
    by (cases "map_of (g_drains w) k") (auto simp: is_fenced_def map_of_delete)
qed

lemma fenced_names_end: "map_ok w \<Longrightarrow> fenced_names (end_drain n w) = fenced_names w - {n}"
  by (auto simp: fenced_names_def is_fenced_end)

lemma end_drain_inv:
  assumes inv: "drain_inv (w, gs)"
  shows "drain_inv (end_drain n w, gs)"
proof -
  from inv have m: "map_ok w" and g: "guards_ok w gs" and c: "counts_ok w gs" and l: "no_leak w"
    and a: "active_ok w" by (simp_all add: drain_inv_def)
  show ?thesis
  proof (cases "map_of (g_drains w) n")
    case None
    with inv show ?thesis by (simp add: end_drain_def)
  next
    case (Some i)
    let ?w = "end_drain n w"
    note i = map_okD(1) [OF m Some]
    from end_drain_cases [OF m, of n] Some
    have S: "dw_states ?w = (dw_states w)
         [i := (dw_states w ! i)\<lparr>fenced := False, application_blocked := False\<rparr>]"
      and A: "g_active_count ?w = g_active_count w - (if fenced (dw_states w ! i) then 1 else 0)"
      and D: "g_drains ?w = (if in_flight (dw_states w ! i) = 0 then AList.delete n (g_drains w)
                             else g_drains w)" by auto
    have "n \<in> fenced_names w \<longleftrightarrow> fenced (dw_states w ! i)"
      using Some by (simp add: fenced_names_def is_fenced_def)
    then have "active_ok ?w" using a A fenced_names_end [OF m, of n]
      by (auto simp: active_ok_def card_Diff_singleton)
    moreover have "map_ok ?w" using m unfolding map_ok_def S D
      by (auto simp: map_of_delete distinct_keys_delete simp del: map_of_eq_Some_iff split: if_splits)
    moreover have "counts_ok ?w gs" using c i unfolding counts_ok_def S by (auto simp: nth_list_update)
    moreover have "guards_ok ?w gs"
    proof (cases "in_flight (dw_states w ! i) = 0")
      case True
      then have "holders i gs = 0" using c i by (simp add: counts_ok_def)
      with g Some show ?thesis by (rule guards_ok_delete) (simp add: D True)
    next
      case False
      with g show ?thesis by (simp add: guards_ok_def D)
    qed
    moreover have "no_leak ?w" using l i Some map_okD(2) [OF m Some] unfolding no_leak_def S D
      by (auto simp: map_of_delete nth_list_update)
    ultimately show ?thesis by (simp add: drain_inv_def)
  qed
qed

subsection \<open>Blocking, entering and leaving\<close>

text \<open>
  \<open>try_emplace\<close> keeps every part of the invariant but the absence of leaks, which the caller
  restores: it either counts a call on the new state or marks it blocked, or found it fenced.
\<close>

lemma try_emplace_keeps:
  assumes m: "map_ok w" and g: "guards_ok w gs" and c: "counts_ok w gs" and a: "active_ok w"
    and t: "try_emplace n w = (i, w1)"
  shows "map_ok w1" "guards_ok w1 gs" "counts_ok w1 gs" "active_ok w1"
    "map_of (g_drains w1) n = Some i" "fenced_names w1 = fenced_names w"
    "fenced (dw_states w1 ! i) = is_fenced n w"
    "\<forall>m j. m \<noteq> n \<longrightarrow> map_of (g_drains w1) m = Some j \<longrightarrow>
       map_of (g_drains w) m = Some j \<and> dw_states w1 ! j = dw_states w ! j"
    "fenced (dw_states w1 ! i) \<longrightarrow> w1 = w"
proof -
  have "map_ok w1 \<and> guards_ok w1 gs \<and> counts_ok w1 gs \<and> g_active_count w1 = g_active_count w
    \<and> map_of (g_drains w1) n = Some i \<and> fenced_names w1 = fenced_names w
    \<and> fenced (dw_states w1 ! i) = is_fenced n w
    \<and> (\<forall>m j. m \<noteq> n \<longrightarrow> map_of (g_drains w1) m = Some j \<longrightarrow>
       map_of (g_drains w) m = Some j \<and> dw_states w1 ! j = dw_states w ! j)
    \<and> (fenced (dw_states w1 ! i) \<longrightarrow> w1 = w)"
  proof (cases "map_of (g_drains w) n")
    case None
    let ?i = "length (dw_states w)"
    from None t have i: "i = ?i" and w1: "w1 = w\<lparr>dw_states := dw_states w @ [fresh_state],
         g_drains := AList.update n ?i (g_drains w)\<rparr>"
      by (auto simp: try_emplace_def)
    have "map_ok w1" using m unfolding w1 map_ok_def
      by (auto simp: map_of_update distinct_keys_update less_Suc_eq) (metis less_irrefl)+
    moreover have "guards_ok w1 gs" using g None unfolding w1 guards_ok_def
      by (auto simp: map_of_update)
    moreover have "counts_ok w1 gs" using c holders_fresh [OF m g] unfolding w1 counts_ok_def
      by (auto simp: nth_append fresh_state_def less_Suc_eq)
    moreover have "fenced_names w1 = fenced_names w" using m None unfolding w1 fenced_names_def
      by (auto simp: is_fenced_def map_of_update nth_append fresh_state_def map_okD(1)
          split: option.splits if_splits)
    moreover have "\<not> fenced (dw_states w1 ! i)" "\<not> is_fenced n w"
      using None by (simp_all add: w1 i fresh_state_def is_fenced_def)
    moreover have "\<forall>m j. m \<noteq> n \<longrightarrow> map_of (g_drains w1) m = Some j \<longrightarrow>
       map_of (g_drains w) m = Some j \<and> dw_states w1 ! j = dw_states w ! j"
      using map_okD(1) [OF m] unfolding w1 by (auto simp: map_of_update nth_append)
    ultimately show ?thesis by (simp add: w1 i map_of_update)
  next
    case (Some j)
    with t have "i = j" "w1 = w" by (auto simp: try_emplace_def)
    with Some m g c show ?thesis by (simp add: is_fenced_def)
  qed
  then show "map_ok w1" "guards_ok w1 gs" "counts_ok w1 gs" "active_ok w1"
    "map_of (g_drains w1) n = Some i" "fenced_names w1 = fenced_names w"
    "fenced (dw_states w1 ! i) = is_fenced n w"
    "\<forall>m j. m \<noteq> n \<longrightarrow> map_of (g_drains w1) m = Some j \<longrightarrow>
       map_of (g_drains w) m = Some j \<and> dw_states w1 ! j = dw_states w ! j"
    "fenced (dw_states w1 ! i) \<longrightarrow> w1 = w"
    using a by (simp_all add: active_ok_def)
qed

text \<open>A change of one mapped state that keeps its fence and leaves it worth tracking.\<close>

lemma modify_state_keeps:
  assumes m: "map_ok w1" and a: "active_ok w1" and i: "map_of (g_drains w1) n = Some i"
    and f: "\<And>s. fenced (f s) = fenced s"
    and l: "\<forall>m j. m \<noteq> n \<longrightarrow> map_of (g_drains w1) m = Some j \<longrightarrow>
       fenced (dw_states w1 ! j) \<or> application_blocked (dw_states w1 ! j) \<or> 0 < in_flight (dw_states w1 ! j)"
    and ok: "let s = f (dw_states w1 ! i) in fenced s \<or> application_blocked s \<or> 0 < in_flight s"
  shows "active_ok (modify_state i f w1)" "no_leak (modify_state i f w1)"
    "fenced_names (modify_state i f w1) = fenced_names w1"
proof -
  have b: "i < length (dw_states w1)" by (rule map_okD(1) [OF m i])
  show F: "fenced_names (modify_state i f w1) = fenced_names w1"
    by (rule is_fenced_cong) (use b f in auto)
  then show "active_ok (modify_state i f w1)" using a by (simp add: active_ok_def)
  show "no_leak (modify_state i f w1)" unfolding no_leak_def
  proof (intro allI impI)
    fix k j assume k: "map_of (g_drains (modify_state i f w1)) k = Some j"
    show "fenced (dw_states (modify_state i f w1) ! j)
       \<or> application_blocked (dw_states (modify_state i f w1) ! j)
       \<or> 0 < in_flight (dw_states (modify_state i f w1) ! j)"
    proof (cases "j = i")
      case True
      then show ?thesis using ok b by (simp add: Let_def)
    next
      case False
      with k i have "k \<noteq> n" by auto
      with l k False b show ?thesis by simp
    qed
  qed
qed

lemma no_leak_others:
  assumes "no_leak w" and "\<forall>m j. m \<noteq> n \<longrightarrow> map_of (g_drains w1) m = Some j \<longrightarrow>
       map_of (g_drains w) m = Some j \<and> dw_states w1 ! j = dw_states w ! j"
  shows "\<forall>m j. m \<noteq> n \<longrightarrow> map_of (g_drains w1) m = Some j \<longrightarrow>
       fenced (dw_states w1 ! j) \<or> application_blocked (dw_states w1 ! j) \<or> 0 < in_flight (dw_states w1 ! j)"
  using assms unfolding no_leak_def by metis

lemma block_application_inv:
  assumes inv: "drain_inv (w, gs)"
  shows "drain_inv (block_application n w, gs)"
proof -
  obtain i w1 where t: "try_emplace n w = (i, w1)" by (cases "try_emplace n w")
  from inv have "map_ok w" "guards_ok w gs" "counts_ok w gs" "active_ok w" and l: "no_leak w"
    by (simp_all add: drain_inv_def)
  note k = try_emplace_keeps [OF this(1-4) t]
  let ?f = "application_blocked_update (\<lambda>_. True)"
  have "counts_ok (modify_state i ?f w1) gs"
    using k(3) map_okD(1) [OF k(1,5)] by (simp add: counts_ok_def)
  moreover have "active_ok (modify_state i ?f w1)" "no_leak (modify_state i ?f w1)"
    by (rule modify_state_keeps [OF k(1,4,5) _ no_leak_others [OF l k(8)]]; simp)+
  ultimately show ?thesis using k(1,2) t by (simp add: drain_inv_def block_application_def)
qed

lemma make_guard_inv:
  assumes inv: "drain_inv (w, gs)" and e: "make_guard n w = (g, w')"
  shows "drain_inv (w', g # gs) \<and> (was_admitted g \<longleftrightarrow> \<not> is_fenced n w)
     \<and> fenced_names w' = fenced_names w \<and> (was_admitted g \<longrightarrow> dg_name g = n)"
proof -
  obtain i w1 where t: "try_emplace n w = (i, w1)" by (cases "try_emplace n w")
  from inv have "map_ok w" "guards_ok w gs" "counts_ok w gs" "active_ok w" and l: "no_leak w"
    by (simp_all add: drain_inv_def)
  note k = try_emplace_keeps [OF this(1-4) t]
  note b = map_okD(1) [OF k(1,5)]
  show ?thesis
  proof (cases "fenced (dw_states w1 ! i)")
    case True
    with e t k(9) have "w' = w" "g = \<lparr>dg_name = [], dg_state = None\<rparr>"
      by (auto simp: make_guard_def)
    with inv True k(7) show ?thesis
      by (simp add: drain_inv_def guards_ok_def counts_ok_def was_admitted_def)
  next
    case False
    let ?f = "in_flight_update (\<lambda>n. n + 1)"
    from False e t have g: "g = \<lparr>dg_name = n, dg_state = Some i\<rparr>" and w': "w' = modify_state i ?f w1"
      by (auto simp: make_guard_def)
    have "active_ok w'" "no_leak w'" "fenced_names w' = fenced_names w"
      using modify_state_keeps [OF k(1,4,5) _ no_leak_others [OF l k(8)], of ?f] k(6) unfolding w'
      by simp_all
    moreover have "counts_ok w' (g # gs)" using k(3) b by (simp add: counts_ok_def w' g)
    moreover have "guards_ok w' (g # gs)" using k(2,5) by (simp add: guards_ok_def w' g)
    ultimately show ?thesis using k(1,7) False by (simp add: drain_inv_def w' g was_admitted_def)
  qed
qed

lemma destroy_guard_inv:
  assumes inv: "drain_inv (w, gs)" and k: "k < length gs"
  shows "drain_inv (destroy_guard (gs ! k) w, take k gs @ drop (Suc k) gs)
     \<and> fenced_names (destroy_guard (gs ! k) w) = fenced_names w"
proof -
  let ?g = "gs ! k" and ?r = "take k gs @ drop (Suc k) gs"
  from inv have m: "map_ok w" and g: "guards_ok w gs" and c: "counts_ok w gs" and l: "no_leak w"
    and a: "active_ok w" by (simp_all add: drain_inv_def)
  have gr: "guards_ok w ?r" using g set_remove [of k gs] unfolding guards_ok_def by blast
  show ?thesis
  proof (cases "dg_state ?g")
    case None
    with holders_remove [OF k] c have "counts_ok w ?r" by (simp add: counts_ok_def)
    with None m gr l a show ?thesis by (simp add: drain_inv_def destroy_guard_def)
  next
    case (Some i)
    with g k have i: "map_of (g_drains w) (dg_name ?g) = Some i" by (simp add: guards_ok_def)
    note b = map_okD(1) [OF m i]
    let ?f = "in_flight_update (\<lambda>n. n - 1)" and ?s = "dw_states w ! i"
    let ?w1 = "modify_state i ?f w"
    have pos: "in_flight ?s = 1 + holders i ?r"
      using c b holders_remove [OF k, of i] Some by (simp add: counts_ok_def)
    have cr: "counts_ok ?w1 ?r"
      using c b pos holders_remove [OF k] Some by (auto simp: counts_ok_def)
    have F1: "fenced_names ?w1 = fenced_names w" by (rule is_fenced_cong) (use b in auto)
    have a1: "active_ok ?w1" using a F1 by (simp add: active_ok_def)
    show ?thesis
    proof (cases "in_flight ?s = 1 \<and> \<not> fenced ?s \<and> \<not> application_blocked ?s")
      case True
      let ?w2 = "?w1\<lparr>g_drains := AList.delete (dg_name ?g) (g_drains w)\<rparr>"
      have d: "destroy_guard ?g w = ?w2"
        using True Some i b by (simp add: destroy_guard_def Let_def)
      have "holders i ?r = 0" using pos True by linarith
      then have "guards_ok ?w2 ?r" by (rule guards_ok_delete [OF gr i]) simp
      moreover have "map_ok ?w2" using m unfolding map_ok_def
        by (auto simp: map_of_delete distinct_keys_delete simp del: map_of_eq_Some_iff split: if_splits)
      moreover have "counts_ok ?w2 ?r" using cr by (simp add: counts_ok_def)
      moreover have "no_leak ?w2" using l b map_okD(2) [OF m i] unfolding no_leak_def
        by (auto simp: map_of_delete)
      moreover have "fenced_names ?w2 = fenced_names ?w1" using True i b
        by (auto simp: fenced_names_def is_fenced_def map_of_delete split: option.splits)
      ultimately show ?thesis using a1 F1 by (simp add: d drain_inv_def active_ok_def)
    next
      case False
      then have d: "destroy_guard ?g w = ?w1"
        using Some b by (auto simp: destroy_guard_def Let_def)
      have "no_leak ?w1"
        by (rule modify_state_keeps [OF m a i]) (use l False pos i in \<open>auto simp: no_leak_def Let_def\<close>)
      with m gr cr a1 F1 show ?thesis by (simp add: d drain_inv_def)
    qed
  qed
qed

subsection \<open>Every step keeps the invariant\<close>

lemma drain_step_inv: "drain_step c e c' \<Longrightarrow> drain_inv c \<Longrightarrow> drain_inv c'"
  by (induction rule: drain_step.induct)
    (auto simp: begin_drain_inv end_drain_inv block_application_inv make_guard_inv destroy_guard_inv)

lemma drain_steps_inv: "drain_steps c es c' \<Longrightarrow> drain_inv c \<Longrightarrow> drain_inv c'"
  by (induction rule: drain_steps.induct) (auto dest: drain_step_inv)

lemma drain_inv_empty: "drain_inv (empty_world, [])"
  by (simp add: drain_inv_def empty_world_def map_ok_def guards_ok_def counts_ok_def no_leak_def
      active_ok_def fenced_names_def is_fenced_def)

lemmas drain_reachable_inv = drain_steps_inv [OF _ drain_inv_empty]

text \<open>Under the invariant, the guards of a name are those on the state it maps to.\<close>

lemma live_eq_holders:
  assumes inv: "drain_inv (w, gs)" and i: "map_of (g_drains w) n = Some i"
  shows "live n gs = holders i gs"
proof -
  have m: "map_ok w" and g: "guards_ok w gs" using inv by (simp_all add: drain_inv_def)
  have "was_admitted x \<and> dg_name x = n \<longleftrightarrow> dg_state x = Some i" if "x \<in> set gs" for x
    using that g i map_okD(2) [OF m i, of "dg_name x"]
    by (cases "dg_state x") (auto simp: guards_ok_def was_admitted_def)
  then have "filter (\<lambda>x. was_admitted x \<and> dg_name x = n) gs = filter (\<lambda>x. dg_state x = Some i) gs"
    by (intro filter_cong) auto
  then show ?thesis by (simp add: live_def holders_def)
qed

lemma live_untracked:
  assumes inv: "drain_inv (w, gs)" and n: "map_of (g_drains w) n = None"
  shows "live n gs = 0"
  using assms by (auto simp: drain_inv_def guards_ok_def live_def was_admitted_def filter_empty_conv)

lemma live_remove:
  assumes "k < length gs"
  shows "live n (take k gs @ drop (Suc k) gs) \<le> live n gs"
proof -
  have "live n gs = live n (take k gs @ gs ! k # drop (Suc k) gs)"
    using id_take_nth_drop [OF assms] by simp
  then show ?thesis by (simp add: live_def)
qed

text \<open>Only \<open>end_drain\<close> lifts a fence or lets go of a fenced state.\<close>

lemma fence_kept:
  assumes inv: "drain_inv (w, gs)" and s: "drain_step (w, gs) e (w', gs')" and e: "e \<noteq> End n"
    and f: "is_fenced n w" and i: "map_of (g_drains w) n = Some i"
  shows "is_fenced n w' \<and> map_of (g_drains w') n = Some i \<and> live n gs' \<le> live n gs"
proof -
  from inv have m: "map_ok w" and g: "guards_ok w gs" and c: "counts_ok w gs" and a: "active_ok w"
    by (simp_all add: drain_inv_def)
  from s show ?thesis
  proof (cases rule: drain_step.cases)
    case (step_begin k j)
    then show ?thesis using f i is_fenced_begin [OF m, of k j w' n]
      by (auto simp: begin_drain_def Let_def map_of_update split: option.splits if_splits)
  next
    case (step_end k)
    with e have "k \<noteq> n" by auto
    with step_end f i is_fenced_end [OF m, of n k] end_drain_cases [OF m, of k] show ?thesis
      by (auto simp: map_of_delete)
  next
    case (step_block k)
    obtain j w1 where t: "try_emplace k w = (j, w1)" by (cases "try_emplace k w")
    note kp = try_emplace_keeps [OF m g c a t]
    have "map_of (g_drains w1) n = Some i"
      using t i by (auto simp: try_emplace_def map_of_update split: option.splits)
    moreover have "is_fenced n w1" using kp(6) f by (auto simp: fenced_names_def)
    ultimately show ?thesis using step_block t map_okD(1) [OF kp(1,5)]
      by (auto simp: block_application_def is_fenced_def)
  next
    case (step_enter k x)
    obtain j w1 where t: "try_emplace k w = (j, w1)" by (cases "try_emplace k w")
    have "map_of (g_drains w') n = Some i" using step_enter t i
      by (auto simp: make_guard_def try_emplace_def map_of_update split: option.splits if_splits)
    moreover have "is_fenced n w'" "\<not> (was_admitted x \<and> dg_name x = n)"
      using make_guard_inv [OF inv step_enter(3)] f by (auto simp: fenced_names_def)
    ultimately show ?thesis using step_enter by (auto simp: live_def)
  next
    case (step_leave k)
    from destroy_guard_inv [OF inv step_leave(4)] step_leave f have "is_fenced n w'"
      by (auto simp: fenced_names_def)
    moreover have "map_of (g_drains w') n = Some i" using \<open>is_fenced n w'\<close> step_leave i
      by (auto simp: destroy_guard_def is_fenced_def map_of_delete Let_def split: option.splits if_splits)
    moreover have "live n gs' \<le> live n gs"
      using live_remove [OF step_leave(4)] step_leave(3) by simp
    ultimately show ?thesis by simp
  qed
qed

lemma fence_kept_steps:
  assumes "drain_steps c es c'"
  shows "drain_inv c \<Longrightarrow> End n \<notin> set es \<Longrightarrow> is_fenced n (fst c) \<Longrightarrow>
    map_of (g_drains (fst c)) n = Some i \<Longrightarrow>
    is_fenced n (fst c') \<and> map_of (g_drains (fst c')) n = Some i \<and> live n (snd c') \<le> live n (snd c)"
  using assms
proof (induction rule: drain_steps.induct)
  case (steps_cons c e c' es c'')
  obtain w gs w1 gs1 where c: "c = (w, gs)" "c' = (w1, gs1)" by (cases c; cases c')
  have "is_fenced n w1 \<and> map_of (g_drains w1) n = Some i \<and> live n gs1 \<le> live n gs"
    using fence_kept [of w gs e w1 gs1 n i] steps_cons.prems steps_cons.hyps(1)
    by (auto simp: c)
  moreover have "drain_inv c'" by (rule drain_step_inv [OF steps_cons.hyps(1) steps_cons.prems(1)])
  ultimately show ?case using steps_cons.IH steps_cons.prems by (fastforce simp: c)
qed simp

section \<open>The guard as a scoped resource\<close>

text \<open>
  What a dispatcher relies on: taking and releasing a guard keeps the invariant over the guards
  still held, whatever the bracketed work does, as long as that work keeps it too.
\<close>

locale scoped_resource =
  fixes acquire :: "'n \<Rightarrow> 'w \<Rightarrow> 'g \<times> 'w" and release :: "'g \<Rightarrow> 'w \<Rightarrow> 'w"
    and inv :: "'w \<times> 'g list \<Rightarrow> bool"
  assumes acquire_inv: "inv (w, gs) \<Longrightarrow> acquire n w = (g, w') \<Longrightarrow> inv (w', g # gs)"
    and release_inv: "inv (w, g # gs) \<Longrightarrow> inv (release g w, gs)"
begin

lemma bracket_inv:
  assumes "inv (w, gs)" and "acquire n w = (g, w1)"
    and "\<And>hs. inv (w1, hs) \<Longrightarrow> inv (body w1, hs)"
  shows "inv (release g (body w1), gs)"
  using assms acquire_inv release_inv by metis

end

interpretation dispatch_scope: scoped_resource make_guard destroy_guard drain_inv
proof unfold_locales
  show "drain_inv (w, gs) \<Longrightarrow> make_guard n w = (g, w') \<Longrightarrow> drain_inv (w', g # gs)" for w gs n g w'
    using make_guard_inv by blast
  show "drain_inv (w, g # gs) \<Longrightarrow> drain_inv (destroy_guard g w, gs)" for w g gs
    using destroy_guard_inv [of w "g # gs" 0] by simp
qed

section \<open>Properties\<close>

text \<open>
  C4: From \<open>begin_drain\<close> until \<open>end_drain\<close> of the name, under any interleaving of dispatches,
  releases and lifecycle calls: the state handed to the caller stays the one the name maps to, no
  call is admitted (the live calls of the name only decrease), and its counter is exactly the
  number of calls admitted before the fence and not yet finished. So \<open>wait_for_zero\<close> reports
  success only when every earlier call has completed.
\<close>

theorem drain_waits_for_all_admitted:
  assumes "drain_steps (empty_world, []) es0 (w, gs)" and "begin_drain n w = (i, w1)"
    and "drain_steps (w1, gs) es (w2, gs2)" and "End n \<notin> set es"
  shows "in_flight (dw_states w2 ! i) = live n gs2 \<and> live n gs2 \<le> live n gs
    \<and> \<not> was_admitted (fst (make_guard n w2))
    \<and> (fst (wait_for_zero i w2 w3) \<longleftrightarrow> live n gs2 = 0)"
proof -
  have inv: "drain_inv (w, gs)" by (rule drain_reachable_inv [OF assms(1)])
  have i1: "drain_inv (w1, gs)" "map_of (g_drains w1) n = Some i"
    using begin_drain_inv [OF inv assms(2)] by simp_all
  have "is_fenced n w1" using is_fenced_begin [OF _ assms(2)] inv by (simp add: drain_inv_def)
  from fence_kept_steps [OF assms(3), of n i] i1 this assms(4)
  have k: "is_fenced n w2" "map_of (g_drains w2) n = Some i" "live n gs2 \<le> live n gs" by simp_all
  have inv2: "drain_inv (w2, gs2)" by (rule drain_steps_inv [OF assms(3) i1(1)])
  have "i < length (dw_states w2)" using inv2 map_okD(1) [OF _ k(2)] by (simp add: drain_inv_def)
  then have "in_flight (dw_states w2 ! i) = live n gs2"
    using inv2 live_eq_holders [OF inv2 k(2)] by (simp add: drain_inv_def counts_ok_def)
  then show ?thesis using k make_guard_inv [OF inv2 prod.collapse [symmetric], of n]
    by (simp add: wait_for_zero_def)
qed

text \<open>The instance: one call is in flight, the fence goes up, a second call is refused.\<close>

lemma drain_example_run:
  "drain_steps (empty_world, []) [Enter ''a'']
     (\<lparr>dw_states = [\<lparr>in_flight = 1, fenced = False, application_blocked = False\<rparr>],
       g_drains = [(''a'', 0)], g_active_count = 0\<rparr>, [\<lparr>dg_name = ''a'', dg_state = Some 0\<rparr>])"
  by (rule steps_cons [OF step_enter steps_nil])
    (simp add: make_guard_def try_emplace_def empty_world_def fresh_state_def modify_state_def)

theorem drain_waits_for_all_admitted_witness:
  "let w1 = \<lparr>dw_states = [\<lparr>in_flight = 1, fenced = True, application_blocked = False\<rparr>],
       g_drains = [(''a'', 0)], g_active_count = 1\<rparr>;
     gs = [\<lparr>dg_name = ''a'', dg_state = Some 0\<rparr>]
   in in_flight (dw_states w1 ! 0) = live ''a'' gs \<and> live ''a'' gs \<le> live ''a'' gs
    \<and> \<not> was_admitted (fst (make_guard ''a'' w1))
    \<and> (fst (wait_for_zero 0 w1 w1) \<longleftrightarrow> live ''a'' gs = 0)"
  unfolding Let_def
  by (rule drain_waits_for_all_admitted [OF drain_example_run _ steps_nil])
    (simp_all add: begin_drain_def modify_state_def)

text \<open>
  The table tracks exactly what it must, after any interleaving: a tracked name's counter is
  the number of its live calls, and it is tracked only while fenced, blocked or called (no entry
  leaks); an untracked name has no live call (no admitted call is ever forgotten); and
  \<open>active_drain_count\<close> is the number of fenced names.
\<close>

theorem drain_tracking_exact:
  assumes "drain_steps (empty_world, []) es (w, gs)"
  shows "(case map_of (g_drains w) n of
       None \<Rightarrow> live n gs = 0
     | Some i \<Rightarrow> in_flight (dw_states w ! i) = live n gs
         \<and> (is_fenced n w \<or> is_application_blocked n w \<or> 0 < live n gs))
   \<and> active_drain_count w = card {m. is_fenced m w}"
proof -
  have inv: "drain_inv (w, gs)" by (rule drain_reachable_inv [OF assms])
  then have "active_drain_count w = card {m. is_fenced m w}"
    by (simp add: drain_inv_def active_ok_def active_drain_count_def fenced_names_def)
  moreover have "in_flight (dw_states w ! i) = live n gs
      \<and> (is_fenced n w \<or> is_application_blocked n w \<or> 0 < live n gs)"
    if i: "map_of (g_drains w) n = Some i" for i
  proof -
    have "i < length (dw_states w)" using inv map_okD(1) [OF _ i] by (simp add: drain_inv_def)
    then have "in_flight (dw_states w ! i) = live n gs"
      using inv live_eq_holders [OF inv i] by (simp add: drain_inv_def counts_ok_def)
    moreover have "fenced (dw_states w ! i) \<or> application_blocked (dw_states w ! i)
        \<or> 0 < in_flight (dw_states w ! i)"
      using inv i by (simp add: drain_inv_def no_leak_def)
    ultimately show ?thesis using i by (simp add: is_fenced_def is_application_blocked_def)
  qed
  ultimately show ?thesis using live_untracked [OF inv] by (auto split: option.splits)
qed

theorem drain_tracking_exact_witness:
  "in_flight \<lparr>in_flight = 1, fenced = False, application_blocked = False\<rparr>
     = live ''a'' [\<lparr>dg_name = ''a'', dg_state = Some 0\<rparr>]"
  using drain_tracking_exact [OF drain_example_run, of "''a''"] by simp

end
