(* ===== verification/Resolution.thy ===== *)
theory Resolution
  imports Capability_Names Drain Json
begin

text \<open>
  The capability resolver, \<open>capabilities/resolution.cpp\<close>, and batched calls, \<open>batch.cpp\<close>.
  The two maps behind \<open>state_mutex\<close> are the record \<open>resolver\<close>; a call reads them under a
  shared lock, so they are constant during a call, while the drain table and the audit queue are
  threaded through it. PostgreSQL and the extension runtime are parameters.
\<close>

section \<open>Types\<close>

record user_context =
  uc_user_id :: string
  uc_username :: string
  uc_auth_type :: string
  effective_rules :: "string list"
  uc_session_id :: string
  uc_ip_address :: string

definition anonymous :: user_context where
  "anonymous = \<lparr>uc_user_id = [], uc_username = [], uc_auth_type = ''anonymous'',
     effective_rules = [], uc_session_id = [], uc_ip_address = []\<rparr>"

definition anonymous_with_rules :: "string list \<Rightarrow> user_context" where
  "anonymous_with_rules rules = anonymous\<lparr>effective_rules := rules\<rparr>"

record capability_call =
  cc_signature :: string
  cc_args :: json
  call_depth :: int

record capability_result =
  cr_data :: json
  resolved_tier :: string
  cr_provider_type :: string

record cached_capability =
  ce_signature :: string
  ce_provider_type :: string
  ce_extension_name :: string
  ce_scope :: string
  ce_user_id :: string
  ce_rbac_rule :: string
  ce_enabled :: bool

type_synonym resolve_result = "capability_result + capability_error"
type_synonym handler_outcome = "json + capability_error"

text \<open>
  The Tier 1 handlers: the stubs, the load-harness chain, which calls the resolver again, and any
  other function registered through \<open>register_tier1_handler\<close>.
\<close>

datatype handler =
    NotImplemented string
  | Lh0Chain
  | Native "json \<Rightarrow> user_context \<Rightarrow> int \<Rightarrow> handler_outcome"

record tier1_entry =
  t1_handler :: handler
  t1_rbac_rule :: string

record resolver =
  tier1_map :: "(string \<times> tier1_entry) list"
  tier2_cache :: "(string \<times> cached_capability) list"

datatype tier2_reload_error = DATABASE_UNAVAILABLE | QUERY_FAILED

record audit_event =
  ae_action :: string
  ae_detail :: json
  ae_user_id :: string
  ae_session_id :: string
  ae_ip_address :: string

text \<open>What a call changes: the drain table and the queued audit events, oldest first.\<close>

record call_env =
  env_drain :: drain_world
  env_audits :: "audit_event list"

section \<open>Helpers\<close>

definition MAX_CALL_DEPTH :: int where "MAX_CALL_DEPTH = 8"

definition user_scope_key :: "string \<Rightarrow> string \<Rightarrow> string" where
  "user_scope_key signature user_id = signature @ '':user:'' @ user_id"

definition not_implemented_outcome :: "string \<Rightarrow> handler_outcome" where
  "not_implemented_outcome signature =
     Inl (set_member ''not_implemented'' (JString signature) (JObject []))"

definition kernel_stubs :: "(string \<times> string) list" where
  "kernel_stubs = [(''kernel:1:db.query'', ''kernel.db.query''),
                   (''kernel:1:db.exec'', ''kernel.db.exec''),
                   (''kernel:1:log'', ''kernel.log''),
                   (''kernel:1:audit'', ''kernel.audit''),
                   (''kernel:1:config.get'', ''kernel.config.get'')]"

definition register_kernel_stubs_locked :: "resolver \<Rightarrow> resolver" where
  "register_kernel_stubs_locked r = r\<lparr>tier1_map := fold (\<lambda>(sig, rule).
      AList.update sig \<lparr>t1_handler = NotImplemented sig, t1_rbac_rule = rule\<rparr>)
      kernel_stubs (tier1_map r)\<rparr>"

definition register_lh0_harness_handlers_locked :: "resolver \<Rightarrow> resolver" where
  "register_lh0_harness_handlers_locked r = r\<lparr>tier1_map := AList.update ''lh0:1:chain''
      \<lparr>t1_handler = Lh0Chain, t1_rbac_rule = ''kernel.admin''\<rparr> (tier1_map r)\<rparr>"

definition check_permission :: "string list \<Rightarrow> string \<Rightarrow> bool" where
  "check_permission rules required_rule =
     (if required_rule = [] then False
      else list_ex (\<lambda>rule. rule = required_rule \<or> rule = ''kernel.admin'') rules)"

definition emit_rbac_denied ::
  "capability_call \<Rightarrow> user_context \<Rightarrow> string \<Rightarrow> call_env \<Rightarrow> call_env" where
  "emit_rbac_denied call ctx rule env =
     (let d1 = set_member ''capability'' (JString (cc_signature call)) (JObject []);
          d2 = set_member ''rule'' (JString rule) d1;
          d3 = set_member ''call_depth'' (JInt (call_depth call)) d2;
          d4 = (if uc_username ctx \<noteq> [] then set_member ''username'' (JString (uc_username ctx)) d3
                else d3)
      in env\<lparr>env_audits := env_audits env @
           [\<lparr>ae_action = ''capability.rbac.denied'', ae_detail = d4, ae_user_id = uc_user_id ctx,
             ae_session_id = uc_session_id ctx, ae_ip_address = uc_ip_address ctx\<rparr>]\<rparr>)"

section \<open>Loading the Tier 2 cache\<close>

text \<open>
  The outcome of connecting and selecting is a parameter: \<open>Inr\<close> the failure, or the rows, each
  \<open>(signature, provider_type, extension_name, scope, rbac_rule, enabled)\<close> as text.
\<close>

type_synonym capability_row = "string \<times> string \<times> string \<times> string \<times> string \<times> string"
type_synonym db_select = "capability_row list + tier2_reload_error"

definition row_entry :: "capability_row \<Rightarrow> cached_capability" where
  "row_entry row = (case row of (sig, ptype, ext, scope, rule, enabled) \<Rightarrow>
     \<lparr>ce_signature = sig, ce_provider_type = ptype, ce_extension_name = ext, ce_scope = scope,
      ce_user_id = [], ce_rbac_rule = rule, ce_enabled = (enabled = ''t'')\<rparr>)"

definition load_tier2_snapshot_locked ::
  "db_select \<Rightarrow> (string \<times> cached_capability) list + tier2_reload_error" where
  "load_tier2_snapshot_locked db =
     (case db of
        Inr e \<Rightarrow> Inr e
      | Inl rows \<Rightarrow> Inl (fold (\<lambda>row m. AList.update (ce_signature (row_entry row)) (row_entry row) m)
                          rows []))"

definition init_resolver :: "db_select \<Rightarrow> resolver \<Rightarrow> (nat + tier2_reload_error) \<times> resolver" where
  "init_resolver db r =
     (let r1 = r\<lparr>tier1_map := [], tier2_cache := []\<rparr>;
          r2 = register_lh0_harness_handlers_locked (register_kernel_stubs_locked r1)
      in case load_tier2_snapshot_locked db of
           Inr e \<Rightarrow> (Inr e, r2)
         | Inl loaded \<Rightarrow> (Inl (length loaded), r2\<lparr>tier2_cache := loaded\<rparr>))"

definition reload_tier2_cache :: "db_select \<Rightarrow> resolver \<Rightarrow> (nat + tier2_reload_error) \<times> resolver" where
  "reload_tier2_cache db r =
     (case load_tier2_snapshot_locked db of
        Inr e \<Rightarrow> (Inr e, r)
      | Inl replacement \<Rightarrow> (Inl (length replacement), r\<lparr>tier2_cache := replacement\<rparr>))"

definition register_tier1_handler :: "string \<Rightarrow> string \<Rightarrow> handler \<Rightarrow> resolver \<Rightarrow> resolver" where
  "register_tier1_handler sig rule h r =
     r\<lparr>tier1_map := AList.update sig \<lparr>t1_handler = h, t1_rbac_rule = rule\<rparr> (tier1_map r)\<rparr>"

definition upsert_tier2_entry :: "cached_capability \<Rightarrow> resolver \<Rightarrow> resolver" where
  "upsert_tier2_entry e r =
     (let key = (if ce_scope e = ''user'' \<and> ce_user_id e \<noteq> []
                 then user_scope_key (ce_signature e) (ce_user_id e) else ce_signature e)
      in r\<lparr>tier2_cache := AList.update key e (tier2_cache r)\<rparr>)"

definition erase_tier2_entry :: "string \<Rightarrow> string \<Rightarrow> resolver \<Rightarrow> resolver" where
  "erase_tier2_entry signature scope r = r\<lparr>tier2_cache := AList.delete signature (tier2_cache r)\<rparr>"

definition set_enabled_by_extension_in_cache :: "string \<Rightarrow> bool \<Rightarrow> resolver \<Rightarrow> nat \<times> resolver" where
  "set_enabled_by_extension_in_cache ext enabled r =
     (length (filter (\<lambda>kv. ce_extension_name (snd kv) = ext) (tier2_cache r)),
      r\<lparr>tier2_cache := map (\<lambda>(k, e). (k, if ce_extension_name e = ext then e\<lparr>ce_enabled := enabled\<rparr> else e))
                        (tier2_cache r)\<rparr>)"

definition clear_resolver_for_test :: "resolver \<Rightarrow> resolver" where
  "clear_resolver_for_test r = r\<lparr>tier1_map := [], tier2_cache := []\<rparr>"

definition tier2_cache_size :: "resolver \<Rightarrow> nat" where
  "tier2_cache_size r = length (tier2_cache r)"

section \<open>Calls\<close>

text \<open>The lookup both entry points do under the shared lock: Tier 1, the user's own entry, the
  instance entry.\<close>

definition find_entry ::
  "resolver \<Rightarrow> string \<Rightarrow> user_context \<Rightarrow> (tier1_entry + cached_capability) option" where
  "find_entry r signature ctx =
     (case map_of (tier1_map r) signature of
        Some e \<Rightarrow> Some (Inl e)
      | None \<Rightarrow>
          (let user_hit = (if uc_user_id ctx \<noteq> []
                 then map_of (tier2_cache r) (user_scope_key signature (uc_user_id ctx)) else None)
           in case user_hit of
                Some e \<Rightarrow> Some (Inr e)
              | None \<Rightarrow> map_option Inr (map_of (tier2_cache r) signature)))"

definition entry_rule :: "tier1_entry + cached_capability \<Rightarrow> string" where
  "entry_rule e = (case e of Inl t1 \<Rightarrow> t1_rbac_rule t1 | Inr t2 \<Rightarrow> ce_rbac_rule t2)"

definition dispatch_tier2 :: "cached_capability \<Rightarrow> resolve_result" where
  "dispatch_tier2 entry =
     (if \<not> ce_enabled entry then Inr CAPABILITY_DISABLED
      else if ce_provider_type entry = ''sidecar'' then Inr TIER3_NOT_AVAILABLE
      else if ce_provider_type entry = ''extension'' then Inr ASYNC_REQUIRED
      else Inr CAPABILITY_NOT_FOUND)"

text \<open>The depth argument of the chain: the first positional argument when it is an \<open>int\<close>.\<close>

definition chain_depth :: "json \<Rightarrow> int" where
  "chain_depth args =
     (if is_array args \<and> elems args \<noteq> [] \<and> is_int (hd (elems args))
      then (case hd (elems args) of JInt i \<Rightarrow> i | _ \<Rightarrow> 1) else 1)"

definition release :: "dispatch_guard \<Rightarrow> call_env \<Rightarrow> call_env" where
  "release g env = env\<lparr>env_drain := destroy_guard g (env_drain env)\<rparr>"

text \<open>
  The guard taken at the top is released on every return. A chain handler calls the resolver again
  one level deeper, so the recursion is bounded by \<open>MAX_CALL_DEPTH\<close>.
\<close>

function call_capability ::
    "resolver \<Rightarrow> capability_call \<Rightarrow> user_context \<Rightarrow> call_env \<Rightarrow> resolve_result \<times> call_env"
  and dispatch_tier1 ::
    "resolver \<Rightarrow> tier1_entry \<Rightarrow> capability_call \<Rightarrow> user_context \<Rightarrow> call_env \<Rightarrow> resolve_result \<times> call_env"
  and lh0_chain_handler ::
    "resolver \<Rightarrow> json \<Rightarrow> user_context \<Rightarrow> int \<Rightarrow> call_env \<Rightarrow> handler_outcome \<times> call_env"
where
  "call_capability r call ctx env =
     (case parse_signature (cc_signature call) of
        Inr _ \<Rightarrow> (Inr INVALID_CAPABILITY, env)
      | Inl parsed \<Rightarrow>
          if call_depth call \<ge> MAX_CALL_DEPTH then (Inr CALL_DEPTH_EXCEEDED, env)
          else
            (case make_guard (ps_namespace parsed) (env_drain env) of (drain_guard, w) \<Rightarrow>
              let env1 = env\<lparr>env_drain := w\<rparr> in
              if \<not> was_admitted drain_guard then (Inr CAPABILITY_DISABLED, release drain_guard env1)
              else (case find_entry r (cc_signature call) ctx of
                      None \<Rightarrow> (Inr CAPABILITY_NOT_FOUND, release drain_guard env1)
                    | Some e \<Rightarrow>
                        if \<not> check_permission (effective_rules ctx) (entry_rule e)
                        then (Inr PERMISSION_DENIED,
                              release drain_guard (emit_rbac_denied call ctx (entry_rule e) env1))
                        else (case e of
                                Inl tier1_hit \<Rightarrow>
                                  (case dispatch_tier1 r tier1_hit call ctx env1 of
                                     (res, env2) \<Rightarrow> (res, release drain_guard env2))
                              | Inr tier2_hit \<Rightarrow>
                                  (dispatch_tier2 tier2_hit, release drain_guard env1)))))"
| "dispatch_tier1 r entry call ctx env =
     (case (case t1_handler entry of
              NotImplemented signature \<Rightarrow> (not_implemented_outcome signature, env)
            | Native f \<Rightarrow> (f (cc_args call) ctx (call_depth call + 1), env)
            | Lh0Chain \<Rightarrow> lh0_chain_handler r (cc_args call) ctx (call_depth call + 1) env) of
        (out, env1) \<Rightarrow>
          (case out of
             Inr e \<Rightarrow> (Inr e, env1)
           | Inl data \<Rightarrow> (Inl \<lparr>cr_data = data, resolved_tier = ''tier1'',
                              cr_provider_type = ''kernel''\<rparr>, env1)))"
| "lh0_chain_handler r args ctx depth_now env =
     (let depth = chain_depth args in
      if depth \<le> 1 then
        (Inl (set_member ''terminal'' (JBool True)
               (set_member ''depth'' (JInt (if depth \<le> 0 then 1 else depth)) (JObject []))), env)
      else
        (case call_capability r \<lparr>cc_signature = ''lh0:1:chain'', cc_args = JArray [JInt (depth - 1)],
                                 call_depth = depth_now\<rparr> ctx env of
           (res, env1) \<Rightarrow>
             (case res of
                Inr e \<Rightarrow> (Inr e, env1)
              | Inl v \<Rightarrow> (Inl (set_member ''sub'' (cr_data v)
                                 (set_member ''depth'' (JInt depth) (JObject []))), env1))))"
  by pat_completeness auto
termination
  by (relation "measure (\<lambda>x. case x of
        Inl (_, call, _, _) \<Rightarrow> 3 * nat (MAX_CALL_DEPTH - call_depth call)
      | Inr (Inl (_, _, call, _, _)) \<Rightarrow> 3 * nat (MAX_CALL_DEPTH - (call_depth call + 1)) + 2
      | Inr (Inr (_, _, _, d, _)) \<Rightarrow> 3 * nat (MAX_CALL_DEPTH - d) + 1)") auto

declare call_capability.simps [simp del] dispatch_tier1.simps [simp del] lh0_chain_handler.simps [simp del]

text \<open>
  The asynchronous entry point. \<open>ext_dispatch\<close> stands for awaiting
  \<open>plinth::extensions::dispatch\<close>, during which other work may change the environment; a
  rejection carries the code and message handed to the caller's detail channel.
\<close>

type_synonym ext_dispatch =
  "string \<Rightarrow> string \<Rightarrow> json \<Rightarrow> user_context \<Rightarrow> int \<Rightarrow> call_env \<Rightarrow> (json + string \<times> string) \<times> call_env"

definition call_capability_async ::
  "ext_dispatch \<Rightarrow> resolver \<Rightarrow> capability_call \<Rightarrow> user_context \<Rightarrow> call_env
     \<Rightarrow> resolve_result \<times> (string \<times> string) option \<times> call_env" where
  "call_capability_async ext_dispatch r call ctx env =
     (case parse_signature (cc_signature call) of
        Inr _ \<Rightarrow> (Inr INVALID_CAPABILITY, None, env)
      | Inl parsed \<Rightarrow>
          if call_depth call \<ge> MAX_CALL_DEPTH then (Inr CALL_DEPTH_EXCEEDED, None, env)
          else
            (case make_guard (ps_namespace parsed) (env_drain env) of (drain_guard, w) \<Rightarrow>
              let env1 = env\<lparr>env_drain := w\<rparr> in
              if \<not> was_admitted drain_guard
              then (Inr CAPABILITY_DISABLED, None, release drain_guard env1)
              else (case find_entry r (cc_signature call) ctx of
                      None \<Rightarrow> (Inr CAPABILITY_NOT_FOUND, None, release drain_guard env1)
                    | Some e \<Rightarrow>
                        if \<not> check_permission (effective_rules ctx) (entry_rule e)
                        then (Inr PERMISSION_DENIED, None,
                              release drain_guard (emit_rbac_denied call ctx (entry_rule e) env1))
                        else (case e of
                                Inl tier1_hit \<Rightarrow>
                                  (case dispatch_tier1 r tier1_hit call ctx env1 of
                                     (res, env2) \<Rightarrow> (res, None, release drain_guard env2))
                              | Inr tier2_hit \<Rightarrow>
                                  if ce_provider_type tier2_hit \<noteq> ''extension''
                                  then (dispatch_tier2 tier2_hit, None, release drain_guard env1)
                                  else if \<not> ce_enabled tier2_hit
                                  then (Inr CAPABILITY_DISABLED, None, release drain_guard env1)
                                  else (case ext_dispatch (ce_extension_name tier2_hit)
                                               (ps_function parsed) (cc_args call) ctx
                                               (call_depth call) env1 of
                                          (Inl v, env2) \<Rightarrow>
                                            (Inl \<lparr>cr_data = v, resolved_tier = ''tier2'',
                                                  cr_provider_type = ''extension''\<rparr>,
                                             None, release drain_guard env2)
                                        | (Inr detail, env2) \<Rightarrow>
                                            (Inr EXTENSION_DISPATCH_FAILED, Some detail,
                                             release drain_guard env2))))))"

section \<open>Batches\<close>

record batch_result =
  br_values :: "capability_result list option"
  br_error :: "capability_error option"
  failed_index :: nat

text \<open>The loop over \<open>calls\<close> from index \<open>i\<close>, with the results so far.\<close>

fun batch_loop ::
  "resolver \<Rightarrow> int \<Rightarrow> user_context \<Rightarrow> nat \<Rightarrow> capability_result list \<Rightarrow> capability_call list \<Rightarrow> call_env
     \<Rightarrow> batch_result \<times> call_env" where
  "batch_loop r shared_depth ctx i values [] env =
     (\<lparr>br_values = Some values, br_error = None, failed_index = 0\<rparr>, env)"
| "batch_loop r shared_depth ctx i values (c # cs) env =
     (case call_capability r (c\<lparr>call_depth := shared_depth\<rparr>) ctx env of
        (Inr e, env1) \<Rightarrow> (\<lparr>br_values = None, br_error = Some e, failed_index = i\<rparr>, env1)
      | (Inl v, env1) \<Rightarrow> batch_loop r shared_depth ctx (i + 1) (values @ [v]) cs env1)"

definition batch_call_capability ::
  "resolver \<Rightarrow> capability_call list \<Rightarrow> user_context \<Rightarrow> call_env \<Rightarrow> batch_result \<times> call_env" where
  "batch_call_capability r calls ctx env =
     (case calls of
        [] \<Rightarrow> (\<lparr>br_values = Some [], br_error = None, failed_index = 0\<rparr>, env)
      | c # _ \<Rightarrow> batch_loop r (call_depth c) ctx 0 [] calls env)"

section \<open>The guarded part of a call\<close>

text \<open>What runs between taking the guard and releasing it.\<close>

definition call_body ::
  "resolver \<Rightarrow> capability_call \<Rightarrow> user_context \<Rightarrow> dispatch_guard \<Rightarrow> call_env \<Rightarrow> resolve_result \<times> call_env" where
  "call_body r call ctx g env1 =
     (if \<not> was_admitted g then (Inr CAPABILITY_DISABLED, env1)
      else case find_entry r (cc_signature call) ctx of
             None \<Rightarrow> (Inr CAPABILITY_NOT_FOUND, env1)
           | Some e \<Rightarrow>
               if \<not> check_permission (effective_rules ctx) (entry_rule e)
               then (Inr PERMISSION_DENIED, emit_rbac_denied call ctx (entry_rule e) env1)
               else (case e of
                       Inl tier1_hit \<Rightarrow> dispatch_tier1 r tier1_hit call ctx env1
                     | Inr tier2_hit \<Rightarrow> (dispatch_tier2 tier2_hit, env1)))"

lemma call_capability_guarded:
  assumes "parse_signature (cc_signature call) = Inl parsed" and "call_depth call < MAX_CALL_DEPTH"
    and "make_guard (ps_namespace parsed) (env_drain env) = (g, w)"
  shows "call_capability r call ctx env =
     (fst (call_body r call ctx g (env\<lparr>env_drain := w\<rparr>)),
      release g (snd (call_body r call ctx g (env\<lparr>env_drain := w\<rparr>))))"
  using assms
  by (subst call_capability.simps)
    (simp add: call_body_def Let_def case_prod_beta split: option.split sum.split)

lemma call_capability_early:
  "parse_signature (cc_signature call) = Inr e \<Longrightarrow>
     call_capability r call ctx env = (Inr INVALID_CAPABILITY, env)"
  "parse_signature (cc_signature call) = Inl parsed \<Longrightarrow> \<not> call_depth call < MAX_CALL_DEPTH \<Longrightarrow>
     call_capability r call ctx env = (Inr CALL_DEPTH_EXCEEDED, env)"
  by (simp_all add: call_capability.simps)

section \<open>Guards are balanced\<close>

text \<open>
  What a piece of a call does to the drain table: it keeps the invariant over whatever guards the
  rest of the process holds, so it leaves none of its own behind, and it moves no fence.
\<close>

definition balanced :: "call_env \<Rightarrow> call_env \<Rightarrow> bool" where
  "balanced env env' \<longleftrightarrow> (\<forall>gs. drain_inv (env_drain env, gs) \<longrightarrow>
     drain_inv (env_drain env', gs) \<and> fenced_names (env_drain env') = fenced_names (env_drain env))"

lemma balanced_refl [simp]: "balanced env env"
  by (simp add: balanced_def)

lemma balanced_same_drain: "env_drain env' = env_drain env \<Longrightarrow> balanced env env'"
  by (simp add: balanced_def)

lemma balanced_trans: "balanced a b \<Longrightarrow> balanced b c \<Longrightarrow> balanced a c"
  unfolding balanced_def by metis

lemma balanced_guard:
  assumes g: "make_guard n (env_drain env) = (g, w)" and b: "balanced (env\<lparr>env_drain := w\<rparr>) env2"
  shows "balanced env (release g env2)"
  unfolding balanced_def
proof (intro allI impI)
  fix gs assume i: "drain_inv (env_drain env, gs)"
  have w: "drain_inv (w, g # gs)" "fenced_names w = fenced_names (env_drain env)"
    using make_guard_inv [OF i g] by simp_all
  have e2: "drain_inv (env_drain env2, g # gs)" "fenced_names (env_drain env2) = fenced_names w"
    using b w(1) by (simp_all add: balanced_def)
  show "drain_inv (env_drain (release g env2), gs)
      \<and> fenced_names (env_drain (release g env2)) = fenced_names (env_drain env)"
    using destroy_guard_inv [OF e2(1), of 0] e2(2) w(2) by (simp add: release_def)
qed

lemma env_drain_emit [simp]: "env_drain (emit_rbac_denied call ctx rule env) = env_drain env"
  by (simp add: emit_rbac_denied_def Let_def)

lemma calls_balanced:
  "balanced env (snd (call_capability r call ctx env))"
  "balanced env' (snd (dispatch_tier1 r entry call' ctx' env'))"
  "balanced env'' (snd (lh0_chain_handler r args ctx'' d env''))"
proof (induction r call ctx env and r entry call' ctx' env' and r args ctx'' d env''
    rule: call_capability_dispatch_tier1_lh0_chain_handler.induct)
  case (1 r call ctx env)
  show ?case
  proof (cases "parse_signature (cc_signature call)")
    case (Inl parsed)
    show ?thesis
    proof (cases "call_depth call < MAX_CALL_DEPTH")
      case True
      obtain g w where g: "make_guard (ps_namespace parsed) (env_drain env) = (g, w)" by fastforce
      let ?e1 = "env\<lparr>env_drain := w\<rparr>"
      have d: "balanced ?e1 (snd (dispatch_tier1 r t1 call ctx ?e1))"
        if "was_admitted g" "find_entry r (cc_signature call) ctx = Some (Inl t1)"
          "check_permission (effective_rules ctx) (entry_rule (Inl t1))" for t1
        using 1 Inl True g that by simp
      have e: "balanced ?e1 (emit_rbac_denied call ctx rule ?e1)" for rule
        by (rule balanced_same_drain) simp
      have "balanced ?e1 (snd (call_body r call ctx g ?e1))"
        using d e by (auto simp: call_body_def split: option.split sum.split)
      then show ?thesis
        using balanced_guard [OF g] call_capability_guarded [OF Inl True g] by simp
    qed (simp add: call_capability_early(2) [OF Inl])
  qed (simp add: call_capability_early)
next
  case (2 r entry call ctx env)
  then show ?case
    by (subst dispatch_tier1.simps)
      (auto split: handler.splits sum.splits simp: case_prod_beta dispatch_tier1.simps)
next
  case (3 r args ctx d env)
  then show ?case
    by (subst lh0_chain_handler.simps) (auto split: sum.splits simp: case_prod_beta Let_def)
qed

lemma call_capability_admitted:
  assumes inv: "drain_inv (env_drain env, gs)" and p: "parse_signature (cc_signature call) = Inl parsed"
    and d: "call_depth call < MAX_CALL_DEPTH" and f: "\<not> is_fenced (ps_namespace parsed) (env_drain env)"
  obtains g w where "make_guard (ps_namespace parsed) (env_drain env) = (g, w)" "was_admitted g"
    "call_capability r call ctx env = (fst (call_body r call ctx g (env\<lparr>env_drain := w\<rparr>)),
       release g (snd (call_body r call ctx g (env\<lparr>env_drain := w\<rparr>))))"
proof -
  obtain g w where g: "make_guard (ps_namespace parsed) (env_drain env) = (g, w)" by fastforce
  from that [OF g] make_guard_inv [OF inv g] f call_capability_guarded [OF p d g] show thesis by blast
qed

lemma fenced_call_disabled:
  assumes inv: "drain_inv (env_drain env, gs)" and p: "parse_signature (cc_signature call) = Inl parsed"
    and d: "call_depth call < MAX_CALL_DEPTH" and f: "is_fenced (ps_namespace parsed) (env_drain env)"
  shows "fst (call_capability r call ctx env) = Inr CAPABILITY_DISABLED"
proof -
  obtain g w where g: "make_guard (ps_namespace parsed) (env_drain env) = (g, w)" by fastforce
  with make_guard_inv [OF inv g] f call_capability_guarded [OF p d g] show ?thesis
    by (simp add: call_body_def)
qed

lemma env_audits_release [simp]: "env_audits (release g env) = env_audits env"
  by (simp add: release_def)

section \<open>The chain\<close>

lemma call_env_update_same: "env_drain (env\<lparr>env_drain := w\<rparr>) = w"
  by simp

text \<open>The value a chain of \<open>n\<close> levels returns.\<close>

fun chain_payload :: "nat \<Rightarrow> json" where
  "chain_payload n =
     (if n \<le> 1 then set_member ''terminal'' (JBool True) (set_member ''depth'' (JInt 1) (JObject []))
      else set_member ''sub'' (chain_payload (n - 1)) (set_member ''depth'' (JInt (int n)) (JObject [])))"

declare chain_payload.simps [simp del]

lemma parse_lh0: "parse_signature ''lh0:1:chain'' =
    Inl \<lparr>ps_namespace = ''lh0'', ps_version = 1, ps_function = ''chain''\<rparr>"
  by code_simp

lemma chain_depth_int: "int_min \<le> i \<Longrightarrow> i \<le> int_max \<Longrightarrow> chain_depth (JArray [JInt i]) = i"
  by (simp add: chain_depth_def)

lemma chain_result:
  assumes r: "map_of (tier1_map r) ''lh0:1:chain'' = Some \<lparr>t1_handler = Lh0Chain, t1_rbac_rule = rule\<rparr>"
    and ok: "check_permission (effective_rules ctx) rule"
    and n: "1 \<le> n" "int n \<le> int_max"
  shows "drain_inv (env_drain env, gs) \<Longrightarrow> \<not> is_fenced ''lh0'' (env_drain env) \<Longrightarrow>
    fst (call_capability r \<lparr>cc_signature = ''lh0:1:chain'', cc_args = JArray [JInt (int n)],
                            call_depth = d\<rparr> ctx env) =
      (if d + int n \<le> MAX_CALL_DEPTH
       then Inl \<lparr>cr_data = chain_payload n, resolved_tier = ''tier1'', cr_provider_type = ''kernel''\<rparr>
       else Inr CALL_DEPTH_EXCEEDED)"
  using n
proof (induction n arbitrary: d env gs)
  case (Suc m)
  let ?call = "\<lambda>k d. \<lparr>cc_signature = ''lh0:1:chain'', cc_args = JArray [JInt k], call_depth = d\<rparr>"
  let ?c = "?call (int (Suc m)) d"
  have p: "parse_signature (cc_signature ?c) =
      Inl \<lparr>ps_namespace = ''lh0'', ps_version = 1, ps_function = ''chain''\<rparr>"
    by (simp add: parse_lh0)
  show ?case
  proof (cases "d < MAX_CALL_DEPTH")
    case True
    then have "call_depth ?c < MAX_CALL_DEPTH" by simp
    from call_capability_admitted [OF Suc.prems(1) p this, of r ctx] Suc.prems(2)
    obtain g w where g: "make_guard ''lh0'' (env_drain env) = (g, w)" "was_admitted g"
      and c: "call_capability r ?c ctx env = (fst (call_body r ?c ctx g (env\<lparr>env_drain := w\<rparr>)),
         release g (snd (call_body r ?c ctx g (env\<lparr>env_drain := w\<rparr>))))" by auto
    let ?e1 = "env\<lparr>env_drain := w\<rparr>"
    have e1: "drain_inv (env_drain ?e1, g # gs)" "\<not> is_fenced ''lh0'' (env_drain ?e1)"
      using make_guard_inv [OF Suc.prems(1) g(1)] Suc.prems(2)
      by (auto simp: fenced_names_def)
    have b: "fst (call_body r ?c ctx g ?e1) = (case fst (lh0_chain_handler r (cc_args ?c) ctx (d + 1) ?e1) of
        Inr e \<Rightarrow> Inr e
      | Inl data \<Rightarrow> Inl \<lparr>cr_data = data, resolved_tier = ''tier1'', cr_provider_type = ''kernel''\<rparr>)"
      using g(2) r ok
      by (simp add: call_body_def find_entry_def entry_rule_def dispatch_tier1.simps case_prod_beta
          split: sum.split)
    have k: "chain_depth (JArray [JInt (int (Suc m))]) = int (Suc m)"
      using Suc.prems(4) by (intro chain_depth_int) auto
    show ?thesis
    proof (cases "m = 0")
      case True
      with k have "chain_depth (cc_args ?c) = 1" by simp
      with True \<open>d < MAX_CALL_DEPTH\<close> show ?thesis unfolding c fst_conv b
        by (simp add: lh0_chain_handler.simps chain_payload.simps Let_def)
    next
      case False
      then have "fst (call_capability r (?call (int m) (d + 1)) ctx ?e1) =
        (if d + 1 + int m \<le> MAX_CALL_DEPTH
         then Inl \<lparr>cr_data = chain_payload m, resolved_tier = ''tier1'', cr_provider_type = ''kernel''\<rparr>
         else Inr CALL_DEPTH_EXCEEDED)"
        using Suc.prems by (intro Suc.IH [OF e1]) auto
      moreover have "d + 1 + int m = d + int (Suc m)" "int (Suc m) - 1 = int m" by simp_all
      ultimately have "fst (lh0_chain_handler r (cc_args ?c) ctx (d + 1) ?e1) =
        (if d + int (Suc m) \<le> MAX_CALL_DEPTH then Inl (chain_payload (Suc m)) else Inr CALL_DEPTH_EXCEEDED)"
        using False k unfolding chain_payload.simps [of "Suc m"] lh0_chain_handler.simps [of _ "cc_args ?c"]
        by (simp only: Let_def capability_call.simps) (simp add: case_prod_beta split: sum.split)
      then show ?thesis unfolding c fst_conv b by simp
    qed
  next
    case False
    then show ?thesis using call_capability_early(2) [OF p, of r ctx env] Suc.prems by simp
  qed
qed simp

section \<open>The keys of the cache\<close>

lemma parsed_colons: "parse_signature s = Inl p \<Longrightarrow> count_list s colon = 2"
  using parse_signature_InlD [of s p] by (auto simp: count_list_append count_notin)

lemma user_scope_key_not_signature:
  "parse_signature s = Inl p \<Longrightarrow> parse_signature s' = Inl p' \<Longrightarrow> user_scope_key s u \<noteq> s'"
  using parsed_colons [of s p] parsed_colons [of s' p']
  by (auto simp: user_scope_key_def count_list_append)

lemma colon_tail_cut:
  assumes "s @ colon # v = s' @ colon # v'" and "count_list s colon = count_list s' colon"
  shows "s = s'"
proof -
  have "s = s'" if "s @ colon # v = s' @ colon # v'" "count_list s colon = count_list s' colon"
    "length s \<le> length s'" for s s' v v'
  proof -
    from that(1,3) obtain x where x: "s' = s @ x" "colon # v = x @ colon # v'"
      by (auto simp: append_eq_append_conv2)
    with that(2) have "count_list x colon = 0" by (simp add: count_list_append)
    with x(2) have "x = []" by (cases x) auto
    with x(1) show ?thesis by simp
  qed
  from this [OF assms] this [OF assms [symmetric]] show ?thesis
    by (cases "length s \<le> length s'") auto
qed

lemma user_scope_key_inj:
  assumes "parse_signature s = Inl p" and "parse_signature s' = Inl p'"
  shows "user_scope_key s u = user_scope_key s' u' \<longleftrightarrow> s = s' \<and> u = u'"
  using colon_tail_cut [of s "''user:'' @ u" s' "''user:'' @ u'"]
    parsed_colons [OF assms(1)] parsed_colons [OF assms(2)]
  by (auto simp: user_scope_key_def)

section \<open>Loading\<close>

lemma ce_signature_row_entry [simp]: "ce_signature (row_entry row) = fst row"
  by (simp add: row_entry_def case_prod_beta)

lemma load_snapshot_lookup:
  "map_of (fold (\<lambda>row m. AList.update (fst row) (row_entry row) m) rows m) sig =
     (case filter (\<lambda>row. fst row = sig) rows of
        [] \<Rightarrow> map_of m sig | hits \<Rightarrow> Some (row_entry (last hits)))"
  by (induction rows arbitrary: m) (auto simp: map_of_update split: list.splits)

section \<open>The asynchronous entry point\<close>

lemma async_guarded:
  assumes "parse_signature (cc_signature call) = Inl parsed" and "call_depth call < MAX_CALL_DEPTH"
    and "make_guard (ps_namespace parsed) (env_drain env) = (g, w)"
    and "\<not> (\<exists>e. was_admitted g \<and> find_entry r (cc_signature call) ctx = Some (Inr e)
        \<and> check_permission (effective_rules ctx) (ce_rbac_rule e)
        \<and> ce_provider_type e = ''extension'' \<and> ce_enabled e)"
  shows "call_capability_async x r call ctx env =
     (fst (call_capability r call ctx env), None, snd (call_capability r call ctx env))"
  using assms
  by (simp add: call_capability_guarded call_body_def call_capability_async_def Let_def case_prod_beta
      entry_rule_def dispatch_tier2_def split: option.split sum.split)

lemma async_extension:
  assumes "parse_signature (cc_signature call) = Inl parsed" and "call_depth call < MAX_CALL_DEPTH"
    and "make_guard (ps_namespace parsed) (env_drain env) = (g, w)" and "was_admitted g"
    and "find_entry r (cc_signature call) ctx = Some (Inr e)"
    and "check_permission (effective_rules ctx) (ce_rbac_rule e)"
    and "ce_provider_type e = ''extension''" and "ce_enabled e"
    and "x (ce_extension_name e) (ps_function parsed) (cc_args call) ctx (call_depth call)
           (env\<lparr>env_drain := w\<rparr>) = (out, env2)"
  shows "call_capability_async x r call ctx env =
    (case out of
       Inl v \<Rightarrow> (Inl \<lparr>cr_data = v, resolved_tier = ''tier2'', cr_provider_type = ''extension''\<rparr>,
                 None, release g env2)
     | Inr detail \<Rightarrow> (Inr EXTENSION_DISPATCH_FAILED, Some detail, release g env2))"
  using assms by (simp add: call_capability_async_def Let_def entry_rule_def split: sum.split)

lemma sync_extension:
  assumes "parse_signature (cc_signature call) = Inl parsed" and "call_depth call < MAX_CALL_DEPTH"
    and "make_guard (ps_namespace parsed) (env_drain env) = (g, w)" and "was_admitted g"
    and "find_entry r (cc_signature call) ctx = Some (Inr e)"
    and "check_permission (effective_rules ctx) (ce_rbac_rule e)"
    and "ce_provider_type e = ''extension''" and "ce_enabled e"
  shows "fst (call_capability r call ctx env) = Inr ASYNC_REQUIRED"
  using assms by (simp add: call_capability_guarded call_body_def entry_rule_def dispatch_tier2_def)

lemma async_cases:
  obtains (sync) "call_capability_async x r call ctx env =
      (fst (call_capability r call ctx env), None, snd (call_capability r call ctx env))"
  | (ext) parsed g w e where "make_guard (ps_namespace (parsed :: parsed_signature)) (env_drain env) = (g, w)"
      "fst (call_capability r call ctx env) = Inr ASYNC_REQUIRED"
      "snd (snd (call_capability_async x r call ctx env)) = release g (snd (x (ce_extension_name
         (e :: cached_capability)) (ps_function parsed) (cc_args call) ctx (call_depth call)
         (env\<lparr>env_drain := w\<rparr>)))"
proof (cases "parse_signature (cc_signature call)")
  case (Inr e)
  then show ?thesis by (intro sync) (simp add: call_capability_early call_capability_async_def)
next
  case (Inl parsed)
  note p = this
  show ?thesis
  proof (cases "call_depth call < MAX_CALL_DEPTH")
    case False
    then show ?thesis using p
      by (intro sync) (simp add: call_capability_early(2) [OF p] call_capability_async_def)
  next
    case d: True
    obtain g w where g: "make_guard (ps_namespace parsed) (env_drain env) = (g, w)" by fastforce
    show ?thesis
    proof (cases "\<exists>e. was_admitted g \<and> find_entry r (cc_signature call) ctx = Some (Inr e)
        \<and> check_permission (effective_rules ctx) (ce_rbac_rule e)
        \<and> ce_provider_type e = ''extension'' \<and> ce_enabled e")
      case True
      then obtain e where e: "was_admitted g" "find_entry r (cc_signature call) ctx = Some (Inr e)"
        "check_permission (effective_rules ctx) (ce_rbac_rule e)"
        "ce_provider_type e = ''extension''" "ce_enabled e" by blast
      show ?thesis
        using async_extension [OF p d g e prod.collapse [symmetric], of x]
        by (intro ext [OF g sync_extension [OF p d g e], of e]) (simp split: sum.split)
    next
      case False
      then show ?thesis by (rule sync [OF async_guarded [OF p d g]])
    qed
  qed
qed

section \<open>Batches in terms of single calls\<close>

text \<open>The environment after a list of calls made one after the other at the same depth.\<close>

fun after_calls :: "resolver \<Rightarrow> int \<Rightarrow> user_context \<Rightarrow> capability_call list \<Rightarrow> call_env \<Rightarrow> call_env" where
  "after_calls r d ctx [] env = env"
| "after_calls r d ctx (c # cs) env =
     after_calls r d ctx cs (snd (call_capability r (c\<lparr>call_depth := d\<rparr>) ctx env))"

definition nth_result ::
  "resolver \<Rightarrow> int \<Rightarrow> user_context \<Rightarrow> capability_call list \<Rightarrow> call_env \<Rightarrow> nat \<Rightarrow> resolve_result" where
  "nth_result r d ctx cs env i =
     fst (call_capability r ((cs ! i)\<lparr>call_depth := d\<rparr>) ctx (after_calls r d ctx (take i cs) env))"

lemma nth_result_Cons:
  "nth_result r d ctx (c # cs) env 0 = fst (call_capability r (c\<lparr>call_depth := d\<rparr>) ctx env)"
  "nth_result r d ctx (c # cs) env (Suc i) =
     nth_result r d ctx cs (snd (call_capability r (c\<lparr>call_depth := d\<rparr>) ctx env)) i"
  by (simp_all add: nth_result_def)

lemma batch_loop_success:
  assumes "\<forall>i<length cs. nth_result r d ctx cs env i = Inl (vs ! i)" and "length vs = length cs"
  shows "batch_loop r d ctx k acc cs env =
    (\<lparr>br_values = Some (acc @ vs), br_error = None, failed_index = 0\<rparr>, after_calls r d ctx cs env)"
  using assms
proof (induction cs arbitrary: env k acc vs)
  case (Cons c cs)
  obtain v ws where vs: "vs = v # ws" using Cons.prems(2) by (cases vs) auto
  obtain x e where c: "call_capability r (c\<lparr>call_depth := d\<rparr>) ctx env = (x, e)" by fastforce
  have "x = Inl v" using Cons.prems(1) c by (auto simp: nth_result_Cons vs dest: spec [of _ 0])
  moreover have "nth_result r d ctx cs e i = Inl (ws ! i)" if "i < length cs" for i
    using spec [OF Cons.prems(1), of "Suc i"] that c by (simp add: nth_result_Cons vs)
  ultimately show ?case using Cons.IH [of e ws "k + 1" "acc @ [v]"] Cons.prems(2) vs c by simp
qed simp

lemma batch_loop_failure:
  assumes "i < length cs" and "\<forall>j<i. isl (nth_result r d ctx cs env j)"
    and "nth_result r d ctx cs env i = Inr e"
  shows "batch_loop r d ctx k acc cs env =
    (\<lparr>br_values = None, br_error = Some e, failed_index = k + i\<rparr>, after_calls r d ctx (take (Suc i) cs) env)"
  using assms
proof (induction cs arbitrary: env k acc i)
  case (Cons c cs)
  obtain x e1 where c: "call_capability r (c\<lparr>call_depth := d\<rparr>) ctx env = (x, e1)" by fastforce
  show ?case
  proof (cases i)
    case 0
    with Cons.prems(3) c show ?thesis by (simp add: nth_result_Cons)
  next
    case (Suc j)
    from Cons.prems(2) Suc have "isl (nth_result r d ctx (c # cs) env 0)" by blast
    then obtain v where v: "x = Inl v" using c by (auto simp: nth_result_Cons isl_def)
    have "isl (nth_result r d ctx cs e1 m)" if "m < j" for m
      using spec [OF Cons.prems(2), of "Suc m"] that Suc c by (simp add: nth_result_Cons)
    then show ?thesis using Cons.IH [of j e1 "k + 1" "acc @ [v]"] Cons.prems Suc v c
      by (simp add: nth_result_Cons)
  qed
qed simp

section \<open>Properties\<close>

text \<open>
  C2: A call succeeds only with authority: the signature is valid, the depth is below the limit, the
  namespace is not fenced, an entry was found, and the caller holds that entry's (non-empty) rule or
  \<open>kernel.admin\<close>. This holds for every registered handler, also through nested calls.
\<close>

theorem success_requires_authority:
  assumes inv: "drain_inv (env_drain env, gs)" and s: "call_capability r call ctx env = (Inl v, env')"
  shows "\<exists>parsed e. parse_signature (cc_signature call) = Inl parsed \<and> call_depth call < MAX_CALL_DEPTH
    \<and> \<not> is_fenced (ps_namespace parsed) (env_drain env)
    \<and> find_entry r (cc_signature call) ctx = Some e \<and> entry_rule e \<noteq> []
    \<and> (entry_rule e \<in> set (effective_rules ctx) \<or> ''kernel.admin'' \<in> set (effective_rules ctx))"
proof -
  obtain parsed where p: "parse_signature (cc_signature call) = Inl parsed"
    using s call_capability_early(1) [of call] by (cases "parse_signature (cc_signature call)") auto
  have d: "call_depth call < MAX_CALL_DEPTH"
    using s call_capability_early(2) [OF p, of r ctx env] by (cases "call_depth call < MAX_CALL_DEPTH") auto
  have f: "\<not> is_fenced (ps_namespace parsed) (env_drain env)"
    using s fenced_call_disabled [OF inv p d, of r ctx] by auto
  from call_capability_admitted [OF inv p d f, of r ctx] s
  obtain g w where "was_admitted g" "fst (call_body r call ctx g (env\<lparr>env_drain := w\<rparr>)) = Inl v"
    by (metis fst_conv)
  then obtain e where "find_entry r (cc_signature call) ctx = Some e"
    "check_permission (effective_rules ctx) (entry_rule e)"
    by (auto simp: call_body_def split: option.splits if_splits)
  with p d f show ?thesis
    by (auto simp: check_permission_def list_ex_iff split: if_splits)
qed

text \<open>A resolver with the load-harness chain, an administrator, and an idle process.\<close>

definition demo_resolver :: resolver where
  "demo_resolver = snd (init_resolver (Inl []) \<lparr>tier1_map = [], tier2_cache = []\<rparr>)"

definition demo_admin :: user_context where
  "demo_admin = anonymous_with_rules [''kernel.admin'']"

definition demo_env :: call_env where
  "demo_env = \<lparr>env_drain = empty_world, env_audits = []\<rparr>"

lemmas demo_defs = demo_resolver_def init_resolver_def load_tier2_snapshot_locked_def Let_def
  register_lh0_harness_handlers_locked_def register_kernel_stubs_locked_def kernel_stubs_def

lemma demo_lookup:
  "map_of (tier1_map demo_resolver) ''lh0:1:chain'' =
      Some \<lparr>t1_handler = Lh0Chain, t1_rbac_rule = ''kernel.admin''\<rparr>"
  "map_of (tier1_map demo_resolver) ''kernel:1:log'' =
      Some \<lparr>t1_handler = NotImplemented ''kernel:1:log'', t1_rbac_rule = ''kernel.log''\<rparr>"
  by (simp_all add: demo_defs)

lemma demo_inv: "drain_inv (env_drain demo_env, [])"
  by (simp add: demo_env_def drain_inv_empty)

lemma demo_stub_call:
  "call_capability demo_resolver \<lparr>cc_signature = ''kernel:1:log'', cc_args = JNull, call_depth = 0\<rparr>
     demo_admin demo_env =
   (Inl \<lparr>cr_data = JObject [(''not_implemented'', JString ''kernel:1:log'')], resolved_tier = ''tier1'',
         cr_provider_type = ''kernel''\<rparr>,
    \<lparr>env_drain = \<lparr>dw_states = [fresh_state], g_drains = [], g_active_count = 0\<rparr>, env_audits = []\<rparr>)"
  by code_simp

theorem success_requires_authority_witness:
  "\<exists>parsed e. parse_signature ''kernel:1:log'' = Inl parsed \<and> (0::int) < MAX_CALL_DEPTH
    \<and> \<not> is_fenced (ps_namespace parsed) (env_drain demo_env)
    \<and> find_entry demo_resolver ''kernel:1:log'' demo_admin = Some e \<and> entry_rule e \<noteq> []
    \<and> (entry_rule e \<in> set (effective_rules demo_admin)
        \<or> ''kernel.admin'' \<in> set (effective_rules demo_admin))"
  using success_requires_authority [OF demo_inv demo_stub_call] by simp

text \<open>
  C30: A caller without the entry's rule is refused, and the refusal is recorded: exactly one audit
  event is queued, naming the capability and the rule, attributed to the caller; nothing is run.
\<close>

theorem denial_is_audited:
  assumes "drain_inv (env_drain env, gs)" and "parse_signature (cc_signature call) = Inl parsed"
    and "call_depth call < MAX_CALL_DEPTH" and "\<not> is_fenced (ps_namespace parsed) (env_drain env)"
    and "find_entry r (cc_signature call) ctx = Some e"
    and "entry_rule e \<notin> set (effective_rules ctx)" and "''kernel.admin'' \<notin> set (effective_rules ctx)"
  shows "\<exists>a. fst (call_capability r call ctx env) = Inr PERMISSION_DENIED
    \<and> env_audits (snd (call_capability r call ctx env)) = env_audits env @ [a]
    \<and> ae_action a = ''capability.rbac.denied'' \<and> ae_user_id a = uc_user_id ctx
    \<and> get_member ''capability'' (ae_detail a) = JString (cc_signature call)
    \<and> get_member ''rule'' (ae_detail a) = JString (entry_rule e)
    \<and> get_member ''call_depth'' (ae_detail a) = JInt (call_depth call)"
proof -
  from call_capability_admitted [OF assms(1-4), of r ctx]
  obtain g w where g: "was_admitted g"
    and c: "call_capability r call ctx env = (fst (call_body r call ctx g (env\<lparr>env_drain := w\<rparr>)),
       release g (snd (call_body r call ctx g (env\<lparr>env_drain := w\<rparr>))))" by metis
  have "\<not> check_permission (effective_rules ctx) (entry_rule e)"
    using assms(6,7) by (auto simp: check_permission_def list_ex_iff)
  then show ?thesis using g assms(5)
    by (simp add: c call_body_def emit_rbac_denied_def Let_def)
qed

theorem denial_is_audited_witness:
  "fst (call_capability demo_resolver
     \<lparr>cc_signature = ''kernel:1:log'', cc_args = JNull, call_depth = 0\<rparr> anonymous demo_env)
     = Inr PERMISSION_DENIED"
proof -
  have p: "parse_signature (cc_signature \<lparr>cc_signature = ''kernel:1:log'', cc_args = JNull, call_depth = 0\<rparr>)
      = Inl \<lparr>ps_namespace = ''kernel'', ps_version = 1, ps_function = ''log''\<rparr>" by code_simp
  have f: "find_entry demo_resolver (cc_signature \<lparr>cc_signature = ''kernel:1:log'', cc_args = JNull, call_depth = 0\<rparr>)
      anonymous = Some (Inl \<lparr>t1_handler = NotImplemented ''kernel:1:log'', t1_rbac_rule = ''kernel.log''\<rparr>)"
    by (simp add: find_entry_def demo_lookup)
  show ?thesis
    using denial_is_audited [OF demo_inv p _ _ f]
    by (auto simp: anonymous_def MAX_CALL_DEPTH_def is_fenced_def demo_env_def empty_world_def)
qed

text \<open>
  C31: The recursion of the load-harness chain is cut exactly at the limit: a chain of \<open>n\<close> levels
  started at depth \<open>d\<close> returns its full result when \<open>d + n \<le> 8\<close> and
  \<open>call_depth_exceeded\<close> otherwise, for every \<open>n\<close> an \<open>int\<close> can hold.
\<close>

theorem chain_depth_limit:
  assumes "map_of (tier1_map r) ''lh0:1:chain'' =
      Some \<lparr>t1_handler = Lh0Chain, t1_rbac_rule = ''kernel.admin''\<rparr>"
    and "''kernel.admin'' \<in> set (effective_rules ctx)" and "1 \<le> n" and "int n \<le> int_max"
    and "drain_inv (env_drain env, gs)" and "\<not> is_fenced ''lh0'' (env_drain env)"
  shows "fst (call_capability r \<lparr>cc_signature = ''lh0:1:chain'', cc_args = JArray [JInt (int n)],
                            call_depth = d\<rparr> ctx env) =
      (if d + int n \<le> 8
       then Inl \<lparr>cr_data = chain_payload n, resolved_tier = ''tier1'', cr_provider_type = ''kernel''\<rparr>
       else Inr CALL_DEPTH_EXCEEDED)"
  using chain_result [OF assms(1) _ assms(3-6)] assms(2)
  by (auto simp: check_permission_def list_ex_iff MAX_CALL_DEPTH_def)

theorem chain_depth_limit_witness:
  "fst (call_capability demo_resolver \<lparr>cc_signature = ''lh0:1:chain'', cc_args = JArray [JInt (int 9)],
      call_depth = 0\<rparr> demo_admin demo_env) = Inr CALL_DEPTH_EXCEEDED"
  by (subst chain_depth_limit [OF demo_lookup(1) _ _ _ demo_inv])
    (simp_all add: demo_admin_def anonymous_with_rules_def anonymous_def is_fenced_def demo_env_def empty_world_def)

text \<open>
  No call leaks a guard or moves a fence: through either entry point and on every path, refusals
  and failed extension dispatches included, the drain table afterwards is consistent with exactly
  the guards the rest of the process holds. The extension runtime is required to keep the table
  consistent for the guards it does not own.
\<close>

theorem call_async_balanced:
  assumes "\<And>n f a c d e. balanced e (snd (ext_dispatch n f a c d e))"
    and "drain_inv (env_drain env, gs)"
  shows "drain_inv (env_drain (snd (snd (call_capability_async ext_dispatch r call ctx env))), gs)
    \<and> drain_inv (env_drain (snd (call_capability r call ctx env)), gs)
    \<and> fenced_names (env_drain (snd (snd (call_capability_async ext_dispatch r call ctx env))))
        = fenced_names (env_drain env)"
proof -
  have s: "balanced env (snd (call_capability r call ctx env))" by (rule calls_balanced)
  have "balanced env (snd (snd (call_capability_async ext_dispatch r call ctx env)))"
  proof (cases rule: async_cases [of ext_dispatch r call ctx env])
    case sync
    then show ?thesis using s by simp
  next
    case (ext parsed g w e)
    show ?thesis unfolding ext(3) by (rule balanced_guard [OF ext(1) assms(1)])
  qed
  with s assms(2) show ?thesis by (simp add: balanced_def)
qed

theorem call_async_balanced_witness:
  "drain_inv (env_drain (snd (snd (call_capability_async (\<lambda>n f a c d e. (Inl JNull, e)) demo_resolver
     \<lparr>cc_signature = ''kernel:1:log'', cc_args = JNull, call_depth = 0\<rparr> demo_admin demo_env))), [])"
  using call_async_balanced [OF _ demo_inv, of "\<lambda>n f a c d e. (Inl JNull, e)"] by simp

text \<open>
  C12: The asynchronous entry point, which repeats the steps of the synchronous one, agrees with it
  wherever the synchronous one does not ask for it: same result, same audit and drain state, no
  rejection detail.
\<close>

theorem async_refines_sync:
  assumes "fst (call_capability r call ctx env) \<noteq> Inr ASYNC_REQUIRED"
  shows "call_capability_async ext_dispatch r call ctx env =
    (fst (call_capability r call ctx env), None, snd (call_capability r call ctx env))"
  using assms by (cases rule: async_cases [of ext_dispatch r call ctx env]) auto

theorem async_refines_sync_witness:
  "fst (call_capability_async (\<lambda>n f a c d e. (Inl JNull, e)) demo_resolver
     \<lparr>cc_signature = ''kernel:1:log'', cc_args = JNull, call_depth = 0\<rparr> demo_admin demo_env) =
   Inl \<lparr>cr_data = JObject [(''not_implemented'', JString ''kernel:1:log'')], resolved_tier = ''tier1'',
        cr_provider_type = ''kernel''\<rparr>"
  by (subst async_refines_sync) (simp_all add: demo_stub_call)

text \<open>
  Scopes do not interfere. Inserting an entry for one signature changes what a lookup finds
  exactly for the callers it is meant for: a user-scope entry for that user and signature only, an
  instance-scope entry for every caller of the signature without an entry of their own. In
  particular no user key collides with a signature or with another user's key.
\<close>

theorem upsert_visibility:
  assumes "parse_signature (ce_signature e) = Inl p" and "parse_signature s = Inl q"
    and "map_of (tier1_map r) s = None"
  shows "find_entry (upsert_tier2_entry e r) s ctx =
    (if ce_signature e = s \<and>
        (if ce_scope e = ''user'' \<and> ce_user_id e \<noteq> [] then ce_user_id e = uc_user_id ctx
         else uc_user_id ctx = [] \<or> map_of (tier2_cache r) (user_scope_key s (uc_user_id ctx)) = None)
     then Some (Inr e) else find_entry r s ctx)"
proof -
  have k: "user_scope_key (ce_signature e) u = user_scope_key s v \<longleftrightarrow> ce_signature e = s \<and> u = v" for u v
    by (rule user_scope_key_inj [OF assms(1,2)])
  have n: "user_scope_key (ce_signature e) u \<noteq> s" "ce_signature e \<noteq> user_scope_key s v"
    "user_scope_key s v \<noteq> ce_signature e" for u v
    using user_scope_key_not_signature [OF assms(1,2)] user_scope_key_not_signature [OF assms(2,1)]
    by metis+
  have k': "user_scope_key s v = user_scope_key (ce_signature e) u \<longleftrightarrow> ce_signature e = s \<and> u = v" for u v
    using k [of u v] by (metis (no_types))
  let ?user = "ce_scope e = ''user'' \<and> ce_user_id e \<noteq> []"
  show ?thesis
  proof (cases ?user)
    case True
    then show ?thesis using assms(3)
      by (simp add: find_entry_def upsert_tier2_entry_def k' n n(1) [symmetric] split: option.split)
  next
    case False
    then have "find_entry (upsert_tier2_entry e r) s ctx =
      find_entry (r\<lparr>tier2_cache := AList.update (ce_signature e) e (tier2_cache r)\<rparr>) s ctx"
      unfolding upsert_tier2_entry_def by (simp only: if_False Let_def)
    moreover from False have "(if ?user then ce_user_id e = uc_user_id ctx
         else uc_user_id ctx = [] \<or> map_of (tier2_cache r) (user_scope_key s (uc_user_id ctx)) = None) =
         (uc_user_id ctx = [] \<or> map_of (tier2_cache r) (user_scope_key s (uc_user_id ctx)) = None)"
      by (simp only: if_False)
    ultimately show ?thesis using assms(3)
      by (simp add: find_entry_def n split: option.split)
  qed
qed

definition demo_entry :: cached_capability where
  "demo_entry = \<lparr>ce_signature = ''notes:1:get'', ce_provider_type = ''extension'',
     ce_extension_name = ''notes'', ce_scope = ''instance'', ce_user_id = [],
     ce_rbac_rule = ''notes.read'', ce_enabled = True\<rparr>"

theorem upsert_visibility_witness:
  "find_entry (upsert_tier2_entry demo_entry demo_resolver) ''notes:1:get'' demo_admin
     = Some (Inr demo_entry)"
proof -
  have p: "parse_signature (ce_signature demo_entry) =
      Inl \<lparr>ps_namespace = ''notes'', ps_version = 1, ps_function = ''get''\<rparr>"
    "parse_signature ''notes:1:get'' =
      Inl \<lparr>ps_namespace = ''notes'', ps_version = 1, ps_function = ''get''\<rparr>" by code_simp+
  show ?thesis
    by (subst upsert_visibility [OF p])
      (simp_all add: demo_defs demo_entry_def demo_admin_def anonymous_with_rules_def anonymous_def)
qed

text \<open>
  A batch is its calls made one after the other at the depth of the first. When all succeed
  the values are theirs in order; otherwise it stops at the first failure, reports that error and
  its index, discards the values, and no later call has any effect.
\<close>

theorem batch_fail_fast:
  assumes "cs \<noteq> []" and "d = call_depth (hd cs)"
  shows "(\<forall>vs. length vs = length cs \<longrightarrow> (\<forall>i<length cs. nth_result r d ctx cs env i = Inl (vs ! i)) \<longrightarrow>
      batch_call_capability r cs ctx env =
        (\<lparr>br_values = Some vs, br_error = None, failed_index = 0\<rparr>, after_calls r d ctx cs env))
    \<and> (\<forall>i e. i < length cs \<longrightarrow> (\<forall>j<i. isl (nth_result r d ctx cs env j)) \<longrightarrow>
      nth_result r d ctx cs env i = Inr e \<longrightarrow>
      batch_call_capability r cs ctx env =
        (\<lparr>br_values = None, br_error = Some e, failed_index = i\<rparr>, after_calls r d ctx (take (Suc i) cs) env))"
proof -
  have b: "batch_call_capability r cs ctx env = batch_loop r d ctx 0 [] cs env"
    using assms by (cases cs) (auto simp: batch_call_capability_def)
  show ?thesis unfolding b
  proof (intro conjI allI impI)
    fix vs assume "length vs = length cs" "\<forall>i<length cs. nth_result r d ctx cs env i = Inl (vs ! i)"
    then show "batch_loop r d ctx 0 [] cs env =
        (\<lparr>br_values = Some vs, br_error = None, failed_index = 0\<rparr>, after_calls r d ctx cs env)"
      using batch_loop_success [of cs r d ctx env vs 0 "[]"] by simp
  qed (simp add: batch_loop_failure)
qed

theorem batch_fail_fast_witness:
  "failed_index (fst (batch_call_capability demo_resolver
     [\<lparr>cc_signature = ''kernel:1:log'', cc_args = JNull, call_depth = 0\<rparr>,
      \<lparr>cc_signature = ''nope'', cc_args = JNull, call_depth = 3\<rparr>] demo_admin demo_env)) = 1"
proof -
  let ?cs = "[\<lparr>cc_signature = ''kernel:1:log'', cc_args = JNull, call_depth = 0\<rparr>,
      \<lparr>cc_signature = ''nope'', cc_args = JNull, call_depth = 3\<rparr>]"
  have n: "parse_signature ''nope'' = Inr INVALID_CAPABILITY" by code_simp
  have "nth_result demo_resolver 0 demo_admin ?cs demo_env 1 = Inr INVALID_CAPABILITY"
    by (simp add: nth_result_def call_capability_early(1) n)
  moreover have "\<forall>j<1. isl (nth_result demo_resolver 0 demo_admin ?cs demo_env j)"
    by (simp add: nth_result_def demo_stub_call)
  ultimately show ?thesis
    using batch_fail_fast [of ?cs 0 demo_resolver demo_admin demo_env] by auto
qed

text \<open>
  Reloading is all or nothing: when the database cannot be reached or queried the admitted
  entries stay exactly as they were; otherwise the cache becomes the table's content, the entry
  of a signature being its last row, whatever was cached before.
\<close>

theorem reload_atomic:
  "(case db of
      Inr err \<Rightarrow> reload_tier2_cache db r = (Inr err, r)
    | Inl rows \<Rightarrow> tier1_map (snd (reload_tier2_cache db r)) = tier1_map r
        \<and> fst (reload_tier2_cache db r) = Inl (tier2_cache_size (snd (reload_tier2_cache db r)))
        \<and> map_of (tier2_cache (snd (reload_tier2_cache db r))) sig =
          (case filter (\<lambda>row. fst row = sig) rows of
             [] \<Rightarrow> None | hits \<Rightarrow> Some (row_entry (last hits))))"
  by (auto simp: reload_tier2_cache_def load_tier2_snapshot_locked_def load_snapshot_lookup
      tier2_cache_size_def split: sum.splits list.split)

end
