(* ===== verification/Channels.thy ===== *)
theory Channels
  imports Cpp_Strings
begin

text \<open>
  Realtime channel names: \<open>realtime/channel.cpp\<close>, the derivation of subscription rules from
  them, \<open>rbac/subscribe_rule.cpp\<close>, and the ownership test the broker and the publisher share.
  The recogniser's position is the unread rest of the string. The reference grammar is the
  datatype \<open>chan\<close> with its printer.
\<close>

section \<open>The recogniser\<close>

definition is_ident_rest :: "char \<Rightarrow> bool" where
  "is_ident_rest c \<longleftrightarrow> is_lower_char c \<or> is_digit_char c \<or> c = CHR ''_''"

definition is_ext_rest :: "char \<Rightarrow> bool" where
  "is_ext_rest c \<longleftrightarrow> is_lower_char c \<or> is_digit_char c"

definition consume_ident :: "string \<Rightarrow> string option" where
  "consume_ident s =
     (if s = [] \<or> \<not> is_lower_char (hd s) then None else Some (dropWhile is_ident_rest (tl s)))"

definition consume_ext_name :: "string \<Rightarrow> string option" where
  "consume_ext_name s =
     (if s = [] \<or> \<not> is_lower_char (hd s) then None else Some (dropWhile is_ext_rest (tl s)))"

lemma consume_ident_shorter: "consume_ident s = Some r \<Longrightarrow> length r < length s"
  by (cases s) (auto simp: consume_ident_def length_dropWhile_le le_imp_less_Suc split: if_splits)

text \<open>The loop of \<open>consume_dotted_idents\<close> after the first identifier.\<close>

function dotted_loop :: "string \<Rightarrow> string option" where
  "dotted_loop s =
     (if s \<noteq> [] \<and> hd s = CHR ''.''
      then (case consume_ident (tl s) of None \<Rightarrow> None | Some r \<Rightarrow> dotted_loop r)
      else Some s)"
  by pat_completeness auto
termination
  by (relation "measure length") (auto dest!: consume_ident_shorter simp: neq_Nil_conv)

declare dotted_loop.simps [simp del]

definition consume_dotted_idents :: "string \<Rightarrow> string option" where
  "consume_dotted_idents s = (case consume_ident s of None \<Rightarrow> None | Some r \<Rightarrow> dotted_loop r)"

definition validate_channel :: "string \<Rightarrow> bool" where
  "validate_channel ch =
     (if ch = [] \<or> length ch > 63 then False
      else if \<not> prefix ''plinth:'' ch then False
      else let rest = drop 7 ch in
        if prefix ''data:'' rest then
          (case consume_ident (drop 5 rest) of
             None \<Rightarrow> False
           | Some r \<Rightarrow> if r = [] \<or> hd r \<noteq> CHR ''.'' then False
                       else (case consume_ident (tl r) of None \<Rightarrow> False | Some r2 \<Rightarrow> r2 = []))
        else if prefix ''system:'' rest then
          (case consume_dotted_idents (drop 7 rest) of None \<Rightarrow> False | Some r \<Rightarrow> r = [])
        else if prefix ''ext:'' rest then
          (case consume_ext_name (drop 4 rest) of
             None \<Rightarrow> False
           | Some r \<Rightarrow> if r = [] \<or> hd r \<noteq> CHR '':'' then False
                       else (case consume_dotted_idents (tl r) of None \<Rightarrow> False | Some r2 \<Rightarrow> r2 = []))
        else False)"

datatype channel_layer = DATA | SYSTEM | EXTENSION

definition channel_layer_of :: "string \<Rightarrow> channel_layer" where
  "channel_layer_of ch =
     (if prefix ''plinth:data:'' ch then DATA
      else if prefix ''plinth:system:'' ch then SYSTEM
      else EXTENSION)"

definition channel_extension :: "string \<Rightarrow> string" where
  "channel_extension ch =
     (if \<not> prefix ''plinth:ext:'' ch then []
      else let rest = drop 11 ch in
        (case find_char (CHR '':'') rest 0 of None \<Rightarrow> [] | Some i \<Rightarrow> substr rest 0 i))"

text \<open>A missing dot is \<open>npos\<close>: the schema is then the whole body and, since \<open>npos + 1\<close> wraps
  to zero, so is the table.\<close>

definition derive_subscribe_rule :: "string \<Rightarrow> string" where
  "derive_subscribe_rule channel =
     (if \<not> validate_channel channel then []
      else case channel_layer_of channel of
        DATA \<Rightarrow>
          (let body = drop 12 channel;
               dot = find_char (CHR ''.'') body 0;
               schema = (case dot of Some i \<Rightarrow> substr body 0 i | None \<Rightarrow> body);
               tbl = (case dot of Some i \<Rightarrow> drop (i + 1) body | None \<Rightarrow> body)
           in if prefix ''ext_'' schema \<and> length schema > 4
              then drop 4 schema @ ''.realtime.subscribe''
              else ''kernel.realtime.subscribe.'' @ schema @ ''.'' @ tbl)
      | SYSTEM \<Rightarrow> ''kernel.realtime.subscribe.'' @ drop 14 channel
      | EXTENSION \<Rightarrow>
          (let ext = channel_extension channel
           in ext @ ''.realtime.subscribe.'' @ drop (11 + length ext + 1) channel))"

definition channel_belongs_to_extension :: "string \<Rightarrow> string \<Rightarrow> bool" where
  "channel_belongs_to_extension channel name \<longleftrightarrow>
     prefix (''plinth:data:ext_'' @ name @ ''.'') channel \<or>
     prefix (''plinth:ext:'' @ name @ '':'') channel"

section \<open>The grammar\<close>

datatype chan = Data string string | System "string list" | Ext string "string list"

definition is_ident :: "string \<Rightarrow> bool" where
  "is_ident s \<longleftrightarrow> s \<noteq> [] \<and> is_lower_char (hd s) \<and> list_all is_ident_rest (tl s)"

definition is_ext_name :: "string \<Rightarrow> bool" where
  "is_ext_name s \<longleftrightarrow> s \<noteq> [] \<and> is_lower_char (hd s) \<and> list_all is_ext_rest (tl s)"

abbreviation dot :: char where "dot \<equiv> CHR ''.''"

fun print_channel :: "chan \<Rightarrow> string" where
  "print_channel (Data schema tbl) = ''plinth:data:'' @ schema @ ''.'' @ tbl"
| "print_channel (System segs) = ''plinth:system:'' @ join_with dot segs"
| "print_channel (Ext e segs) = ''plinth:ext:'' @ e @ '':'' @ join_with dot segs"

fun wf_channel :: "chan \<Rightarrow> bool" where
  "wf_channel (Data schema tbl) \<longleftrightarrow> is_ident schema \<and> is_ident tbl"
| "wf_channel (System segs) \<longleftrightarrow> segs \<noteq> [] \<and> list_all is_ident segs"
| "wf_channel (Ext e segs) \<longleftrightarrow> is_ext_name e \<and> segs \<noteq> [] \<and> list_all is_ident segs"

text \<open>The namespace a channel's rule belongs to.\<close>

fun channel_owner :: "chan \<Rightarrow> string" where
  "channel_owner (Data schema tbl) =
     (if prefix ''ext_'' schema \<and> length schema > 4 then drop 4 schema else ''kernel'')"
| "channel_owner (System segs) = ''kernel''"
| "channel_owner (Ext e segs) = e"

fun rule_spec :: "chan \<Rightarrow> string" where
  "rule_spec (Data schema tbl) =
     (if prefix ''ext_'' schema \<and> length schema > 4 then drop 4 schema @ ''.realtime.subscribe''
      else ''kernel.realtime.subscribe.'' @ schema @ ''.'' @ tbl)"
| "rule_spec (System segs) = ''kernel.realtime.subscribe.'' @ join_with dot segs"
| "rule_spec (Ext e segs) = e @ ''.realtime.subscribe.'' @ join_with dot segs"

section \<open>The recogniser accepts the grammar\<close>

lemma ident_chars [simp]: "\<not> is_ident_rest dot" "\<not> is_ident_rest (CHR '':'')" "\<not> is_ext_rest (CHR '':'')"
  "\<not> is_ext_rest dot" "\<not> is_lower_char dot" "\<not> is_lower_char (CHR '':'')"
  by (simp_all add: is_ident_rest_def is_ext_rest_def char_in_def)

lemma dropWhile_stop: "list_all P a \<Longrightarrow> r = [] \<or> \<not> P (hd r) \<Longrightarrow> dropWhile P (a @ r) = r"
  by (induction a) (cases r, auto)

lemma consume_ident_append:
  "is_ident a \<Longrightarrow> r = [] \<or> \<not> is_ident_rest (hd r) \<Longrightarrow> consume_ident (a @ r) = Some r"
  by (cases a) (auto simp: consume_ident_def is_ident_def dropWhile_stop)

lemma consume_ext_append:
  "is_ext_name a \<Longrightarrow> r = [] \<or> \<not> is_ext_rest (hd r) \<Longrightarrow> consume_ext_name (a @ r) = Some r"
  by (cases a) (auto simp: consume_ext_name_def is_ext_name_def dropWhile_stop)

lemma consume_ident_SomeD:
  assumes "consume_ident s = Some r"
  shows "\<exists>a. s = a @ r \<and> is_ident a \<and> (r = [] \<or> \<not> is_ident_rest (hd r))"
proof -
  obtain c t where s: "s = c # t" "is_lower_char c" "r = dropWhile is_ident_rest t"
    using assms by (cases s) (auto simp: consume_ident_def split: if_splits)
  have "s = (c # takeWhile is_ident_rest t) @ r" using s by simp
  moreover have "is_ident (c # takeWhile is_ident_rest t)"
    using s by (auto simp: is_ident_def list_all_iff dest: set_takeWhileD)
  moreover have "r = [] \<or> \<not> is_ident_rest (hd r)" using s by (metis hd_dropWhile)
  ultimately show ?thesis by blast
qed

lemma consume_ext_SomeD:
  assumes "consume_ext_name s = Some r"
  shows "\<exists>a. s = a @ r \<and> is_ext_name a"
proof -
  obtain c t where s: "s = c # t" "is_lower_char c" "r = dropWhile is_ext_rest t"
    using assms by (cases s) (auto simp: consume_ext_name_def split: if_splits)
  have "s = (c # takeWhile is_ext_rest t) @ r" using s by simp
  moreover have "is_ext_name (c # takeWhile is_ext_rest t)"
    using s by (auto simp: is_ext_name_def list_all_iff dest: set_takeWhileD)
  ultimately show ?thesis by blast
qed

abbreviation dotted :: "string list \<Rightarrow> string" where
  "dotted segs \<equiv> concat (map (\<lambda>p. dot # p) segs)"

lemma join_with_dotted: "join_with dot (p # ps) = p @ dotted ps"
  by (induction ps arbitrary: p) auto

lemma dotted_hd: "dotted ps = [] \<or> \<not> is_ident_rest (hd (dotted ps))"
  by (cases ps) auto

lemma dotted_loop_dotted: "list_all is_ident segs \<Longrightarrow> dotted_loop (dotted segs) = Some []"
proof (induction segs)
  case (Cons p ps)
  then show ?case
    by (subst dotted_loop.simps) (simp add: consume_ident_append [OF _ dotted_hd])
qed (simp add: dotted_loop.simps)

lemma dotted_loopD: "dotted_loop s = Some [] \<Longrightarrow> \<exists>segs. list_all is_ident segs \<and> s = dotted segs"
proof (induction s rule: dotted_loop.induct)
  case (1 s)
  show ?case
  proof (cases "s \<noteq> [] \<and> hd s = dot")
    case True
    with 1(2) obtain r where r: "consume_ident (tl s) = Some r" "dotted_loop r = Some []"
      by (subst (asm) dotted_loop.simps) (auto split: option.splits)
    then obtain segs where "list_all is_ident segs" "r = dotted segs" using 1(1) [OF True] by blast
    moreover obtain a where "tl s = a @ r" "is_ident a" using consume_ident_SomeD [OF r(1)] by blast
    ultimately show ?thesis using True by (intro exI [of _ "a # segs"]) (cases s, auto)
  next
    case False
    with 1(2) show ?thesis by (subst (asm) dotted_loop.simps) (auto intro!: exI [of _ "[]"])
  qed
qed

lemma consume_dotted_iff:
  "consume_dotted_idents s = Some [] \<longleftrightarrow>
     (\<exists>segs. segs \<noteq> [] \<and> list_all is_ident segs \<and> s = join_with dot segs)"
proof
  assume "consume_dotted_idents s = Some []"
  then obtain r where r: "consume_ident s = Some r" "dotted_loop r = Some []"
    by (auto simp: consume_dotted_idents_def split: option.splits)
  with consume_ident_SomeD [OF r(1)] dotted_loopD [OF r(2)] obtain a segs
    where "s = a @ dotted segs" "is_ident a" "list_all is_ident segs" by blast
  then show "\<exists>segs. segs \<noteq> [] \<and> list_all is_ident segs \<and> s = join_with dot segs"
    by (intro exI [of _ "a # segs"]) (simp add: join_with_dotted)
next
  assume "\<exists>segs. segs \<noteq> [] \<and> list_all is_ident segs \<and> s = join_with dot segs"
  then obtain p ps where "is_ident p" "list_all is_ident ps" "s = join_with dot (p # ps)"
    by (auto simp: neq_Nil_conv)
  then show "consume_dotted_idents s = Some []"
    by (simp add: consume_dotted_idents_def join_with_dotted consume_ident_append [OF _ dotted_hd]
        dotted_loop_dotted)
qed

text \<open>One layer at a time: what follows the layer's prefix.\<close>

definition data_body :: "string \<Rightarrow> bool" where
  "data_body s \<longleftrightarrow> (case consume_ident s of
     None \<Rightarrow> False
   | Some r \<Rightarrow> if r = [] \<or> hd r \<noteq> CHR ''.'' then False
               else (case consume_ident (tl r) of None \<Rightarrow> False | Some r2 \<Rightarrow> r2 = []))"

definition ext_body :: "string \<Rightarrow> bool" where
  "ext_body s \<longleftrightarrow> (case consume_ext_name s of
     None \<Rightarrow> False
   | Some r \<Rightarrow> if r = [] \<or> hd r \<noteq> CHR '':'' then False
               else (case consume_dotted_idents (tl r) of None \<Rightarrow> False | Some r2 \<Rightarrow> r2 = []))"

lemma data_body_iff: "data_body s \<longleftrightarrow> (\<exists>a b. is_ident a \<and> is_ident b \<and> s = a @ ''.'' @ b)"
proof
  assume "data_body s"
  then obtain r where r: "consume_ident s = Some r" "r \<noteq> []" "hd r = dot" "consume_ident (tl r) = Some []"
    by (auto simp: data_body_def split: option.splits if_splits)
  from consume_ident_SomeD [OF r(1)] consume_ident_SomeD [OF r(4)] r(2,3)
  show "\<exists>a b. is_ident a \<and> is_ident b \<and> s = a @ ''.'' @ b" by (cases r) auto
next
  assume "\<exists>a b. is_ident a \<and> is_ident b \<and> s = a @ ''.'' @ b"
  then obtain a b where "is_ident a" "is_ident b" "s = a @ dot # b" by auto
  then show "data_body s" using consume_ident_append [of b "[]"]
    by (simp add: data_body_def consume_ident_append)
qed

lemma ext_body_iff:
  "ext_body s \<longleftrightarrow> (\<exists>e segs. is_ext_name e \<and> segs \<noteq> [] \<and> list_all is_ident segs
     \<and> s = e @ '':'' @ join_with dot segs)"
proof
  assume "ext_body s"
  then obtain r where r: "consume_ext_name s = Some r" "r \<noteq> []" "hd r = CHR '':''"
      "consume_dotted_idents (tl r) = Some []"
    by (auto simp: ext_body_def split: option.splits if_splits)
  from consume_ext_SomeD [OF r(1)] r(4) [unfolded consume_dotted_iff] r(2,3)
  show "\<exists>e segs. is_ext_name e \<and> segs \<noteq> [] \<and> list_all is_ident segs \<and> s = e @ '':'' @ join_with dot segs"
    by (cases r) auto
next
  assume "\<exists>e segs. is_ext_name e \<and> segs \<noteq> [] \<and> list_all is_ident segs \<and> s = e @ '':'' @ join_with dot segs"
  then obtain e segs where "is_ext_name e" "s = e @ CHR '':'' # join_with dot segs"
    "consume_dotted_idents (join_with dot segs) = Some []"
    by (auto simp: consume_dotted_iff)
  then show "ext_body s" by (simp add: ext_body_def consume_ext_append)
qed

lemma validate_channel_layers:
  "validate_channel ch \<longleftrightarrow> length ch \<le> 63 \<and>
     ((\<exists>b. ch = ''plinth:data:'' @ b \<and> data_body b)
    \<or> (\<exists>b. ch = ''plinth:system:'' @ b \<and> consume_dotted_idents b = Some [])
    \<or> (\<exists>b. ch = ''plinth:ext:'' @ b \<and> ext_body b))"
proof -
  consider (data) b where "ch = ''plinth:data:'' @ b" | (system) b where "ch = ''plinth:system:'' @ b"
    | (ext) b where "ch = ''plinth:ext:'' @ b"
    | (bad) "\<not> prefix ''plinth:'' ch \<or> \<not> prefix ''data:'' (drop 7 ch) \<and> \<not> prefix ''system:'' (drop 7 ch)
        \<and> \<not> prefix ''ext:'' (drop 7 ch)"
    by (fastforce simp: prefix_def)
  then show ?thesis
  proof cases
    case data
    then show ?thesis by (simp add: validate_channel_def data_body_def)
  next
    case system
    then show ?thesis by (simp add: validate_channel_def split: option.split)
  next
    case ext
    then show ?thesis by (simp add: validate_channel_def ext_body_def)
  next
    case bad
    then have "\<not> validate_channel ch" by (auto simp: validate_channel_def)
    moreover from bad have "ch \<noteq> ''plinth:data:'' @ b" "ch \<noteq> ''plinth:system:'' @ b"
      "ch \<noteq> ''plinth:ext:'' @ b" for b by auto
    ultimately show ?thesis by blast
  qed
qed

section \<open>Derived rules\<close>

lemma ident_no_sep: "is_ident a \<Longrightarrow> dot \<notin> set a \<and> CHR '':'' \<notin> set a"
  by (cases a) (auto simp: is_ident_def list_all_iff)

lemma ext_name_no_sep: "is_ext_name a \<Longrightarrow> dot \<notin> set a \<and> CHR '':'' \<notin> set a"
  by (cases a) (auto simp: is_ext_name_def list_all_iff)

lemma print_channel_valid:
  "wf_channel c \<Longrightarrow> length (print_channel c) \<le> 63 \<Longrightarrow> validate_channel (print_channel c)"
  unfolding validate_channel_layers data_body_iff ext_body_iff consume_dotted_iff
  by (cases c) auto

lemma find_dot_schema: "dot \<notin> set a \<Longrightarrow> find_char dot (a @ dot # b) 0 = Some (length a)"
  using find_char_hit [of dot a "[]" b] by simp

lemma find_colon_ext: "CHR '':'' \<notin> set a \<Longrightarrow> find_char (CHR '':'') (a @ CHR '':'' # b) 0 = Some (length a)"
  using find_char_hit [of "CHR '':''" a "[]" b] by simp

lemma channel_layer_print:
  "channel_layer_of (print_channel c) = (case c of Data _ _ \<Rightarrow> DATA | System _ \<Rightarrow> SYSTEM | Ext _ _ \<Rightarrow> EXTENSION)"
  by (cases c) (simp_all add: channel_layer_of_def)

lemma channel_extension_print:
  "wf_channel c \<Longrightarrow> channel_extension (print_channel c) = (case c of Ext e _ \<Rightarrow> e | _ \<Rightarrow> [])"
  using ext_name_no_sep
  by (cases c) (simp_all add: channel_extension_def find_colon_ext substr_def)

lemma derive_print:
  assumes "wf_channel c" and "length (print_channel c) \<le> 63"
  shows "derive_subscribe_rule (print_channel c) = rule_spec c"
proof (cases c)
  case (Data a b)
  with assms ident_no_sep [of a] show ?thesis
    using print_channel_valid [OF assms] channel_layer_print [of c]
    by (simp add: derive_subscribe_rule_def Let_def find_dot_schema substr_def)
next
  case (System segs)
  with assms show ?thesis
    using print_channel_valid [OF assms] channel_layer_print [of c]
    by (simp add: derive_subscribe_rule_def)
next
  case (Ext e segs)
  have "drop (11 + length e + 1) (print_channel c) = join_with dot segs"
    using Ext by (simp add: numeral_eq_Suc)
  with Ext assms show ?thesis
    using print_channel_valid [OF assms] channel_layer_print [of c] channel_extension_print [OF assms(1)]
    by (simp add: derive_subscribe_rule_def Let_def)
qed

lemma owner_no_dot: "wf_channel c \<Longrightarrow> dot \<notin> set (channel_owner c)"
  using ident_no_sep ext_name_no_sep by (cases c) (auto dest: in_set_dropD)

lemma rule_spec_owner: "takeWhile (\<lambda>x. x \<noteq> dot) (rule_spec c) = channel_owner c" if "wf_channel c"
proof -
  have "\<exists>r. rule_spec c = channel_owner c @ dot # r" by (cases c) auto
  then show ?thesis using owner_no_dot [OF that] by auto
qed

lemma prefix_ident_sep:
  assumes "c \<notin> set a" and "c \<notin> set n"
  shows "prefix (n @ [c]) (a @ c # r) \<longleftrightarrow> n = a"
proof
  assume "prefix (n @ [c]) (a @ c # r)"
  then obtain q where "a @ c # r = n @ c # q" by (auto simp: prefix_def)
  then have "takeWhile (\<lambda>x. x \<noteq> c) (a @ c # r) = takeWhile (\<lambda>x. x \<noteq> c) (n @ c # q)" by simp
  then show "n = a" using assms by simp
qed (simp add: prefix_def)

lemma ex_chan:
  "(\<exists>c. P c) \<longleftrightarrow> (\<exists>a b. P (Data a b)) \<or> (\<exists>segs. P (System segs)) \<or> (\<exists>e segs. P (Ext e segs))"
  by (metis chan.exhaust)

section \<open>Properties\<close>

text \<open>
  C19: The hand-written recogniser accepts exactly the channel grammar: names of at most 63
  characters that are the printed form of a data, system or extension channel over the
  identifiers of the grammar.
\<close>

theorem validate_channel_grammar:
  "validate_channel ch \<longleftrightarrow> length ch \<le> 63 \<and> (\<exists>c. wf_channel c \<and> ch = print_channel c)"
  unfolding validate_channel_layers data_body_iff ext_body_iff consume_dotted_iff ex_chan
  by (intro conj_cong disj_cong) auto

text \<open>
  C32: Subscription rules keep namespaces apart: two channels whose derived rules coincide belong
  to the same owner (the kernel, or one extension). So a rule granted for one extension's
  channels never opens a channel of another extension or of the kernel.
\<close>

theorem derived_rule_isolates_owners:
  assumes "wf_channel a" and "wf_channel b"
    and "length (print_channel a) \<le> 63" and "length (print_channel b) \<le> 63"
    and "derive_subscribe_rule (print_channel a) = derive_subscribe_rule (print_channel b)"
  shows "channel_owner a = channel_owner b"
  using assms by (metis derive_print rule_spec_owner)

theorem derived_rule_isolates_owners_witness:
  "channel_owner (Data ''ext_notes'' ''items'') = channel_owner (Data ''ext_notes'' ''tags'')"
proof (rule derived_rule_isolates_owners)
  show "derive_subscribe_rule (print_channel (Data ''ext_notes'' ''items'')) =
      derive_subscribe_rule (print_channel (Data ''ext_notes'' ''tags''))" by code_simp
qed (code_simp)+

text \<open>
  The ownership test used when an extension is drained agrees with the rule derivation: for an
  extension's name, the channels taken down are exactly those whose subscription rule is in its
  namespace.
\<close>

theorem ownership_agrees_with_rules:
  assumes "wf_channel c" and "is_ext_name n" and "n \<noteq> ''kernel''"
  shows "channel_belongs_to_extension (print_channel c) n \<longleftrightarrow> channel_owner c = n"
proof (cases c)
  case (Data a b)
  then have "is_ident a" using assms by simp
  then have s: "dot \<notin> set a" "dot \<notin> set n" using ident_no_sep ext_name_no_sep assms(2) by auto
  have "channel_belongs_to_extension (print_channel c) n \<longleftrightarrow> prefix ((''ext_'' @ n) @ [dot]) (a @ dot # b)"
    using Data by (simp add: channel_belongs_to_extension_def)
  also have "\<dots> \<longleftrightarrow> ''ext_'' @ n = a" by (rule prefix_ident_sep) (use s in auto)
  also have "\<dots> \<longleftrightarrow> channel_owner c = n"
    using Data assms(2,3) by (auto simp: prefix_def is_ext_name_def)
  finally show ?thesis .
next
  case (System segs)
  then show ?thesis using assms(3) by (simp add: channel_belongs_to_extension_def)
next
  case (Ext e segs)
  then have "channel_belongs_to_extension (print_channel c) n \<longleftrightarrow>
      prefix (n @ [CHR '':'']) (e @ CHR '':'' # join_with dot segs)"
    by (simp add: channel_belongs_to_extension_def)
  also have "\<dots> \<longleftrightarrow> n = e"
    by (rule prefix_ident_sep) (use Ext assms ext_name_no_sep in auto)
  finally show ?thesis using Ext by auto
qed

theorem ownership_agrees_with_rules_witness:
  "channel_belongs_to_extension (print_channel (Ext ''notes'' [''changed''])) ''notes'' \<longleftrightarrow>
     channel_owner (Ext ''notes'' [''changed'']) = ''notes''"
  by (rule ownership_agrees_with_rules) code_simp+

end
