(* ===== verification/Rule_Validator.thy ===== *)
theory Rule_Validator
  imports Capability_Names Channels Json
begin

text \<open>
  Install-time validation of a package's RBAC rules: \<open>rbac/rule_validator.cpp\<close>, with the
  manifest types it reads and \<open>packages/reserved_names.hpp\<close>. The lookup in
  \<open>plinth.rbac_rules\<close> is a parameter. Each check appends its errors to those found before.
\<close>

section \<open>Types\<close>

datatype severity = ERROR | WARNING

record manifest_parse_error =
  mpe_file :: string
  mpe_line :: "nat option"
  mpe_column :: "nat option"
  mpe_field_path :: "string option"
  mpe_rule :: string
  mpe_message :: string
  mpe_remediation :: "string option"
  mpe_severity :: severity

record rbac_rule =
  rr_rule :: string
  rr_namespace :: string
  rr_description :: string
  rr_test :: "json option"

record provided_capability =
  pc_namespace :: string
  pc_version :: int
  pc_function :: string

text \<open>The outcome of the collision query: an error message, or the owner of the rule, if any.\<close>

type_synonym rule_lookup = "string \<Rightarrow> string option + string"

section \<open>Checks\<close>

definition is_reserved_kernel_namespace :: "string \<Rightarrow> bool" where
  "is_reserved_kernel_namespace s \<longleftrightarrow> list_ex (\<lambda>r. r = s) [''kernel'', ''plinth'', ''system'']"

definition is_valid_rule_segment_char :: "char \<Rightarrow> bool" where
  "is_valid_rule_segment_char c \<longleftrightarrow> is_lower_char c \<or> is_digit_char c"

text \<open>The outer loop of \<open>is_valid_rule_name\<close>; \<open>None\<close> is an early \<open>return false\<close>.\<close>

function rule_name_loop :: "string \<Rightarrow> nat \<Rightarrow> nat option" where
  "rule_name_loop s segments =
     (if s = [] then Some segments
      else if \<not> is_lower_char (hd s) then None
      else let body = takeWhile (\<lambda>c. c \<noteq> CHR ''.'') (tl s);
               rest = dropWhile (\<lambda>c. c \<noteq> CHR ''.'') (tl s)
           in if \<not> list_all is_valid_rule_segment_char body then None
              else if rest \<noteq> [] \<and> tl rest = [] then None
              else rule_name_loop (tl rest) (segments + 1))"
  by pat_completeness auto
termination
proof (relation "measure (\<lambda>(s, _). length s)")
  fix s :: string and n :: nat and body rest
  assume "s \<noteq> []" and r: "rest = dropWhile (\<lambda>c. c \<noteq> CHR ''.'') (tl s)"
  then have "length rest \<le> length (tl s)" using length_dropWhile_le by blast
  with \<open>s \<noteq> []\<close> show "((tl rest, n + 1), s, n) \<in> measure (\<lambda>(s, _). length s)"
    by (cases s) auto
qed simp

declare rule_name_loop.simps [simp del]

lemma rule_name_loop_Nil [simp]: "rule_name_loop [] n = Some n"
  by (simp add: rule_name_loop.simps)

definition is_valid_rule_name :: "string \<Rightarrow> bool" where
  "is_valid_rule_name s =
     (if s = [] then False
      else (case rule_name_loop s 0 of
              None \<Rightarrow> False
            | Some segments \<Rightarrow> segments \<ge> 2 \<and> segments \<le> 5))"

definition make_path :: "nat \<Rightarrow> string \<Rightarrow> string" where
  "make_path idx sfx =
     ''/rules/'' @ show_nat idx @ (if sfx \<noteq> [] then ''/'' @ sfx else [])"

definition push_error :: "manifest_parse_error list \<Rightarrow> string \<Rightarrow> string \<Rightarrow> string \<Rightarrow> string option
    \<Rightarrow> manifest_parse_error list" where
  "push_error out rule message field_path remediation =
     out @ [\<lparr>mpe_file = ''rbac.json'', mpe_line = None, mpe_column = None,
             mpe_field_path = Some field_path, mpe_rule = rule, mpe_message = message,
             mpe_remediation = remediation, mpe_severity = ERROR\<rparr>]"

definition check_rule_a1 ::
  "rbac_rule \<Rightarrow> nat \<Rightarrow> manifest_parse_error list \<Rightarrow> manifest_parse_error list" where
  "check_rule_a1 r idx out =
     (if \<not> is_valid_rule_name (rr_rule r)
      then push_error out ''rbac.rule.invalid_name''
        (''rbac.json rules['' @ show_nat idx @ ''].rule '' @ [CHR 0x27] @ rr_rule r @ [CHR 0x27] @
         '' does not match the required pattern'')
        (make_path idx ''rule'')
        (Some (''use lowercase letters, digits, and dots; e.g. '' @ [CHR 0x27] @ ''notes.edit'' @
           [CHR 0x27] @ '' or '' @ [CHR 0x27] @ ''terminal.shell.execute'' @ [CHR 0x27]))
      else out)"

definition check_rule_a2 ::
  "rbac_rule \<Rightarrow> nat \<Rightarrow> string \<Rightarrow> manifest_parse_error list \<Rightarrow> manifest_parse_error list" where
  "check_rule_a2 r idx package_name out =
     (if rr_namespace r = package_name then out
      else if is_reserved_kernel_namespace (rr_namespace r) then out
      else push_error out ''rbac.rule.namespace_mismatch''
        (''rbac.json rules['' @ show_nat idx @ ''].namespace '' @ [CHR 0x27] @ rr_namespace r @
         [CHR 0x27] @ '' does not match package name '' @ [CHR 0x27] @ package_name @ [CHR 0x27] @
         '' or any reserved namespace'')
        (make_path idx ''namespace'')
        (Some (''rename the rule'' @ [CHR 0x27] @ ''s namespace to '' @ [CHR 0x27] @ package_name @
           [CHR 0x27] @ '' or one of: kernel, plinth, system'')))"

text \<open>The value of the enumerator, as \<open>static_cast<int>\<close> gives it.\<close>

fun error_ordinal :: "capability_error \<Rightarrow> nat" where
  "error_ordinal INVALID_NAMESPACE = 0" | "error_ordinal INVALID_VERSION = 1"
| "error_ordinal INVALID_FUNCTION = 2" | "error_ordinal INVALID_SCOPE = 3"
| "error_ordinal INVALID_PROVIDER_TYPE = 4" | "error_ordinal INVALID_DESCRIPTION = 5"
| "error_ordinal INVALID_CAPABILITY = 6" | "error_ordinal MISSING_EXTENSION_NAME = 7"
| "error_ordinal RESERVED_NAMESPACE = 8" | "error_ordinal NAMESPACE_MISMATCH = 9"
| "error_ordinal CAPABILITY_EXISTS = 10" | "error_ordinal CAPABILITY_NOT_FOUND = 11"
| "error_ordinal RBAC_RULE_NOT_FOUND = 12" | "error_ordinal USER_SCOPE_NOT_SUPPORTED = 13"
| "error_ordinal DB_ERROR = 14" | "error_ordinal CAPABILITY_DISABLED = 15"
| "error_ordinal TIER3_NOT_AVAILABLE = 16" | "error_ordinal CALL_DEPTH_EXCEEDED = 17"
| "error_ordinal PERMISSION_DENIED = 18" | "error_ordinal ASYNC_REQUIRED = 19"
| "error_ordinal EXTENSION_DISPATCH_FAILED = 20"

definition check_assert_call :: "json \<Rightarrow> nat \<Rightarrow> string \<Rightarrow> provided_capability list
    \<Rightarrow> manifest_parse_error list \<Rightarrow> manifest_parse_error list" where
  "check_assert_call assert_node idx which provides out =
     (if \<not> is_object assert_node \<or> \<not> is_member ''call'' assert_node
         \<or> \<not> is_string (get_member ''call'' assert_node)
      then out
      else let call = as_string (get_member ''call'' assert_node);
               here = ''rbac.json rules['' @ show_nat idx @ ''].test.'' @ which @ ''.call '' @
                      [CHR 0x27] @ call @ [CHR 0x27]
           in case parse_signature call of
                Inr err_code \<Rightarrow>
                  push_error out ''rbac.test.call.parse_error''
                    (here @ '' is not a valid capability signature (parser error: '' @
                     show_nat (error_ordinal err_code) @ '')'')
                    (make_path idx ''test/'' @ which @ ''/call'')
                    (Some (''format: <namespace>:<version>:<function> (e.g. notes:1:create or notes:1:edit('' @
                           [CHR 0x27] @ ''foo'' @ [CHR 0x27] @ ''))''))
              | Inl sig \<Rightarrow>
                  (let hit = list_ex (\<lambda>pc. pc_namespace pc = ps_namespace sig
                          \<and> pc_version pc = ps_version sig \<and> pc_function pc = ps_function sig) provides
                   in if \<not> hit
                      then push_error out ''rbac.test.call.unresolved''
                        (here @ '' does not reference any provided capability'')
                        (make_path idx ''test/'' @ which @ ''/call'')
                        (Some (''add the capability to capabilities.json or fix the signature to match'' @
                               '' an existing provides[] entry''))
                      else out))"

definition check_rules_a3_a4 :: "rbac_rule \<Rightarrow> nat \<Rightarrow> provided_capability list
    \<Rightarrow> manifest_parse_error list \<Rightarrow> manifest_parse_error list" where
  "check_rules_a3_a4 r idx provides out =
     (case rr_test r of
        None \<Rightarrow> out
      | Some test \<Rightarrow>
          (let out1 = (if is_member ''assert_deny'' test
                       then check_assert_call (get_member ''assert_deny'' test) idx ''assert_deny'' provides out
                       else out)
           in if is_member ''assert_allow'' test
              then check_assert_call (get_member ''assert_allow'' test) idx ''assert_allow'' provides out1
              else out1))"

definition check_static_rule :: "rbac_rule \<Rightarrow> nat \<Rightarrow> provided_capability list \<Rightarrow> string
    \<Rightarrow> manifest_parse_error list \<Rightarrow> manifest_parse_error list" where
  "check_static_rule r idx provides package_name out =
     check_rules_a3_a4 r idx provides (check_rule_a2 r idx package_name (check_rule_a1 r idx out))"

definition check_rule_a5 :: "rule_lookup \<Rightarrow> rbac_rule \<Rightarrow> nat \<Rightarrow> string
    \<Rightarrow> manifest_parse_error list \<Rightarrow> manifest_parse_error list" where
  "check_rule_a5 lookup r idx package_name out =
     (case lookup (rr_rule r) of
        Inr db_message \<Rightarrow>
          push_error out ''rbac.rule.name_collision''
            (''rbac.json rules['' @ show_nat idx @ ''] collision check failed: '' @ db_message)
            (make_path idx ''rule'') None
      | Inl None \<Rightarrow> out
      | Inl (Some existing) \<Rightarrow>
          if existing = package_name then out
          else push_error out ''rbac.rule.name_collision''
            (''rbac.json rules['' @ show_nat idx @ ''].rule '' @ [CHR 0x27] @ rr_rule r @ [CHR 0x27] @
             '' is already registered by extension '' @ [CHR 0x27] @ existing @ [CHR 0x27])
            (make_path idx ''rule'')
            (Some (''rename this rule; rule names are a global identity space across extensions'' @
                   '' (ICD-0.1.4 '' @ [CHR 0xC2, CHR 0xA7] @ ''Rule Registration)'')))"

definition validate_rules_static :: "rbac_rule list \<Rightarrow> provided_capability list \<Rightarrow> string
    \<Rightarrow> manifest_parse_error list" where
  "validate_rules_static rules provides package_name =
     fold (\<lambda>(i, r) out. check_static_rule r i provides package_name out) (enumerate 0 rules) []"

definition validate_rules :: "rule_lookup \<Rightarrow> rbac_rule list \<Rightarrow> provided_capability list \<Rightarrow> string
    \<Rightarrow> manifest_parse_error list" where
  "validate_rules lookup rules provides package_name =
     fold (\<lambda>(i, r) out. check_rule_a5 lookup r i package_name
             (check_static_rule r i provides package_name out)) (enumerate 0 rules) []"

section \<open>The name pattern\<close>

lemma segment_char: "is_valid_rule_segment_char = is_ext_rest"
  by (auto simp: is_valid_rule_segment_char_def is_ext_rest_def)

lemma split_at_dot:
  assumes "s \<noteq> []" and "hd s \<noteq> dot"
  shows "split_on dot s =
    (let body = takeWhile (\<lambda>c. c \<noteq> dot) (tl s); rest = dropWhile (\<lambda>c. c \<noteq> dot) (tl s)
     in (hd s # body) # (if rest = [] then [] else split_on dot (tl rest)))"
proof -
  let ?body = "takeWhile (\<lambda>c. c \<noteq> dot) (tl s)" and ?rest = "dropWhile (\<lambda>c. c \<noteq> dot) (tl s)"
  have s: "s = (hd s # ?body) @ ?rest" using assms(1) by simp
  have n: "dot \<notin> set (hd s # ?body)" using assms(2) by (auto dest: set_takeWhileD)
  show ?thesis
  proof (cases "?rest = []")
    case True
    with s have "split_on dot s = split_on dot (hd s # ?body)" by simp
    then show ?thesis using True split_on_single [OF n] by (simp add: Let_def)
  next
    case False
    then have "?rest = dot # tl ?rest" using hd_dropWhile [OF False] by (metis list.collapse)
    with s have "split_on dot s = split_on dot ((hd s # ?body) @ dot # tl ?rest)" by metis
    then show ?thesis using False split_on_append [OF n] by (simp add: Let_def)
  qed
qed

lemma split_on_Nil_first: "s \<noteq> [] \<Longrightarrow> hd s = dot \<Longrightarrow> [] \<in> set (split_on dot s)"
  by (cases s) auto

lemma rule_name_loop_iff:
  "s \<noteq> [] \<Longrightarrow> rule_name_loop s n = Some m \<longleftrightarrow>
     list_all is_ext_name (split_on dot s) \<and> m = n + length (split_on dot s)"
proof (induction s n rule: rule_name_loop.induct)
  case (1 s n)
  let ?body = "takeWhile (\<lambda>c. c \<noteq> dot) (tl s)" and ?rest = "dropWhile (\<lambda>c. c \<noteq> dot) (tl s)"
  have none: "\<not> is_ext_name []" by (simp add: is_ext_name_def)
  show ?case
  proof (cases "is_lower_char (hd s)")
    case False
    then have "\<not> list_all is_ext_name (split_on dot s)"
    proof (cases "hd s = dot")
      case True
      then show ?thesis using split_on_Nil_first [OF 1(2)] none by (auto simp: list_all_iff)
    next
      case no: False
      then show ?thesis using split_at_dot [OF 1(2) no] False by (simp add: Let_def is_ext_name_def)
    qed
    then show ?thesis using False 1(2) by (subst rule_name_loop.simps) simp
  next
    case True
    then have "hd s \<noteq> dot" by auto
    define body where "body = takeWhile (\<lambda>c. c \<noteq> dot) (tl s)"
    define rest where "rest = dropWhile (\<lambda>c. c \<noteq> dot) (tl s)"
    have sp: "split_on dot s = (hd s # body) # (if rest = [] then [] else split_on dot (tl rest))"
      using split_at_dot [OF 1(2) \<open>hd s \<noteq> dot\<close>] unfolding body_def rest_def Let_def .
    have seg: "is_ext_name (hd s # body) = list_all is_valid_rule_segment_char body"
      using True by (simp add: is_ext_name_def segment_char)
    have ih: "rule_name_loop (tl rest) (n + 1) = Some m \<longleftrightarrow>
        list_all is_ext_name (split_on dot (tl rest)) \<and> m = n + 1 + length (split_on dot (tl rest))"
      if "list_all is_valid_rule_segment_char body" "rest \<noteq> []" "tl rest \<noteq> []"
      using 1(1) [OF 1(2) _ body_def rest_def] True that by simp
    have unf: "rule_name_loop s n = (if \<not> list_all is_valid_rule_segment_char body then None
        else if rest \<noteq> [] \<and> tl rest = [] then None else rule_name_loop (tl rest) (n + 1))"
      using True 1(2) unfolding body_def rest_def by (subst rule_name_loop.simps) (simp add: Let_def)
    show ?thesis
    proof (cases "list_all is_valid_rule_segment_char body \<and> rest \<noteq> [] \<and> tl rest \<noteq> []")
      case True
      then show ?thesis unfolding unf sp using seg ih by auto
    next
      case False
      then show ?thesis unfolding unf sp using seg none by auto
    qed
  qed
qed

lemma rule_name_pattern_iff:
  "is_valid_rule_name s \<longleftrightarrow> 2 \<le> length (split_on dot s) \<and> length (split_on dot s) \<le> 5
     \<and> list_all is_ext_name (split_on dot s)"
proof (cases "s = []")
  case False
  show ?thesis
  proof (cases "rule_name_loop s 0")
    case None
    with rule_name_loop_iff [OF False, of 0 "length (split_on dot s)"]
    show ?thesis using False by (simp add: is_valid_rule_name_def)
  next
    case (Some a)
    with rule_name_loop_iff [OF False, of 0 a] show ?thesis using False
      by (simp add: is_valid_rule_name_def Let_def)
  qed
qed (simp add: is_valid_rule_name_def)

section \<open>Acceptance\<close>

text \<open>What a rule must satisfy for no error to be reported about it.\<close>

definition assert_ok :: "provided_capability list \<Rightarrow> json \<Rightarrow> string \<Rightarrow> bool" where
  "assert_ok provides test which \<longleftrightarrow>
     (is_member which test \<and> is_object (get_member which test)
        \<and> is_member ''call'' (get_member which test)
        \<and> is_string (get_member ''call'' (get_member which test)) \<longrightarrow>
      (\<exists>pc\<in>set provides. parse_signature (as_string (get_member ''call'' (get_member which test))) =
         Inl \<lparr>ps_namespace = pc_namespace pc, ps_version = pc_version pc, ps_function = pc_function pc\<rparr>))"

definition rule_acceptable :: "rule_lookup \<Rightarrow> provided_capability list \<Rightarrow> string \<Rightarrow> rbac_rule \<Rightarrow> bool" where
  "rule_acceptable lookup provides package r \<longleftrightarrow>
     is_valid_rule_name (rr_rule r)
     \<and> (rr_namespace r = package \<or> is_reserved_kernel_namespace (rr_namespace r))
     \<and> (\<forall>test. rr_test r = Some test \<longrightarrow>
          assert_ok provides test ''assert_deny'' \<and> assert_ok provides test ''assert_allow'')
     \<and> (lookup (rr_rule r) = Inl None \<or> lookup (rr_rule r) = Inl (Some package))"

lemma push_error_ne [simp]: "push_error out a b c d \<noteq> []"
  by (simp add: push_error_def)

lemma check_assert_call_Nil:
  "(if is_member which test then check_assert_call (get_member which test) i which provides out else out) = []
     \<longleftrightarrow> out = [] \<and> assert_ok provides test which"
proof -
  have "list_ex (\<lambda>pc. pc_namespace pc = ps_namespace sig \<and> pc_version pc = ps_version sig
          \<and> pc_function pc = ps_function sig) provides \<longleftrightarrow>
        (\<exists>pc\<in>set provides. sig =
           \<lparr>ps_namespace = pc_namespace pc, ps_version = pc_version pc, ps_function = pc_function pc\<rparr>)"
    for sig :: parsed_signature
    by (cases sig) (auto simp: list_ex_iff)
  then show ?thesis
    by (auto simp: check_assert_call_def assert_ok_def Let_def split: sum.split)
qed

lemma check_rule_Nil:
  "check_rule_a5 lookup r i package (check_static_rule r i provides package out) = [] \<longleftrightarrow>
     out = [] \<and> rule_acceptable lookup provides package r"
proof -
  have a5: "check_rule_a5 lookup r i package out' = [] \<longleftrightarrow>
      out' = [] \<and> (lookup (rr_rule r) = Inl None \<or> lookup (rr_rule r) = Inl (Some package))" for out'
    by (auto simp: check_rule_a5_def split: sum.split option.split)
  have a34: "check_rules_a3_a4 r i provides out' = [] \<longleftrightarrow> out' = [] \<and> (\<forall>test. rr_test r = Some test \<longrightarrow>
      assert_ok provides test ''assert_deny'' \<and> assert_ok provides test ''assert_allow'')" for out'
    using check_assert_call_Nil
    by (cases "rr_test r") (auto simp: check_rules_a3_a4_def Let_def)
  have a12: "check_rule_a2 r i package (check_rule_a1 r i out) = [] \<longleftrightarrow> out = []
      \<and> is_valid_rule_name (rr_rule r)
      \<and> (rr_namespace r = package \<or> is_reserved_kernel_namespace (rr_namespace r))"
    by (auto simp: check_rule_a2_def check_rule_a1_def)
  show ?thesis by (auto simp: a5 check_static_rule_def a34 a12 rule_acceptable_def)
qed

section \<open>Properties\<close>

text \<open>
  The scanner accepts exactly the documented pattern of rule names: two to five segments
  separated by dots, each a lowercase letter followed by lowercase letters and digits.
\<close>

theorem rule_name_pattern:
  "is_valid_rule_name s \<longleftrightarrow>
     (let segs = split_on dot s in 2 \<le> length segs \<and> length segs \<le> 5 \<and> list_all is_ext_name segs)"
  unfolding Let_def by (rule rule_name_pattern_iff)

text \<open>
  C33: A manifest is accepted, with no message, exactly when every rule has a well-formed name, a
  namespace that is the package's own or reserved, test calls that parse and name a capability
  the package provides, and no other extension owns the name (a failing query rejects).
\<close>

theorem validate_rules_accepts:
  "validate_rules lookup rules provides package = [] \<longleftrightarrow>
     list_all (rule_acceptable lookup provides package) rules"
proof -
  have "fold (\<lambda>(i, r) out. check_rule_a5 lookup r i package
          (check_static_rule r i provides package out)) (enumerate k rules) out = [] \<longleftrightarrow>
        out = [] \<and> list_all (rule_acceptable lookup provides package) rules" for k out
    by (induction rules arbitrary: k out) (auto simp: check_rule_Nil)
  then show ?thesis by (simp add: validate_rules_def)
qed

end
