(* ===== verification/Cursor_Store.thy ===== *)
theory Cursor_Store
  imports Prelude
begin

text \<open>
  The per-user delivery cursors (\<^verbatim>\<open>realtime/cursor_store.cpp\<close>): a write-back cache over the table
  \<^verbatim>\<open>plinth.user_event_cursors\<close>.

  The linked list and the index over it are one association list in the order of the list, most
  recently used first. The operations are coroutines that hold the mutex only up to their first
  database call, so each is modelled by its locked part and by the statement it then issues; an
  issued statement waits in \<open>cs_inflight\<close> until the database executes it, in any order, or fails.
  The effect of the two \<^verbatim>\<open>INSERT ... ON CONFLICT\<close> statements on the table is written out from
  their SQL text. Readings of the clock are numbered.
\<close>

record cache_entry =
  ce_last_seq :: int
  ce_pg_persisted_seq :: int
  ce_last_flush :: time_ns
  ce_pending_delta :: nat

record flush_plan =
  fp_user :: string
  fp_seq :: int

datatype db_stmt = Advance flush_plan | Reset flush_plan

record cursor_store =
  cs_entries :: "(string \<times> cache_entry) list"
  cs_ttl_ms :: nat
  cs_threshold :: nat
  cs_db_client :: bool
  cs_reads :: nat
  cs_table :: "(string \<times> int) list"
  cs_inflight :: "db_stmt list"
  cs_reading :: "(string \<times> int option) list"

definition initial_cursor_store :: "(string \<times> int) list \<Rightarrow> cursor_store" where
  "initial_cursor_store tbl =
     \<lparr>cs_entries = [], cs_ttl_ms = 1000, cs_threshold = 50, cs_db_client = True, cs_reads = 0,
      cs_table = tbl, cs_inflight = [], cs_reading = []\<rparr>"

section \<open>The table\<close>

definition upsert_advance :: "flush_plan \<Rightarrow> (string \<times> int) list \<Rightarrow> (string \<times> int) list" where
  "upsert_advance plan tbl =
     (case map_of tbl (fp_user plan) of
        None \<Rightarrow> AList.update (fp_user plan) (fp_seq plan) tbl
      | Some v \<Rightarrow> AList.update (fp_user plan) (max v (fp_seq plan)) tbl)"

definition upsert_reset :: "flush_plan \<Rightarrow> (string \<times> int) list \<Rightarrow> (string \<times> int) list" where
  "upsert_reset plan tbl = AList.update (fp_user plan) (fp_seq plan) tbl"

text \<open>A missing row and a failed query both read as 0.\<close>

definition select_cursor :: "bool \<Rightarrow> string \<Rightarrow> (string \<times> int) list \<Rightarrow> int" where
  "select_cursor ok user tbl =
     (if \<not> ok then 0 else (case map_of tbl user of None \<Rightarrow> 0 | Some v \<Rightarrow> v))"

fun exec_stmt :: "db_stmt \<Rightarrow> (string \<times> int) list \<Rightarrow> (string \<times> int) list" where
  "exec_stmt (Advance p) tbl = upsert_advance p tbl"
| "exec_stmt (Reset p) tbl = upsert_reset p tbl"

section \<open>Operations\<close>

definition configure :: "nat \<Rightarrow> nat \<Rightarrow> cursor_store \<Rightarrow> cursor_store" where
  "configure ttl_ms threshold st = st\<lparr>cs_ttl_ms := ttl_ms, cs_threshold := threshold\<rparr>"

definition schedule_flush_locked :: "time_ns \<Rightarrow> string \<Rightarrow> cache_entry \<Rightarrow> flush_plan \<times> cache_entry" where
  "schedule_flush_locked now user e =
     (\<lparr>fp_user = user, fp_seq = ce_last_seq e\<rparr>,
      e\<lparr>ce_pg_persisted_seq := ce_last_seq e, ce_pending_delta := 0, ce_last_flush := now\<rparr>)"

definition issue :: "db_stmt \<Rightarrow> cursor_store \<Rightarrow> cursor_store" where
  "issue s st = (if cs_db_client st then st\<lparr>cs_inflight := cs_inflight st @ [s]\<rparr> else st)"

definition tick :: "cursor_store \<Rightarrow> cursor_store" where
  "tick st = st\<lparr>cs_reads := cs_reads st + 1\<rparr>"

text \<open>\<open>read_cursor\<close>: probing the cache, then the query, then the recheck that fills the cache.\<close>

definition read_probe :: "string \<Rightarrow> cursor_store \<Rightarrow> int option \<times> cursor_store" where
  "read_probe user st =
     (case map_of (cs_entries st) user of
        Some e \<Rightarrow> (Some (ce_last_seq e),
                  st\<lparr>cs_entries := (user, e) # AList.delete user (cs_entries st)\<rparr>)
      | None \<Rightarrow>
          if \<not> cs_db_client st then (Some 0, st)
          else (None, st\<lparr>cs_reading := cs_reading st @ [(user, None)]\<rparr>))"

definition read_select :: "bool \<Rightarrow> nat \<Rightarrow> cursor_store \<Rightarrow> cursor_store" where
  "read_select ok i st =
     (if i < length (cs_reading st) \<and> snd (cs_reading st ! i) = None
      then st\<lparr>cs_reading := (cs_reading st)[i := (fst (cs_reading st ! i),
             Some (select_cursor ok (fst (cs_reading st ! i)) (cs_table st)))]\<rparr>
      else st)"

definition read_fill :: "clock \<Rightarrow> nat \<Rightarrow> cursor_store \<Rightarrow> int option \<times> cursor_store" where
  "read_fill clk i st =
     (if i < length (cs_reading st)
      then (case cs_reading st ! i of
              (user, None) \<Rightarrow> (None, st)
            | (user, Some seq) \<Rightarrow>
                let st1 = st\<lparr>cs_reading := take i (cs_reading st) @ drop (Suc i) (cs_reading st)\<rparr>
                in (Some seq,
                    if map_of (cs_entries st) user = None
                    then tick (st1\<lparr>cs_entries :=
                           (user, \<lparr>ce_last_seq = seq, ce_pg_persisted_seq = seq,
                                   ce_last_flush = clk (cs_reads st), ce_pending_delta = 0\<rparr>)
                           # cs_entries st\<rparr>)
                    else st1))
      else (None, st))"

text \<open>The end of \<open>record_delivered\<close>: is the entry at the front due?\<close>

definition flush_if_due :: "clock \<Rightarrow> string \<Rightarrow> cache_entry \<Rightarrow> cursor_store \<Rightarrow> cursor_store" where
  "flush_if_due clk user e st =
     (let ttl_expired = (cs_ttl_ms st = 0 \<or>
            clk (cs_reads st) - ce_last_flush e \<ge> int (cs_ttl_ms st) * milli_ns);
          st1 = (if cs_ttl_ms st = 0 then st else tick st)
      in if ttl_expired \<or> ce_pending_delta e \<ge> cs_threshold st
         then (case schedule_flush_locked (clk (cs_reads st1)) user e of
                 (plan, e1) \<Rightarrow>
                   issue (Advance plan)
                     (tick (st1\<lparr>cs_entries := AList.update user e1 (cs_entries st1)\<rparr>)))
         else st1)"

definition record_delivered :: "clock \<Rightarrow> string \<Rightarrow> int \<Rightarrow> cursor_store \<Rightarrow> cursor_store" where
  "record_delivered clk user new_seq st =
     (case map_of (cs_entries st) user of
        None \<Rightarrow>
          let e = \<lparr>ce_last_seq = new_seq, ce_pg_persisted_seq = 0,
                   ce_last_flush = clk (cs_reads st), ce_pending_delta = 1\<rparr>
          in flush_if_due clk user e (tick (st\<lparr>cs_entries := (user, e) # cs_entries st\<rparr>))
      | Some e \<Rightarrow>
          let rest = AList.delete user (cs_entries st)
          in if new_seq \<le> ce_last_seq e then st\<lparr>cs_entries := (user, e) # rest\<rparr>
             else let e1 = e\<lparr>ce_last_seq := new_seq, ce_pending_delta := ce_pending_delta e + 1\<rparr>
                  in flush_if_due clk user e1 (st\<lparr>cs_entries := (user, e1) # rest\<rparr>))"

definition reset_cursor :: "clock \<Rightarrow> string \<Rightarrow> int \<Rightarrow> cursor_store \<Rightarrow> cursor_store" where
  "reset_cursor clk user new_seq st =
     (let e = \<lparr>ce_last_seq = new_seq, ce_pg_persisted_seq = new_seq,
               ce_last_flush = clk (cs_reads st), ce_pending_delta = 0\<rparr>;
          st1 = (case map_of (cs_entries st) user of
                   Some _ \<Rightarrow> st\<lparr>cs_entries := AList.update user e (cs_entries st)\<rparr>
                 | None \<Rightarrow> st\<lparr>cs_entries := (user, e) # cs_entries st\<rparr>)
      in issue (Reset \<lparr>fp_user = user, fp_seq = new_seq\<rparr>) (tick st1))"

text \<open>\<open>flush_all_for_shutdown\<close>: one pass over the cache, then one statement per planned entry.\<close>

fun flush_pass :: "clock \<Rightarrow> nat \<Rightarrow> (string \<times> cache_entry) list
    \<Rightarrow> flush_plan list \<times> (string \<times> cache_entry) list \<times> nat" where
  "flush_pass clk n [] = ([], [], n)"
| "flush_pass clk n ((user, e) # es) =
     (if ce_pending_delta e > 0
      then (case schedule_flush_locked (clk n) user e of
              (plan, e1) \<Rightarrow> (case flush_pass clk (n + 1) es of
                 (plans, es1, m) \<Rightarrow> (plan # plans, (user, e1) # es1, m)))
      else (case flush_pass clk n es of (plans, es1, m) \<Rightarrow> (plans, (user, e) # es1, m)))"

definition flush_all_for_shutdown :: "clock \<Rightarrow> cursor_store \<Rightarrow> cursor_store" where
  "flush_all_for_shutdown clk st =
     (case flush_pass clk (cs_reads st) (cs_entries st) of
        (plans, es, n) \<Rightarrow>
          fold (\<lambda>p. issue (Advance p)) plans (st\<lparr>cs_entries := es, cs_reads := n\<rparr>))"

definition force_flush_for_test :: "clock \<Rightarrow> string \<Rightarrow> cursor_store \<Rightarrow> cursor_store" where
  "force_flush_for_test clk user st =
     (case map_of (cs_entries st) user of
        None \<Rightarrow> st
      | Some e \<Rightarrow>
          if ce_pending_delta e = 0 then st
          else (case schedule_flush_locked (clk (cs_reads st)) user e of
                  (plan, e1) \<Rightarrow>
                    issue (Advance plan)
                      (tick (st\<lparr>cs_entries := AList.update user e1 (cs_entries st)\<rparr>))))"

definition clear_cache_for_test :: "cursor_store \<Rightarrow> cursor_store" where
  "clear_cache_for_test st = st\<lparr>cs_entries := []\<rparr>"

text \<open>The database executes the statement in flight at \<open>i\<close>, or reports a failure, which is logged.\<close>

definition land :: "bool \<Rightarrow> nat \<Rightarrow> cursor_store \<Rightarrow> cursor_store" where
  "land ok i st =
     (if i < length (cs_inflight st)
      then st\<lparr>cs_inflight := take i (cs_inflight st) @ drop (Suc i) (cs_inflight st),
              cs_table := (if ok then exec_stmt (cs_inflight st ! i) (cs_table st) else cs_table st)\<rparr>
      else st)"

section \<open>Runs\<close>

datatype cs_event =
    Probe string
  | Select bool nat
  | Fill nat
  | Deliver string int
  | ResetTo string int
  | FlushAll
  | ForceFlush string
  | Land bool nat

fun cs_step :: "clock \<Rightarrow> cursor_store \<Rightarrow> cs_event \<Rightarrow> cursor_store" where
  "cs_step clk st (Probe u) = snd (read_probe u st)"
| "cs_step clk st (Select ok i) = read_select ok i st"
| "cs_step clk st (Fill i) = snd (read_fill clk i st)"
| "cs_step clk st (Deliver u s) = record_delivered clk u s st"
| "cs_step clk st (ResetTo u s) = reset_cursor clk u s st"
| "cs_step clk st FlushAll = flush_all_for_shutdown clk st"
| "cs_step clk st (ForceFlush u) = force_flush_for_test clk u st"
| "cs_step clk st (Land ok i) = land ok i st"

section \<open>The table as a monotone store\<close>

text \<open>
  What the cache relies on: an advance raises one user's cursor to at least the given value and
  leaves the others alone. Then advances commute, so the order in which statements land is immaterial.
\<close>

locale advancing_store =
  fixes get :: "'t \<Rightarrow> string \<Rightarrow> int option"
    and adv :: "flush_plan \<Rightarrow> 't \<Rightarrow> 't"
  assumes get_adv: "get (adv p t) u =
    (if u = fp_user p then Some (case get t u of None \<Rightarrow> fp_seq p | Some v \<Rightarrow> max v (fp_seq p)) else get t u)"
begin

definition reaches :: "'t \<Rightarrow> string \<Rightarrow> int \<Rightarrow> bool" where
  "reaches t u s \<longleftrightarrow> (case get t u of None \<Rightarrow> False | Some v \<Rightarrow> s \<le> v)"

lemma reaches_adv: "reaches (adv p t) u s \<longleftrightarrow> reaches t u s \<or> (u = fp_user p \<and> s \<le> fp_seq p)"
  by (auto simp: reaches_def get_adv split: option.splits)

lemma reaches_fold: "reaches (fold adv ps t) u s \<longleftrightarrow> reaches t u s \<or> (\<exists>p\<in>set ps. u = fp_user p \<and> s \<le> fp_seq p)"
  by (induction ps arbitrary: t) (auto simp: reaches_adv)

lemma get_adv_commute: "get (adv p (adv q t)) u = get (adv q (adv p t)) u"
  by (auto simp: get_adv split: option.splits)

end

interpretation cursors: advancing_store "map_of" "upsert_advance"
  by unfold_locales (auto simp: upsert_advance_def split: option.splits)

section \<open>Where cursor values come from\<close>

lemma map_of_front [simp]: "map_of ((u, e) # AList.delete u m) = (map_of m)(u \<mapsto> e)"
  by (simp add: fun_eq_iff)

lemma tick_simps [simp]:
  "cs_entries (tick st) = cs_entries st" "cs_table (tick st) = cs_table st"
  "cs_inflight (tick st) = cs_inflight st" "cs_reading (tick st) = cs_reading st"
  "cs_db_client (tick st) = cs_db_client st" "cs_threshold (tick st) = cs_threshold st"
  by (simp_all add: tick_def)

lemma issue_simps [simp]:
  "cs_entries (issue s st) = cs_entries st" "cs_table (issue s st) = cs_table st"
  "cs_reading (issue s st) = cs_reading st" "cs_db_client (issue s st) = cs_db_client st"
  "cs_inflight (issue s st) = (if cs_db_client st then cs_inflight st @ [s] else cs_inflight st)"
  by (simp_all add: issue_def)

lemma fold_issue:
  "fold (\<lambda>p. issue (Advance p)) ps st =
     (if cs_db_client st then st\<lparr>cs_inflight := cs_inflight st @ map Advance ps\<rparr> else st)"
  by (induction ps arbitrary: st) (auto simp: issue_def)

text \<open>What a pass over the cache does to each entry, and what it plans.\<close>

lemma flush_pass_entries:
  assumes "flush_pass clk n es = (ps, es', m)"
  shows "map fst es' = map fst es"
    and "(u, e') \<in> set es' \<Longrightarrow> \<exists>e. (u, e) \<in> set es \<and> ce_last_seq e' = ce_last_seq e \<and> ce_pending_delta e' = 0
           \<and> (ce_pending_delta e = 0 \<or> \<lparr>fp_user = u, fp_seq = ce_last_seq e\<rparr> \<in> set ps)"
    and "p \<in> set ps \<Longrightarrow> \<exists>e. (fp_user p, e) \<in> set es \<and> fp_seq p = ce_last_seq e \<and> ce_pending_delta e > 0"
  using assms
  by (induction clk n es arbitrary: ps es' m rule: flush_pass.induct)
    (auto simp: schedule_flush_locked_def split: if_splits prod.splits, fastforce+)

definition from_src :: "(string \<Rightarrow> int \<Rightarrow> bool) \<Rightarrow> cursor_store \<Rightarrow> bool" where
  "from_src src st \<longleftrightarrow>
     (\<forall>u v. map_of (cs_table st) u = Some v \<longrightarrow> src u v)
   \<and> (\<forall>p. Advance p \<in> set (cs_inflight st) \<or> Reset p \<in> set (cs_inflight st) \<longrightarrow> src (fp_user p) (fp_seq p))
   \<and> (\<forall>u e. (u, e) \<in> set (cs_entries st) \<longrightarrow> ce_pending_delta e > 0 \<longrightarrow> src u (ce_last_seq e))"

fun cs_from :: "(string \<Rightarrow> int \<Rightarrow> bool) \<Rightarrow> cs_event \<Rightarrow> bool" where
  "cs_from src (Deliver u s) = src u s"
| "cs_from src (ResetTo u s) = src u s"
| "cs_from src _ = True"

lemma not_in_delete: "k \<notin> fst ` set (AList.delete k m)"
  by (induction m) (auto simp: AList.delete_eq split: if_splits)

lemma set_delete_sub: "kv \<in> set (AList.delete k m) \<Longrightarrow> kv \<in> set m"
  by (induction m) (auto simp: AList.delete_eq split: if_splits)

lemma set_update_sub: "kv \<in> set (AList.update k v m) \<Longrightarrow> kv \<in> set m \<or> kv = (k, v)"
  by (induction m) (auto split: if_splits)

lemma from_src_frame:
  assumes "from_src src st" and "cs_table st' = cs_table st"
    and "\<And>s. s \<in> set (cs_inflight st') \<Longrightarrow> s \<in> set (cs_inflight st) \<or>
           (\<exists>p. (s = Advance p \<or> s = Reset p) \<and> src (fp_user p) (fp_seq p))"
    and "\<And>u e. (u, e) \<in> set (cs_entries st') \<Longrightarrow>
           (u, e) \<in> set (cs_entries st) \<or> ce_pending_delta e = 0 \<or> src u (ce_last_seq e)"
  shows "from_src src st'"
proof -
  have "src (fp_user p) (fp_seq p)" if "Advance p \<in> set (cs_inflight st') \<or> Reset p \<in> set (cs_inflight st')" for p
    using assms(3) [of "Advance p"] assms(3) [of "Reset p"] that assms(1) unfolding from_src_def by auto
  moreover have "src u (ce_last_seq e)" if "(u, e) \<in> set (cs_entries st')" "ce_pending_delta e > 0" for u e
    using assms(4) [OF that(1)] that(2) assms(1) unfolding from_src_def by auto
  ultimately show ?thesis using assms(1,2) unfolding from_src_def by (intro conjI allI impI) auto
qed

lemma flush_if_due_src:
  assumes s: "from_src src st" and "src u (ce_last_seq e)"
  shows "from_src src (flush_if_due clk u e st)"
proof (rule from_src_frame [OF s])
  show "cs_table (flush_if_due clk u e st) = cs_table st"
    by (simp add: flush_if_due_def Let_def schedule_flush_locked_def)
  show "x \<in> set (cs_inflight st) \<or> (\<exists>p. (x = Advance p \<or> x = Reset p) \<and> src (fp_user p) (fp_seq p))"
    if "x \<in> set (cs_inflight (flush_if_due clk u e st))" for x
    using that assms(2) by (auto simp: flush_if_due_def Let_def schedule_flush_locked_def split: if_splits)
  show "(v, f) \<in> set (cs_entries st) \<or> ce_pending_delta f = 0 \<or> src v (ce_last_seq f)"
    if "(v, f) \<in> set (cs_entries (flush_if_due clk u e st))" for v f
    using that by (auto simp: flush_if_due_def Let_def schedule_flush_locked_def split: if_splits
        dest!: set_update_sub)
qed

lemma record_delivered_src:
  assumes s: "from_src src st" and u: "src u n"
  shows "from_src src (record_delivered clk u n st)"
proof -
  have put: "from_src src (st\<lparr>cs_entries := (u, e) # m\<rparr>)"
    if "m = cs_entries st \<or> m = AList.delete u (cs_entries st)"
      "src u (ce_last_seq e) \<or> (u, e) \<in> set (cs_entries st)" for e m
    by (rule from_src_frame [OF s]) (use that in \<open>auto dest: set_delete_sub\<close>)
  have tk: "from_src src (tick st') = from_src src st'" for st' by (simp add: from_src_def)
  show ?thesis
  proof (cases "map_of (cs_entries st) u")
    case None
    then show ?thesis using u by (simp add: record_delivered_def Let_def flush_if_due_src tk put)
  next
    case (Some e)
    then have "(u, e) \<in> set (cs_entries st)" by (rule map_of_SomeD)
    with Some u show ?thesis by (simp add: record_delivered_def Let_def flush_if_due_src put)
  qed
qed

lemma exec_stmt_src:
  assumes "\<And>u v. map_of t u = Some v \<Longrightarrow> src u v"
    and "\<And>p. s = Advance p \<or> s = Reset p \<Longrightarrow> src (fp_user p) (fp_seq p)"
    and "map_of (exec_stmt s t) u = Some v"
  shows "src u v"
proof (cases s)
  case (Advance p)
  then have "src (fp_user p) (fp_seq p)" "map_of (upsert_advance p t) u = Some v" using assms(2,3) by simp_all
  then show ?thesis
    by (auto simp: upsert_advance_def max_def split: option.splits if_splits dest: assms(1))
next
  case (Reset p)
  with assms show ?thesis by (auto simp: upsert_reset_def split: if_splits)
qed

lemma land_src: "from_src src st \<Longrightarrow> from_src src (land ok i st)"
proof -
  assume s: "from_src src st"
  have sub: "x \<in> set (take i (cs_inflight st) @ drop (Suc i) (cs_inflight st)) \<Longrightarrow> x \<in> set (cs_inflight st)" for x
    using set_take_subset set_drop_subset by fastforce
  show ?thesis
  proof (cases "i < length (cs_inflight st)")
    case True
    then have "cs_inflight st ! i \<in> set (cs_inflight st)" by simp
    with s have "map_of (exec_stmt (cs_inflight st ! i) (cs_table st)) u = Some v \<Longrightarrow> src u v" for u v
      using exec_stmt_src [of "cs_table st" src "cs_inflight st ! i"] unfolding from_src_def by metis
    with s True sub show ?thesis unfolding from_src_def land_def by auto
  qed (use s in \<open>simp add: land_def\<close>)
qed

lemma flush_all_src:
  assumes s: "from_src src st"
  shows "from_src src (flush_all_for_shutdown clk st)"
proof -
  obtain ps es m where f: "flush_pass clk (cs_reads st) (cs_entries st) = (ps, es, m)"
    by (cases "flush_pass clk (cs_reads st) (cs_entries st)")
  show ?thesis
  proof (rule from_src_frame [OF s])
    show "x \<in> set (cs_inflight st) \<or> (\<exists>p. (x = Advance p \<or> x = Reset p) \<and> src (fp_user p) (fp_seq p))"
      if "x \<in> set (cs_inflight (flush_all_for_shutdown clk st))" for x
    proof -
      from that have "x \<in> set (cs_inflight st) \<or> (\<exists>p\<in>set ps. x = Advance p)"
        using f by (auto simp: flush_all_for_shutdown_def fold_issue split: if_splits)
      with flush_pass_entries(3) [OF f] s show ?thesis unfolding from_src_def by metis
    qed
    show "(v, e) \<in> set (cs_entries st) \<or> ce_pending_delta e = 0 \<or> src v (ce_last_seq e)"
      if "(v, e) \<in> set (cs_entries (flush_all_for_shutdown clk st))" for v e
      using that f flush_pass_entries(2) [OF f, of v e]
      by (auto simp: flush_all_for_shutdown_def fold_issue split: if_splits)
  qed (simp add: flush_all_for_shutdown_def f fold_issue)
qed

interpretation cs_origin: invariant_step "cs_step clk" "cs_from src" "from_src src" for clk src
proof
  fix st e assume s: "from_src src st" and a: "cs_from src e"
  show "from_src src (cs_step clk st e)"
  proof (cases e)
    case (Probe u)
    then show ?thesis
      by (simp add: read_probe_def split: option.split)
        (auto intro!: from_src_frame [OF s] dest: set_delete_sub map_of_SomeD)
  next
    case (Select ok i)
    then show ?thesis by (auto simp: read_select_def intro!: from_src_frame [OF s])
  next
    case (Fill i)
    then show ?thesis
      by (auto simp: read_fill_def Let_def s split: prod.split option.split intro!: from_src_frame [OF s])
  next
    case (Deliver u n)
    with s a show ?thesis by (simp add: record_delivered_src)
  next
    case (ResetTo u n)
    with a show ?thesis
      by (auto simp: reset_cursor_def Let_def intro!: from_src_frame [OF s] split: option.splits if_splits
          dest!: set_update_sub)
  next
    case FlushAll
    with s show ?thesis by (simp add: flush_all_src)
  next
    case (ForceFlush u)
    have "(u, e) \<in> set (cs_entries st) \<Longrightarrow> ce_pending_delta e > 0 \<Longrightarrow> src u (ce_last_seq e)" for e
      using s by (simp add: from_src_def)
    with ForceFlush show ?thesis
      by (auto simp: force_flush_for_test_def schedule_flush_locked_def s split: option.split
          intro!: from_src_frame [OF s] dest!: set_update_sub map_of_SomeD split: if_splits)
  next
    case (Land ok i)
    with s show ?thesis by (simp add: land_src)
  qed
qed

section \<open>What has been delivered is not forgotten\<close>

definition secured :: "cursor_store \<Rightarrow> string \<Rightarrow> int \<Rightarrow> bool" where
  "secured st u s \<longleftrightarrow> cursors.reaches (cs_table st) u s \<or>
     (\<exists>p. Advance p \<in> set (cs_inflight st) \<and> fp_user p = u \<and> s \<le> fp_seq p)"

definition cache_ok :: "cursor_store \<Rightarrow> bool" where
  "cache_ok st \<longleftrightarrow> cs_db_client st \<and> distinct_keys (cs_entries st)
   \<and> (\<forall>p. Reset p \<notin> set (cs_inflight st))
   \<and> (\<forall>u e. map_of (cs_entries st) u = Some e \<longrightarrow>
         ce_pending_delta e > 0 \<or> ce_last_seq e \<le> 0 \<or> secured st u (ce_last_seq e))
   \<and> (\<forall>u n. (u, Some n) \<in> set (cs_reading st) \<longrightarrow> n \<le> 0 \<or> secured st u n)"

definition known :: "string \<Rightarrow> int \<Rightarrow> cursor_store \<Rightarrow> bool" where
  "known u s st \<longleftrightarrow> secured st u s \<or> (\<exists>e. map_of (cs_entries st) u = Some e \<and> s \<le> ce_last_seq e)"

text \<open>A step that loses no statement and no table entry and raises the cached cursors.\<close>

definition keeps :: "cursor_store \<Rightarrow> cursor_store \<Rightarrow> bool" where
  "keeps st st' \<longleftrightarrow> (\<forall>u s. secured st u s \<longrightarrow> secured st' u s)
   \<and> (\<forall>u e. map_of (cs_entries st) u = Some e \<longrightarrow>
        (\<exists>e'. map_of (cs_entries st') u = Some e' \<and> ce_last_seq e \<le> ce_last_seq e'))"

lemma keeps_known: "keeps st st' \<Longrightarrow> known u s st \<Longrightarrow> known u s st'"
  unfolding keeps_def known_def by (meson order_trans)

lemma keeps_refl [simp]: "keeps st st" by (simp add: keeps_def)

lemma secured_le: "secured st u s \<Longrightarrow> s' \<le> s \<Longrightarrow> secured st u s'"
  unfolding secured_def cursors.reaches_def by (auto split: option.splits intro: order_trans)

lemma secured_mono:
  "cs_table st' = cs_table st \<Longrightarrow> set (cs_inflight st) \<subseteq> set (cs_inflight st') \<Longrightarrow> secured st u s \<Longrightarrow> secured st' u s"
  unfolding secured_def by auto

lemma cache_ok_entry:
  "cache_ok st \<Longrightarrow> map_of (cs_entries st) u = Some e \<Longrightarrow>
     ce_pending_delta e > 0 \<or> ce_last_seq e \<le> 0 \<or> secured st u (ce_last_seq e)"
  by (simp add: cache_ok_def)

lemma cache_ok_put:
  assumes ok: "cache_ok st"
    and t: "cs_table st' = cs_table st" "set (cs_reading st') \<subseteq> set (cs_reading st)" "cs_db_client st'"
    and i: "set (cs_inflight st) \<subseteq> set (cs_inflight st')"
      "\<And>p. Reset p \<in> set (cs_inflight st') \<Longrightarrow> Reset p \<in> set (cs_inflight st)"
    and m: "map_of (cs_entries st') = (map_of (cs_entries st))(u \<mapsto> e)" "distinct_keys (cs_entries st')"
    and e: "ce_pending_delta e > 0 \<or> ce_last_seq e \<le> 0 \<or> secured st' u (ce_last_seq e)"
    and l: "\<And>f. map_of (cs_entries st) u = Some f \<Longrightarrow> ce_last_seq f \<le> ce_last_seq e"
  shows "cache_ok st' \<and> keeps st st'"
proof -
  have s: "secured st v n \<Longrightarrow> secured st' v n" for v n by (rule secured_mono [OF t(1) i(1)])
  have "ce_pending_delta f > 0 \<or> ce_last_seq f \<le> 0 \<or> secured st' v (ce_last_seq f)"
    if "map_of (cs_entries st') v = Some f" for v f
    using that e s cache_ok_entry [OF ok, of v f] m(1) by (cases "v = u") auto
  moreover have "n \<le> 0 \<or> secured st' v n" if "(v, Some n) \<in> set (cs_reading st')" for v n
  proof -
    have "(v, Some n) \<in> set (cs_reading st)" using that t(2) by blast
    then have "n \<le> 0 \<or> secured st v n" using ok by (simp add: cache_ok_def)
    with s show ?thesis by blast
  qed
  ultimately have "cache_ok st'" using ok t(3) i(2) m(2) by (auto simp: cache_ok_def)
  moreover have "keeps st st'" using s l m(1) by (auto simp: keeps_def)
  ultimately show ?thesis by simp
qed

lemma flush_if_due_cases:
  assumes "cs_db_client st"
  obtains (idle) n where "flush_if_due clk u e st = st\<lparr>cs_reads := n\<rparr>"
  | (flush) n e' where "flush_if_due clk u e st = st\<lparr>cs_reads := n, cs_entries := AList.update u e' (cs_entries st),
        cs_inflight := cs_inflight st @ [Advance \<lparr>fp_user = u, fp_seq = ce_last_seq e\<rparr>]\<rparr>"
      "ce_last_seq e' = ce_last_seq e" "ce_pending_delta e' = 0"
proof (cases "cs_ttl_ms st = 0 \<or> clk (cs_reads st) - ce_last_flush e \<ge> int (cs_ttl_ms st) * milli_ns
    \<or> ce_pending_delta e \<ge> cs_threshold st")
  case True
  then show ?thesis using assms
    by (intro flush [where n = "if cs_ttl_ms st = 0 then cs_reads st + 1 else cs_reads st + 2"
          and e' = "e\<lparr>ce_pg_persisted_seq := ce_last_seq e, ce_pending_delta := 0,
             ce_last_flush := clk (if cs_ttl_ms st = 0 then cs_reads st else cs_reads st + 1)\<rparr>"])
      (auto simp: flush_if_due_def Let_def schedule_flush_locked_def issue_def tick_def)
next
  case False
  then show ?thesis by (intro idle [where n = "cs_reads st + 1"]) (simp add: flush_if_due_def Let_def tick_def)
qed

lemma flush_if_due_ok:
  assumes ok: "cache_ok st" and e: "map_of (cs_entries st) u = Some e"
  shows "cache_ok (flush_if_due clk u e st) \<and> keeps st (flush_if_due clk u e st)"
proof -
  have db: "cs_db_client st" "distinct_keys (cs_entries st)" using ok by (simp_all add: cache_ok_def)
  from db(1) show ?thesis
  proof (cases rule: flush_if_due_cases [where clk = clk and u = u and e = e])
    case (idle n)
    show ?thesis unfolding idle
      by (rule cache_ok_put [OF ok, where u = u and e = e])
        (use e db cache_ok_entry [OF ok e] in \<open>auto simp: secured_def map_upd_triv simp del: map_of_eq_Some_iff\<close>)
  next
    case (flush n e')
    show ?thesis unfolding flush(1)
      by (rule cache_ok_put [OF ok, where u = u and e = e'])
        (use e db flush(2,3) in \<open>auto simp: secured_def simp del: map_of_eq_Some_iff\<close>)
  qed
qed

lemma keeps_trans: "keeps a b \<Longrightarrow> keeps b c \<Longrightarrow> keeps a c"
  unfolding keeps_def by (meson order_trans)

lemma record_delivered_ok:
  assumes ok: "cache_ok st"
  shows "cache_ok (record_delivered clk u n st) \<and> keeps st (record_delivered clk u n st)
     \<and> known u n (record_delivered clk u n st)"
proof (cases "map_of (cs_entries st) u")
  case None
  let ?e = "\<lparr>ce_last_seq = n, ce_pg_persisted_seq = 0, ce_last_flush = clk (cs_reads st), ce_pending_delta = 1\<rparr>"
  let ?s = "tick (st\<lparr>cs_entries := (u, ?e) # cs_entries st\<rparr>)"
  have s: "cache_ok ?s \<and> keeps st ?s"
    by (rule cache_ok_put [OF ok, where u = u and e = ?e])
      (use None ok in \<open>auto simp: cache_ok_def map_of_eq_None_iff\<close>)
  moreover have "known u n ?s" by (simp add: known_def)
  ultimately show ?thesis
    using flush_if_due_ok [of ?s u ?e clk] None keeps_trans keeps_known
    by (simp add: record_delivered_def Let_def) (metis (no_types, lifting))
next
  case (Some e)
  let ?m = "AList.delete u (cs_entries st)"
  have d: "distinct_keys ((u, f) # ?m)" for f using ok by (simp add: cache_ok_def not_in_delete)
  show ?thesis
  proof (cases "n \<le> ce_last_seq e")
    case True
    let ?s = "st\<lparr>cs_entries := (u, e) # ?m\<rparr>"
    have "cache_ok ?s \<and> keeps st ?s"
      by (rule cache_ok_put [OF ok, where u = u and e = e])
        (use Some ok d cache_ok_entry [OF ok Some] in \<open>auto simp: cache_ok_def secured_def simp del: distinct.simps\<close>)
    moreover have "known u n ?s" using True by (simp add: known_def)
    ultimately show ?thesis using Some True by (simp add: record_delivered_def Let_def)
  next
    case False
    let ?e = "e\<lparr>ce_last_seq := n, ce_pending_delta := ce_pending_delta e + 1\<rparr>"
    let ?s = "st\<lparr>cs_entries := (u, ?e) # ?m\<rparr>"
    have "cache_ok ?s \<and> keeps st ?s"
      by (rule cache_ok_put [OF ok, where u = u and e = ?e])
        (use Some ok d False in \<open>auto simp: cache_ok_def simp del: distinct.simps\<close>)
    moreover have "known u n ?s" by (simp add: known_def)
    ultimately show ?thesis
      using flush_if_due_ok [of ?s u ?e clk] Some False keeps_trans keeps_known
      by (simp add: record_delivered_def Let_def) (metis (no_types, lifting))
  qed
qed

lemma flush_all_ok:
  assumes ok: "cache_ok st"
  shows "cache_ok (flush_all_for_shutdown clk st) \<and> keeps st (flush_all_for_shutdown clk st)
     \<and> (\<forall>u e. map_of (cs_entries (flush_all_for_shutdown clk st)) u = Some e \<longrightarrow> ce_pending_delta e = 0)"
proof -
  obtain ps es m where f: "flush_pass clk (cs_reads st) (cs_entries st) = (ps, es, m)"
    by (cases "flush_pass clk (cs_reads st) (cs_entries st)")
  let ?s = "flush_all_for_shutdown clk st"
  have db: "cs_db_client st" "distinct_keys (cs_entries st)" using ok by (simp_all add: cache_ok_def)
  have s: "cs_entries ?s = es" "cs_inflight ?s = cs_inflight st @ map Advance ps" "cs_table ?s = cs_table st"
    "cs_reading ?s = cs_reading st" "cs_db_client ?s"
    using f db(1) by (simp_all add: flush_all_for_shutdown_def fold_issue)
  have d: "distinct_keys es" using flush_pass_entries(1) [OF f] db(2) by simp
  have sec: "secured st u n \<Longrightarrow> secured ?s u n" for u n by (rule secured_mono) (auto simp: s)
  have planned: "secured ?s u (ce_last_seq e)"
    if "\<lparr>fp_user = u, fp_seq = ce_last_seq e\<rparr> \<in> set ps" for u and e :: cache_entry
    using that by (force simp: secured_def s)
  have new: "ce_pending_delta e' = 0 \<and> (ce_last_seq e' \<le> 0 \<or> secured ?s u (ce_last_seq e'))"
    if "map_of es u = Some e'" for u e'
  proof -
    from flush_pass_entries(2) [OF f map_of_SomeD [OF that]] obtain e where e: "(u, e) \<in> set (cs_entries st)"
      "ce_last_seq e' = ce_last_seq e" "ce_pending_delta e' = 0"
      "ce_pending_delta e = 0 \<or> \<lparr>fp_user = u, fp_seq = ce_last_seq e\<rparr> \<in> set ps" by blast
    from e(1) db(2) have "map_of (cs_entries st) u = Some e" by simp
    from cache_ok_entry [OF ok this] e planned sec show ?thesis by (metis less_irrefl_nat)
  qed
  have old: "\<exists>e'. map_of es u = Some e' \<and> ce_last_seq e \<le> ce_last_seq e'" if "map_of (cs_entries st) u = Some e" for u e
  proof -
    have "u \<in> set (map fst es)" using that flush_pass_entries(1) [OF f] map_of_SomeD_keys by metis
    then obtain e' where e': "map_of es u = Some e'" by (metis map_of_eq_None_iff option.exhaust list.set_map)
    from flush_pass_entries(2) [OF f map_of_SomeD [OF e']] obtain e2 where
      "(u, e2) \<in> set (cs_entries st)" "ce_last_seq e' = ce_last_seq e2" by blast
    moreover have "map_of (cs_entries st) u = Some e2" using calculation(1) db(2) by simp
    ultimately show ?thesis using e' that by (metis order_refl option.inject)
  qed
  have r: "n \<le> 0 \<or> secured ?s u n" if "(u, Some n) \<in> set (cs_reading st)" for u n
  proof -
    have "n \<le> 0 \<or> secured st u n" using ok that by (simp add: cache_ok_def)
    with sec show ?thesis by blast
  qed
  have "cache_ok ?s" unfolding cache_ok_def s(1,2,4) using s(5) d new r ok by (auto simp: cache_ok_def)
  moreover have "keeps st ?s" unfolding keeps_def s(1) using sec old by blast
  ultimately show ?thesis using new s(1) by blast
qed

lemma in_without:
  "i < length xs \<Longrightarrow> x \<in> set xs \<Longrightarrow> x = xs ! i \<or> x \<in> set (take i xs @ drop (Suc i) xs)"
  by (metis Un_iff id_take_nth_drop list.set(2) insert_iff set_append)

lemma without_sub: "x \<in> set (take i xs @ drop (Suc i) xs) \<Longrightarrow> x \<in> set xs"
  using set_take_subset set_drop_subset by fastforce

lemma land_ok:
  assumes ok: "cache_ok st"
  shows "cache_ok (land True i st) \<and> keeps st (land True i st)"
proof (cases "i < length (cs_inflight st)")
  case True
  obtain p where p: "cs_inflight st ! i = Advance p"
    using ok True by (metis cache_ok_def db_stmt.exhaust nth_mem)
  have l: "cs_inflight (land True i st) = take i (cs_inflight st) @ drop (Suc i) (cs_inflight st)"
    "cs_table (land True i st) = upsert_advance p (cs_table st)" "cs_entries (land True i st) = cs_entries st"
    "cs_reading (land True i st) = cs_reading st" "cs_db_client (land True i st) = cs_db_client st"
    using True p by (simp_all add: land_def)
  have sec: "secured (land True i st) u n" if "secured st u n" for u n
    using that in_without [OF True] unfolding secured_def l p cursors.reaches_adv by (metis db_stmt.inject(1) p)
  have r: "n \<le> 0 \<or> secured (land True i st) u n" if "(u, Some n) \<in> set (cs_reading st)" for u n
  proof -
    have "n \<le> 0 \<or> secured st u n" using ok that by (simp add: cache_ok_def)
    with sec show ?thesis by blast
  qed
  have e: "ce_pending_delta e > 0 \<or> ce_last_seq e \<le> 0 \<or> secured (land True i st) u (ce_last_seq e)"
    if "map_of (cs_entries st) u = Some e" for u e using cache_ok_entry [OF ok that] sec by blast
  have "Reset q \<notin> set (take i (cs_inflight st) @ drop (Suc i) (cs_inflight st))" for q
    using ok without_sub [of "Reset q" i "cs_inflight st"] unfolding cache_ok_def by metis
  then have "cache_ok (land True i st)" unfolding cache_ok_def l(1,3-5) using ok r e by (simp add: cache_ok_def)
  moreover have "keeps st (land True i st)" unfolding keeps_def l(3) using sec by blast
  ultimately show ?thesis by simp
qed (use ok in \<open>simp add: land_def\<close>)

lemma cache_ok_same:
  assumes ok: "cache_ok st" and "cs_table st' = cs_table st" "cs_db_client st' = cs_db_client st"
    "cs_inflight st' = cs_inflight st" "cs_entries st' = cs_entries st"
    and r: "\<And>u n. (u, Some n) \<in> set (cs_reading st') \<Longrightarrow> n \<le> 0 \<or> secured st u n"
  shows "cache_ok st' \<and> keeps st st'"
proof -
  have "secured st' u n = secured st u n" for u n using assms(2,4) by (simp add: secured_def)
  with assms show ?thesis by (simp add: cache_ok_def keeps_def)
qed

lemma read_probe_ok:
  assumes ok: "cache_ok st"
  shows "cache_ok (snd (read_probe u st)) \<and> keeps st (snd (read_probe u st))"
proof (cases "map_of (cs_entries st) u")
  case None
  have "cs_db_client st" using ok by (simp add: cache_ok_def)
  moreover have "cache_ok (st\<lparr>cs_reading := cs_reading st @ [(u, None)]\<rparr>) \<and> keeps st (st\<lparr>cs_reading := cs_reading st @ [(u, None)]\<rparr>)"
    by (rule cache_ok_same [OF ok]) (use ok in \<open>auto simp: cache_ok_def\<close>)
  ultimately show ?thesis using None by (simp add: read_probe_def)
next
  case (Some e)
  let ?s = "st\<lparr>cs_entries := (u, e) # AList.delete u (cs_entries st)\<rparr>"
  have d: "distinct_keys (cs_entries ?s)" using ok by (simp add: cache_ok_def not_in_delete)
  have "cs_db_client st" using ok by (simp add: cache_ok_def)
  then have "cache_ok ?s \<and> keeps st ?s"
    by (intro cache_ok_put [OF ok, where u = u and e = e])
      (use Some d cache_ok_entry [OF ok Some] in \<open>auto simp: secured_def simp del: map_of_eq_Some_iff distinct.simps\<close>)
  then show ?thesis using Some by (simp add: read_probe_def)
qed

lemma read_select_ok:
  assumes ok: "cache_ok st"
  shows "cache_ok (read_select b i st) \<and> keeps st (read_select b i st)"
proof (rule cache_ok_same [OF ok])
  have v: "select_cursor b u (cs_table st) \<le> 0 \<or> secured st u (select_cursor b u (cs_table st))" for u
    by (auto simp: select_cursor_def secured_def cursors.reaches_def split: option.split)
  show "n \<le> 0 \<or> secured st u n" if "(u, Some n) \<in> set (cs_reading (read_select b i st))" for u n
  proof (cases "(u, Some n) \<in> set (cs_reading st)")
    case True
    then show ?thesis using ok by (simp add: cache_ok_def)
  next
    case False
    with that have "n = select_cursor b u (cs_table st)"
      by (auto simp: read_select_def split: if_splits dest!: set_update_subset_insert [THEN subsetD])
    with v show ?thesis by simp
  qed
qed (simp_all add: read_select_def)

lemma read_fill_ok:
  assumes ok: "cache_ok st"
  shows "cache_ok (snd (read_fill clk i st)) \<and> keeps st (snd (read_fill clk i st))"
proof (cases "i < length (cs_reading st) \<and> snd (cs_reading st ! i) \<noteq> None")
  case False
  then have "snd (read_fill clk i st) = st" by (auto simp: read_fill_def split: prod.split option.split)
  with ok show ?thesis by simp
next
  case True
  then obtain u n where r: "cs_reading st ! i = (u, Some n)" "i < length (cs_reading st)"
    by (cases "cs_reading st ! i") auto
  then have m: "(u, Some n) \<in> set (cs_reading st)" by (metis nth_mem)
  let ?r = "take i (cs_reading st) @ drop (Suc i) (cs_reading st)"
  have sub: "set ?r \<subseteq> set (cs_reading st)" by (rule subsetI) (rule without_sub)
  have val: "n \<le> 0 \<or> secured st u n" using ok m by (simp add: cache_ok_def)
  show ?thesis
  proof (cases "map_of (cs_entries st) u")
    case None
    let ?e = "\<lparr>ce_last_seq = n, ce_pg_persisted_seq = n, ce_last_flush = clk (cs_reads st), ce_pending_delta = 0\<rparr>"
    let ?s = "tick (st\<lparr>cs_reading := ?r, cs_entries := (u, ?e) # cs_entries st\<rparr>)"
    have d: "distinct_keys (cs_entries ?s)" "cs_db_client st"
      using ok None by (auto simp: cache_ok_def map_of_eq_None_iff)
    have "secured ?s u n = secured st u n" by (simp add: secured_def)
    then have "cache_ok ?s \<and> keeps st ?s"
      by (intro cache_ok_put [OF ok, where u = u and e = ?e]) (use d sub val None in \<open>simp_all\<close>)
    then show ?thesis using None r by (simp add: read_fill_def Let_def)
  next
    case (Some e)
    have "cache_ok (st\<lparr>cs_reading := ?r\<rparr>) \<and> keeps st (st\<lparr>cs_reading := ?r\<rparr>)"
    proof (rule cache_ok_same [OF ok])
      show "k \<le> 0 \<or> secured st v k" if "(v, Some k) \<in> set (cs_reading (st\<lparr>cs_reading := ?r\<rparr>))" for v k
        using ok subsetD [OF sub, of "(v, Some k)"] that by (simp add: cache_ok_def)
    qed simp_all
    then show ?thesis using Some r by (simp add: read_fill_def Let_def)
  qed
qed

lemma force_flush_ok:
  assumes ok: "cache_ok st"
  shows "cache_ok (force_flush_for_test clk u st) \<and> keeps st (force_flush_for_test clk u st)"
proof (cases "map_of (cs_entries st) u")
  case (Some e)
  let ?e = "e\<lparr>ce_pg_persisted_seq := ce_last_seq e, ce_pending_delta := 0, ce_last_flush := clk (cs_reads st)\<rparr>"
  let ?s = "issue (Advance \<lparr>fp_user = u, fp_seq = ce_last_seq e\<rparr>)
    (tick (st\<lparr>cs_entries := AList.update u ?e (cs_entries st)\<rparr>))"
  have d: "distinct_keys (cs_entries st)" "cs_db_client st" using ok by (auto simp: cache_ok_def)
  have "secured ?s u (ce_last_seq e)" using d(2) by (simp add: secured_def) force
  then have "cache_ok ?s \<and> keeps st ?s"
    by (intro cache_ok_put [OF ok, where u = u and e = ?e]) (use d Some in \<open>auto simp del: map_of_eq_Some_iff\<close>)
  then show ?thesis using ok Some by (simp add: force_flush_for_test_def schedule_flush_locked_def)
qed (use ok in \<open>simp add: force_flush_for_test_def\<close>)

fun cs_clean :: "cs_event \<Rightarrow> bool" where
  "cs_clean (ResetTo _ _) = False"
| "cs_clean (Land ok _) = ok"
| "cs_clean _ = True"

lemma cs_step_ok:
  assumes "cache_ok st" and "cs_clean e"
  shows "cache_ok (cs_step clk st e) \<and> keeps st (cs_step clk st e)"
  using assms
  by (cases e) (auto simp: read_probe_ok read_select_ok read_fill_ok record_delivered_ok flush_all_ok force_flush_ok land_ok)

interpretation cs_memory: invariant_step "cs_step clk" cs_clean "\<lambda>st. cache_ok st \<and> known u s st" for clk u s
  by unfold_locales (use cs_step_ok keeps_known in blast)

interpretation cs_sound: invariant_step "cs_step clk" cs_clean cache_ok for clk
  by unfold_locales (use cs_step_ok in blast)

section \<open>Properties\<close>

abbreviation cs_run :: "clock \<Rightarrow> nat \<Rightarrow> nat \<Rightarrow> (string \<times> int) list \<Rightarrow> cs_event list \<Rightarrow> cursor_store" where
  "cs_run clk ttl th tbl es \<equiv> foldl (cs_step clk) (configure ttl th (initial_cursor_store tbl)) es"

text \<open>
  C23: The stored cursor of a user is always a position the user was brought to: in any interleaving of
  reads, deliveries, resets, flushes and of statements that land or fail in any order, the value in the
  table for a user was there at the start, or was delivered to that user, or set by a reset for that user.
\<close>

theorem cursor_only_delivered:
  assumes "list_all (cs_from src) es" and "\<forall>u v. map_of tbl u = Some v \<longrightarrow> src u v"
    and "map_of (cs_table (cs_run clk ttl th tbl es)) u = Some v"
  shows "src u v"
proof -
  have "from_src src (configure ttl th (initial_cursor_store tbl))"
    using assms(2) by (simp add: from_src_def configure_def initial_cursor_store_def)
  from cs_origin.run_inv [OF this assms(1)] assms(3) show ?thesis by (simp add: from_src_def)
qed

theorem cursor_only_delivered_witness:
  "cs_table (cs_run (\<lambda>_. 0) 1000 1 [] [Deliver ''ann'' 4, Land True 0]) = [(''ann'', 4)] \<and>
   (\<lambda>u v. u = ''ann'' \<and> v = 4) ''ann'' (4::int)"
proof -
  have t: "cs_table (cs_run (\<lambda>_. 0) 1000 1 [] [Deliver ''ann'' 4, Land True 0]) = [(''ann'', 4)]" by code_simp
  show ?thesis
    using t cursor_only_delivered [of "\<lambda>u v. u = ''ann'' \<and> v = 4" "[Deliver ''ann'' 4, Land True 0]" "[]"
        "\<lambda>_. 0" 1000 1 "''ann''" 4] by simp
qed



text \<open>
  C38: A reset is not safe against an advance already under way: the advance is issued first, both
  statements are in flight, and if the reset lands first the \<^verbatim>\<open>GREATEST\<close> of the advance undoes it.
  The cache and the table then disagree, the table being ahead of the announced baseline.
\<close>

theorem reset_overtaken:
  assumes "r < s" and "th \<le> 1 \<or> ttl = 0"
    and "st = cs_run clk ttl th [] [Deliver u s, ResetTo u r, Land True 1, Land True 0]"
  shows "map_of (cs_table st) u = Some s \<and> map_option ce_last_seq (map_of (cs_entries st) u) = Some r
    \<and> cs_inflight st = []"
proof -
  let ?s1 = "cs_run clk ttl th [] [Deliver u s]"
  have "cs_inflight ?s1 = [Advance \<lparr>fp_user = u, fp_seq = s\<rparr>]" "cs_table ?s1 = []" "cs_db_client ?s1"
    "map_of (cs_entries ?s1) u \<noteq> None"
    using assms(2) by (auto simp: record_delivered_def flush_if_due_def Let_def schedule_flush_locked_def
        configure_def initial_cursor_store_def issue_def tick_def)
  then show ?thesis using assms(1,3)
    by (auto simp: reset_cursor_def Let_def land_def upsert_reset_def upsert_advance_def)
qed

theorem reset_overtaken_witness:
  "map_of (cs_table (cs_run (\<lambda>_. 0) 0 50 [] [Deliver ''ann'' 9, ResetTo ''ann'' 2, Land True 1, Land True 0])) ''ann''
     = Some 9"
  using reset_overtaken [of 2 9 50 0, OF _ _ refl] by simp

end
