(* ===== verification/Shutdown.thy ===== *)
theory Shutdown
  imports Prelude
begin

text \<open>
  The shutdown coordinator (\<^verbatim>\<open>lifecycle/shutdown_coordinator.cpp\<close>): how a sequence of shutdown steps
  is run, and the protocol by which threads run it and close the log sinks. The steps themselves, over
  the state of the kernel, are in the theory \<^verbatim>\<open>Kernel\<close>.
\<close>

section \<open>The graph\<close>

datatype hook_result = Succeeds | Fails | Throws

record shutdown_result =
  sr_clean :: bool
  sr_completed_steps :: "string list"
  sr_failed_step :: string

definition no_result :: shutdown_result where
  "no_result = \<lparr>sr_clean = True, sr_completed_steps = [], sr_failed_step = []\<rparr>"

definition run_bounded :: "string \<Rightarrow> hook_result \<Rightarrow> shutdown_result \<Rightarrow> bool \<times> shutdown_result" where
  "run_bounded name outcome res =
     (case outcome of
        Succeeds \<Rightarrow> (True, res\<lparr>sr_completed_steps := sr_completed_steps res @ [name]\<rparr>)
      | _ \<Rightarrow> (False, res\<lparr>sr_clean := False, sr_failed_step := name\<rparr>))"

text \<open>The chain of \<^verbatim>\<open>||\<close>: the first step that fails ends it. Other threads act before each step.\<close>

fun run_steps :: "(string \<Rightarrow> 'k \<Rightarrow> 'k) \<Rightarrow> (string \<times> ('k \<Rightarrow> hook_result \<times> 'k)) list \<Rightarrow> shutdown_result
    \<Rightarrow> 'k \<Rightarrow> shutdown_result \<times> 'k" where
  "run_steps others [] res k = (res, k)"
| "run_steps others ((name, step) # steps) res k =
     (case step (others name k) of
        (outcome, k1) \<Rightarrow>
          (case run_bounded name outcome res of
             (False, res1) \<Rightarrow> (res1, k1)
           | (True, res1) \<Rightarrow> run_steps others steps res1 k1))"

section \<open>The protocol\<close>

datatype coordinator_state = RUNNING | QUIESCING | QUIESCED | FAILED | FINISHING | FINISHED

text \<open>
  Where a thread is: outside, entering \<open>quiesce\<close> (called on its own or from \<open>finish_after_drogon\<close>),
  running the graph, entering \<open>finish_after_drogon\<close>, about to lock again after a clean nested
  \<open>quiesce\<close>, or closing the log sinks.
\<close>

datatype thread_pc = Outside | QuiesceEnter bool | InGraph bool | FinishEnter | Relock | InSinks

record coordinator =
  co_state :: coordinator_state
  co_last_result :: shutdown_result
  co_runs :: "shutdown_result list"
  co_sink_calls :: nat

definition initial_coordinator :: coordinator where
  "initial_coordinator = \<lparr>co_state = RUNNING, co_last_result = no_result, co_runs = [], co_sink_calls = 0\<rparr>"

definition after_quiesce :: "bool \<Rightarrow> shutdown_result \<Rightarrow> thread_pc" where
  "after_quiesce nested res = (if nested \<and> sr_clean res then Relock else Outside)"

text \<open>One step of a thread; each holds \<open>state_mu\<close> throughout. A blocked thread has no step.\<close>

inductive thread_step :: "thread_pc \<Rightarrow> coordinator \<Rightarrow> thread_pc \<Rightarrow> coordinator \<Rightarrow> bool" where
  call_quiesce: "thread_step Outside c (QuiesceEnter False) c"
| call_finish: "thread_step Outside c FinishEnter c"
| quiesce_cached: "co_state c = QUIESCED \<or> co_state c = FINISHED \<Longrightarrow>
    thread_step (QuiesceEnter n) c (after_quiesce n (co_last_result c)) c"
| quiesce_begin: "co_state c = RUNNING \<or> co_state c = FAILED \<Longrightarrow>
    thread_step (QuiesceEnter n) c (InGraph n) (c\<lparr>co_state := QUIESCING\<rparr>)"
| quiesce_end:
    "thread_step (InGraph n) c (after_quiesce n res)
       (c\<lparr>co_last_result := res, co_state := (if sr_clean res then QUIESCED else FAILED),
          co_runs := co_runs c @ [res]\<rparr>)"
| finish_done: "co_state c = FINISHED \<Longrightarrow> thread_step FinishEnter c Outside c"
| finish_nested: "co_state c = RUNNING \<or> co_state c = FAILED \<Longrightarrow>
    thread_step FinishEnter c (QuiesceEnter True) c"
| finish_begin: "co_state c = QUIESCED \<Longrightarrow>
    thread_step FinishEnter c InSinks (c\<lparr>co_state := FINISHING, co_sink_calls := co_sink_calls c + 1\<rparr>)"
| finish_relock:
    "thread_step Relock c InSinks (c\<lparr>co_state := FINISHING, co_sink_calls := co_sink_calls c + 1\<rparr>)"
| sinks_closed: "thread_step InSinks c Outside (c\<lparr>co_state := FINISHED\<rparr>)"
| sinks_throw: "thread_step InSinks c Outside (c\<lparr>co_state := QUIESCED\<rparr>)"

inductive threads_reach :: "thread_pc list \<Rightarrow> coordinator \<Rightarrow> bool" where
  reach_init: "threads_reach (replicate n Outside) initial_coordinator"
| reach_step: "threads_reach ts c \<Longrightarrow> i < length ts \<Longrightarrow> thread_step (ts ! i) c p c' \<Longrightarrow>
    threads_reach (ts[i := p]) c'"

section \<open>Runs of the graph\<close>

lemma run_steps_cases:
  assumes "run_steps others steps res0 k = (res, k')"
  shows "(sr_clean res = sr_clean res0 \<and> sr_completed_steps res = sr_completed_steps res0 @ map fst steps) \<or>
     (\<exists>n<length steps. \<not> sr_clean res \<and> sr_completed_steps res = sr_completed_steps res0 @ map fst (take n steps)
        \<and> sr_failed_step res = fst (steps ! n)
        \<and> (\<forall>rest. run_steps others (take (Suc n) steps @ rest) res0 k = (res, k')))"
  using assms
proof (induction others steps res0 k rule: run_steps.induct)
  case (2 others name step steps res0 k)
  obtain out k1 where s: "step (others name k) = (out, k1)" by (cases "step (others name k)")
  obtain b res1 where b: "run_bounded name out res0 = (b, res1)" by (cases "run_bounded name out res0")
  show ?case
  proof (cases b)
    case False
    with b have "\<not> sr_clean res1" "sr_completed_steps res1 = sr_completed_steps res0" "sr_failed_step res1 = name"
      by (auto simp: run_bounded_def split: hook_result.splits)
    with False "2.prems" s b show ?thesis by (intro disjI2 exI [of _ 0]) auto
  next
    case True
    with b have r1: "sr_clean res1 = sr_clean res0" "sr_completed_steps res1 = sr_completed_steps res0 @ [name]"
      by (auto simp: run_bounded_def split: hook_result.splits)
    have rec: "run_steps others ((name, step) # xs) res0 k = run_steps others xs res1 k1" for xs
      using True s b by simp
    from "2.prems" have "run_steps others steps res1 k1 = (res, k')" by (simp add: rec del: run_steps.simps)
    from "2.IH" [OF s [symmetric] b [symmetric] _ this] True
    consider "sr_clean res = sr_clean res1 \<and> sr_completed_steps res = sr_completed_steps res1 @ map fst steps"
      | n where "n < length steps" "\<not> sr_clean res" "sr_completed_steps res = sr_completed_steps res1 @ map fst (take n steps)"
        "sr_failed_step res = fst (steps ! n)" "\<And>rest. run_steps others (take (Suc n) steps @ rest) res1 k1 = (res, k')"
      by auto
    then show ?thesis
    proof cases
      case 1
      with r1 show ?thesis by simp
    next
      case 2
      with r1 show ?thesis by (intro disjI2 exI [of _ "Suc n"]) (simp add: rec del: run_steps.simps)
    qed
  qed
qed simp

text \<open>
  A rule for clean runs: if each step that succeeds leads from one assertion to the next, events of
  other threads included, a clean run ends in the last one.
\<close>

fun stages :: "(string \<Rightarrow> 'k \<Rightarrow> 'k) \<Rightarrow> ('k \<Rightarrow> bool) \<Rightarrow> (string \<times> ('k \<Rightarrow> hook_result \<times> 'k)) list
    \<Rightarrow> ('k \<Rightarrow> bool) list \<Rightarrow> bool" where
  "stages others P [] Qs \<longleftrightarrow> Qs = []"
| "stages others P ((nm, step) # steps) (Q # Qs) \<longleftrightarrow>
     (\<forall>k k'. P k \<longrightarrow> step (others nm k) = (Succeeds, k') \<longrightarrow> Q k') \<and> stages others Q steps Qs"
| "stages others P (s # steps) [] \<longleftrightarrow> False"

lemma clean_run_stages:
  "stages others P steps Qs \<Longrightarrow> P k \<Longrightarrow> run_steps others steps res0 k = (res, k') \<Longrightarrow> sr_clean res \<Longrightarrow>
     last (P # Qs) k'"
proof (induction others P steps Qs arbitrary: k res0 rule: stages.induct)
  case (2 others P nm step steps Q Qs)
  obtain out k1 where s: "step (others nm k) = (out, k1)" by (cases "step (others nm k)")
  show ?case
  proof (cases "out = Succeeds")
    case True
    with "2.prems" s have "Q k1" and "stages others Q steps Qs" by auto
    moreover have "run_steps others steps (res0\<lparr>sr_completed_steps := sr_completed_steps res0 @ [nm]\<rparr>) k1 = (res, k')"
      using "2.prems"(3) True s by (simp add: run_bounded_def)
    ultimately have "last (Q # Qs) k'" using "2.IH" "2.prems"(4) by blast
    then show ?thesis by simp
  next
    case False
    with "2.prems" s show ?thesis by (cases out) (auto simp: run_bounded_def)
  qed
qed simp_all

section \<open>Invariant of the protocol\<close>

fun in_graph :: "thread_pc \<Rightarrow> bool" where
  "in_graph (InGraph _) = True"
| "in_graph _ = False"

fun past_quiesce :: "thread_pc \<Rightarrow> bool" where
  "past_quiesce Relock = True"
| "past_quiesce InSinks = True"
| "past_quiesce _ = False"

lemma length_filter_update:
  "i < length xs \<Longrightarrow> length (filter P (xs[i := x])) + (if P (xs ! i) then 1 else 0) =
     length (filter P xs) + (if P x then 1 else 0)"
proof (induction xs arbitrary: i)
  case (Cons y ys)
  then show ?case by (cases i) (auto split: if_splits)
qed simp

definition ever_clean :: "coordinator \<Rightarrow> bool" where
  "ever_clean c \<longleftrightarrow> list_ex sr_clean (co_runs c)"

definition proto_ok :: "thread_pc list \<Rightarrow> coordinator \<Rightarrow> bool" where
  "proto_ok ts c \<longleftrightarrow>
     length (filter in_graph ts) = (if co_state c = QUIESCING then 1 else 0)
   \<and> (if ever_clean c
      then co_state c \<in> {QUIESCED, FINISHING, FINISHED} \<and> sr_clean (co_last_result c)
         \<and> sr_clean (last (co_runs c))
      else co_state c \<in> {RUNNING, QUIESCING, FAILED} \<and> list_all (\<lambda>p. \<not> past_quiesce p) ts
         \<and> co_sink_calls c = 0)
   \<and> list_all (\<lambda>r. \<not> sr_clean r) (butlast (co_runs c))"

lemma list_all_update: "list_all P xs \<Longrightarrow> P x \<Longrightarrow> list_all P (xs[i := x])"
  by (auto simp: list_all_iff dest!: set_update_subset_insert [THEN subsetD])

lemma thread_step_ok:
  assumes s: "thread_step p c p' c'" and ok: "proto_ok ts c" and i: "i < length ts" "ts ! i = p"
  shows "proto_ok (ts[i := p']) c'"
proof -
  note cnt = length_filter_update [OF i(1), of in_graph p', unfolded i(2)]
  have np: "past_quiesce p \<Longrightarrow> ever_clean c" using ok i by (auto simp: proto_ok_def list_all_iff split: if_splits)
  have ng: "co_state c = QUIESCING" if "in_graph p"
  proof -
    from that i have "p \<in> set (filter in_graph ts)" using nth_mem by fastforce
    then have "length (filter in_graph ts) \<noteq> 0" by (metis length_0_conv list.set(1) empty_iff)
    with ok show ?thesis by (simp add: proto_ok_def split: if_splits)
  qed
  have upd: "list_all (\<lambda>p. \<not> past_quiesce p) ts \<Longrightarrow> \<not> past_quiesce p' \<Longrightarrow>
      list_all (\<lambda>p. \<not> past_quiesce p) (ts[i := p'])" by (rule list_all_update)
  from s show ?thesis
  proof cases
    case (quiesce_cached n)
    then have "ever_clean c" using ok by (auto simp: proto_ok_def split: if_splits)
    with quiesce_cached ok cnt show ?thesis by (auto simp: proto_ok_def after_quiesce_def split: if_splits)
  next
    case (quiesce_begin n)
    then show ?thesis using ok cnt upd by (auto simp: proto_ok_def ever_clean_def split: if_splits)
  next
    case (quiesce_end n res)
    then have q: "co_state c = QUIESCING" using ng by simp
    then have nc: "\<not> ever_clean c" using ok by (auto simp: proto_ok_def split: if_splits)
    then have "list_all (\<lambda>r. \<not> sr_clean r) (co_runs c)" by (simp add: ever_clean_def list_ex_iff list_all_iff)
    with quiesce_end q nc ok cnt upd show ?thesis
      by (auto simp: proto_ok_def ever_clean_def after_quiesce_def butlast_append split: if_splits)
  next
    case finish_begin
    then show ?thesis using ok cnt by (auto simp: proto_ok_def ever_clean_def split: if_splits)
  next
    case finish_relock
    then show ?thesis using ok cnt np by (auto simp: proto_ok_def ever_clean_def split: if_splits)
  next
    case sinks_closed
    then show ?thesis using ok cnt np by (auto simp: proto_ok_def ever_clean_def split: if_splits)
  next
    case sinks_throw
    then show ?thesis using ok cnt np by (auto simp: proto_ok_def ever_clean_def split: if_splits)
  qed (use ok cnt upd in \<open>auto simp: proto_ok_def split: if_splits\<close>)
qed

lemma proto_ok_reach: "threads_reach ts c \<Longrightarrow> proto_ok ts c"
proof (induction rule: threads_reach.induct)
  case (reach_init n)
  show ?case by (simp add: proto_ok_def ever_clean_def initial_coordinator_def list_all_iff)
next
  case (reach_step ts c i p c')
  then show ?case using thread_step_ok by blast
qed

lemma reach_to:
  "threads_reach ts c \<Longrightarrow> thread_step p c p' c' \<Longrightarrow> i < length ts \<Longrightarrow> ts ! i = p \<Longrightarrow> ts' = ts[i := p'] \<Longrightarrow>
     c'' = c' \<Longrightarrow> threads_reach ts' c''"
  using reach_step by metis

text \<open>A run of two threads that both call \<open>finish_after_drogon\<close>.\<close>

lemma double_finish_run:
  "\<exists>c. threads_reach [InSinks, Outside] c \<and> co_sink_calls c = 2 \<and> co_state c = FINISHING \<and> co_runs c = [no_result]"
proof -
  let ?c0 = initial_coordinator
  let ?c1 = "?c0\<lparr>co_state := QUIESCING\<rparr>"
  let ?c2 = "?c1\<lparr>co_last_result := no_result, co_state := QUIESCED, co_runs := [no_result]\<rparr>"
  let ?c3 = "?c2\<lparr>co_state := FINISHING, co_sink_calls := 1\<rparr>"
  let ?c4 = "?c3\<lparr>co_state := FINISHED\<rparr>"
  have "threads_reach [Outside, Outside] ?c0" using reach_init [of 2] by (simp add: numeral_2_eq_2)
  then have "threads_reach [FinishEnter, Outside] ?c0" by (rule reach_to [where i = 0, OF _ call_finish]) simp_all
  then have "threads_reach [QuiesceEnter True, Outside] ?c0"
    by (rule reach_to [where i = 0, OF _ finish_nested]) (simp_all add: initial_coordinator_def)
  then have "threads_reach [InGraph True, Outside] ?c1"
    by (rule reach_to [where i = 0, OF _ quiesce_begin]) (simp_all add: initial_coordinator_def)
  then have "threads_reach [Relock, Outside] ?c2"
    by (rule reach_to [where i = 0, OF _ quiesce_end [where res = no_result]])
      (simp_all add: after_quiesce_def no_result_def initial_coordinator_def)
  then have "threads_reach [Relock, FinishEnter] ?c2" by (rule reach_to [where i = 1, OF _ call_finish]) simp_all
  then have "threads_reach [Relock, InSinks] ?c3"
    by (rule reach_to [where i = 1, OF _ finish_begin]) (simp_all add: initial_coordinator_def)
  then have "threads_reach [Relock, Outside] ?c4" by (rule reach_to [where i = 1, OF _ sinks_closed]) simp_all
  then have "threads_reach [InSinks, Outside] (?c4\<lparr>co_state := FINISHING, co_sink_calls := co_sink_calls ?c4 + 1\<rparr>)"
    by (rule reach_to [where i = 0, OF _ finish_relock]) simp_all
  then show ?thesis by (intro exI conjI) (assumption, simp_all add: initial_coordinator_def)
qed

section \<open>Properties\<close>

text \<open>
  The graph fails closed: the steps completed are a prefix of the graph in its order, the failed
  step is the next one, and the outcome does not depend on the steps after it, which have not run.
\<close>

theorem graph_fails_closed:
  assumes "run_steps others steps no_result k = (res, k')"
  shows "(sr_clean res \<and> sr_completed_steps res = map fst steps) \<or>
     (\<exists>n<length steps. \<not> sr_clean res \<and> sr_completed_steps res = map fst (take n steps)
        \<and> sr_failed_step res = fst (steps ! n)
        \<and> (\<forall>rest. run_steps others (take (Suc n) steps @ rest) no_result k = (res, k')))"
  using run_steps_cases [OF assms] by (simp add: no_result_def)

definition demo_steps :: "(string \<times> (nat \<Rightarrow> hook_result \<times> nat)) list" where
  "demo_steps = [(''a'', \<lambda>n. (Succeeds, n + 1)), (''b'', \<lambda>n. (Throws, n)), (''c'', \<lambda>n. (Succeeds, n + 5))]"

theorem graph_fails_closed_witness:
  "sr_failed_step (fst (run_steps (\<lambda>_ k. k) demo_steps no_result (0::nat))) = ''b''
   \<and> (\<exists>n<3. sr_failed_step (fst (run_steps (\<lambda>_ k. k) demo_steps no_result (0::nat))) = fst (demo_steps ! n))"
proof -
  have f: "sr_failed_step (fst (run_steps (\<lambda>_ k. k) demo_steps no_result (0::nat))) = ''b''"
    "\<not> sr_clean (fst (run_steps (\<lambda>_ k. k) demo_steps no_result (0::nat)))" by code_simp+
  have "length demo_steps = 3" by (simp add: demo_steps_def)
  with graph_fails_closed [OF surjective_pairing, of "\<lambda>_ k. k" demo_steps "0::nat"] f show ?thesis by metis
qed

text \<open>
  C22: In every interleaving of threads that call \<open>quiesce\<close> and \<open>finish_after_drogon\<close>, at most one runs
  the graph, the graph is not run again once it was clean, and the log sinks are closed only after a
  clean run and while no thread is in the graph.
\<close>

theorem shutdown_protocol_safe:
  assumes "threads_reach ts c"
  shows "length (filter in_graph ts) \<le> 1 \<and> list_all (\<lambda>r. \<not> sr_clean r) (butlast (co_runs c))
    \<and> (co_sink_calls c = 0 \<or> (co_runs c \<noteq> [] \<and> sr_clean (last (co_runs c)) \<and> filter in_graph ts = []))"
  using proto_ok_reach [OF assms]
  by (auto simp: proto_ok_def ever_clean_def split: if_splits)

theorem shutdown_protocol_safe_witness:
  "\<exists>c. threads_reach [InSinks, Outside] c \<and> co_runs c = [no_result] \<and> sr_clean (last (co_runs c))"
proof -
  obtain c where c: "threads_reach [InSinks, Outside] c" "co_sink_calls c = 2" "co_runs c = [no_result]"
    using double_finish_run by blast
  from shutdown_protocol_safe [OF c(1)] c(2) have "sr_clean (last (co_runs c))" by simp
  with c show ?thesis by blast
qed


end
