(* ===== verification/Connection_Registry.thy ===== *)
theory Connection_Registry
  imports Prelude
begin

text \<open>
  The registry of authenticated WebSocket connections (\<^verbatim>\<open>ws/connection_registry.cpp\<close>).

  Connections, connection states, event loops and promises are numbers; \<open>None\<close> is a null pointer. A
  connection state keeps the fields the registry touches. An event loop is a queue of tasks: every
  task handed over by \<^verbatim>\<open>queueInLoop\<close> is in \<open>cr_queue\<close> with its loop, and a loop runs its own
  oldest task. A fulfilled promise is in \<open>cr_done\<close>, with whether it carries an exception. The
  connections on which a close was started are recorded in \<open>cr_closed\<close>, the owners dropped by a
  release in \<open>cr_dropped\<close>, the timers invalidated in \<open>cr_invalidated\<close>; these only grow and nothing
  reads them.

  The operations that wait for loops take the list of events that happen while they wait. Since a
  promise once fulfilled stays fulfilled, looking at all of them when the operation returns gives the
  answer of waiting for them one by one.
\<close>

record conn_state =
  st_loop :: "nat option"
  st_authority_stopped :: bool
  st_authority_until_ms :: int
  st_replay_abort_flag :: "bool option"
  st_authority_timer :: "nat option"
  st_auth_timer :: "nat option"
  st_heartbeat_timer :: "nat option"

type_synonym registry_key = "string \<times> string"

record registry_entry =
  re_conn :: "nat option"
  re_state :: "nat option"
  re_loop :: "nat option"

definition empty_entry :: registry_entry where
  "empty_entry = \<lparr>re_conn = None, re_state = None, re_loop = None\<rparr>"

datatype loop_task =
    ReleaseTask registry_entry nat
  | CloseTask registry_entry nat
  | CancelTask nat nat

record conn_registry =
  cr_shutdown_pending :: bool
  cr_sealed :: bool
  cr_close_started :: bool
  cr_close_enqueue_failure :: bool
  cr_closes :: "nat list"
  cr_releases :: "nat list"
  cr_conns :: "(registry_key \<times> registry_entry) list"
  cr_states :: "(nat \<times> conn_state) list"
  cr_queue :: "(nat \<times> loop_task) list"
  cr_done :: "(nat \<times> bool) list"
  cr_next_promise :: nat
  cr_closed :: "nat list"
  cr_dropped :: "registry_entry list"
  cr_invalidated :: "(nat \<times> nat) list"

definition initial_conn_registry :: conn_registry where
  "initial_conn_registry =
     \<lparr>cr_shutdown_pending = False, cr_sealed = False, cr_close_started = False,
      cr_close_enqueue_failure = False, cr_closes = [], cr_releases = [], cr_conns = [], cr_states = [],
      cr_queue = [], cr_done = [], cr_next_promise = 0, cr_closed = [], cr_dropped = [], cr_invalidated = []\<rparr>"

section \<open>Admission\<close>

definition register_connection ::
  "registry_key \<Rightarrow> nat \<Rightarrow> nat option \<Rightarrow> conn_registry \<Rightarrow> registry_entry \<times> conn_registry" where
  "register_connection key conn state r =
     (if cr_shutdown_pending r then (empty_entry, r)
      else if cr_sealed r then (empty_entry, r)
      else let lp = (case state of None \<Rightarrow> None | Some s \<Rightarrow>
                      (case map_of (cr_states r) s of None \<Rightarrow> None | Some cs \<Rightarrow> st_loop cs));
               entry = \<lparr>re_conn = Some conn, re_state = state, re_loop = lp\<rparr>
           in (case map_of (cr_conns r) key of Some old \<Rightarrow> old | None \<Rightarrow> empty_entry,
               r\<lparr>cr_conns := AList.update key entry (cr_conns r)\<rparr>))"

definition unregister_connection :: "registry_key \<Rightarrow> nat \<Rightarrow> conn_registry \<Rightarrow> conn_registry" where
  "unregister_connection key conn r =
     (if cr_shutdown_pending r then r
      else case map_of (cr_conns r) key of
             Some e \<Rightarrow> if re_conn e = Some conn then r\<lparr>cr_conns := AList.delete key (cr_conns r)\<rparr> else r
           | None \<Rightarrow> r)"

text \<open>\<open>for_each\<close> and \<open>snapshot_entries\<close>: what the callback sees, in order.\<close>

definition for_each :: "conn_registry \<Rightarrow> nat option list" where
  "for_each r = (if cr_shutdown_pending r then [] else map (re_conn \<circ> snd) (cr_conns r))"

definition snapshot_entries :: "conn_registry \<Rightarrow> registry_entry list" where
  "snapshot_entries r = (if cr_shutdown_pending r then [] else map snd (cr_conns r))"

definition registry_size :: "conn_registry \<Rightarrow> nat" where
  "registry_size r = (if cr_shutdown_pending r then 0 else length (cr_conns r))"

definition initiate_shutdown :: "conn_registry \<Rightarrow> conn_registry" where
  "initiate_shutdown r = r\<lparr>cr_shutdown_pending := True, cr_sealed := True\<rparr>"

section \<open>The event loops\<close>

definition invalidate :: "nat option \<Rightarrow> nat option \<Rightarrow> conn_registry \<Rightarrow> conn_registry" where
  "invalidate lp timer r =
     (case (lp, timer) of
        (Some l, Some t) \<Rightarrow> r\<lparr>cr_invalidated := cr_invalidated r @ [(l, t)]\<rparr>
      | _ \<Rightarrow> r)"

text \<open>
  The body of the callback of \<open>cancel_all_timers\<close>. The authority timer is invalidated without a test
  of the loop pointer; the callback only exists for a state whose loop is not null.
\<close>

definition cancel_state :: "conn_state \<Rightarrow> conn_state" where
  "cancel_state cs =
     cs\<lparr>st_authority_stopped := True, st_authority_until_ms := 0,
        st_replay_abort_flag := map_option (\<lambda>_. True) (st_replay_abort_flag cs),
        st_authority_timer := None,
        st_auth_timer := (if st_loop cs = None then st_auth_timer cs else None),
        st_heartbeat_timer := (if st_loop cs = None then st_heartbeat_timer cs else None)\<rparr>"

definition cancel_callback :: "nat \<Rightarrow> conn_registry \<Rightarrow> conn_registry" where
  "cancel_callback s r =
     (case map_of (cr_states r) s of
        None \<Rightarrow> r
      | Some cs \<Rightarrow>
          let r1 = invalidate (st_loop cs) (st_heartbeat_timer cs)
                     (invalidate (st_loop cs) (st_auth_timer cs)
                       (invalidate (st_loop cs) (st_authority_timer cs) r))
          in r1\<lparr>cr_states := AList.update s (cancel_state cs) (cr_states r)\<rparr>)"

text \<open>
  Drogon's side of a close: whether a connection is still open, and whether its \<open>shutdown\<close> throws.
  \<open>wx_enqueue\<close> says whether the n-th \<^verbatim>\<open>queueInLoop\<close> of the close batch is accepted.
\<close>

record ws_env =
  wx_connected :: "nat \<Rightarrow> bool"
  wx_throws :: "nat \<Rightarrow> bool"
  wx_enqueue :: "nat \<Rightarrow> bool"

fun run_task :: "ws_env \<Rightarrow> loop_task \<Rightarrow> conn_registry \<Rightarrow> conn_registry" where
  "run_task ev (ReleaseTask e p) r =
     r\<lparr>cr_dropped := cr_dropped r @ [e], cr_done := cr_done r @ [(p, False)]\<rparr>"
| "run_task ev (CloseTask e p) r =
     (case re_conn e of
        Some c \<Rightarrow>
          if wx_connected ev c
          then r\<lparr>cr_closed := cr_closed r @ [c], cr_done := cr_done r @ [(p, wx_throws ev c)]\<rparr>
          else r\<lparr>cr_done := cr_done r @ [(p, False)]\<rparr>
      | None \<Rightarrow> r\<lparr>cr_done := cr_done r @ [(p, False)]\<rparr>)"
| "run_task ev (CancelTask s p) r =
     (let r1 = cancel_callback s r in r1\<lparr>cr_done := cr_done r1 @ [(p, False)]\<rparr>)"

fun take_task :: "nat \<Rightarrow> (nat \<times> loop_task) list \<Rightarrow> (loop_task \<times> (nat \<times> loop_task) list) option" where
  "take_task l [] = None"
| "take_task l ((l', t) # q) =
     (if l' = l then Some (t, q)
      else case take_task l q of None \<Rightarrow> None | Some (t', q') \<Rightarrow> Some (t', (l', t) # q'))"

definition run_loop :: "ws_env \<Rightarrow> nat \<Rightarrow> conn_registry \<Rightarrow> conn_registry" where
  "run_loop ev l r =
     (case take_task l (cr_queue r) of
        None \<Rightarrow> r
      | Some (t, q) \<Rightarrow> run_task ev t (r\<lparr>cr_queue := q\<rparr>))"

datatype reg_event =
    Accept nat conn_state
  | Register registry_key nat "nat option"
  | Unregister registry_key nat
  | Run nat

fun reg_step :: "ws_env \<Rightarrow> conn_registry \<Rightarrow> reg_event \<Rightarrow> conn_registry" where
  "reg_step ev r (Accept s cs) = 
     (if map_of (cr_states r) s = None then r\<lparr>cr_states := AList.update s cs (cr_states r)\<rparr> else r)"
| "reg_step ev r (Register key conn state) = snd (register_connection key conn state r)"
| "reg_step ev r (Unregister key conn) = unregister_connection key conn r"
| "reg_step ev r (Run l) = run_loop ev l r"

section \<open>Shutdown\<close>

text \<open>Queueing one task per entry: the promise is recorded first, as in the code.\<close>

fun queue_releases :: "(registry_key \<times> registry_entry) list \<Rightarrow> conn_registry \<Rightarrow> conn_registry" where
  "queue_releases [] r = r"
| "queue_releases ((k, e) # es) r =
     (let p = cr_next_promise r
      in queue_releases es
           (r\<lparr>cr_next_promise := p + 1, cr_releases := cr_releases r @ [p],
              cr_queue := cr_queue r @ [(the (re_loop e), ReleaseTask e p)]\<rparr>))"

definition release_begin :: "conn_registry \<Rightarrow> nat list option \<times> conn_registry" where
  "release_begin r =
     (let r1 = r\<lparr>cr_sealed := True\<rparr>
      in if list_ex (\<lambda>ke. re_loop (snd ke) = None) (cr_conns r1) then (None, r1)
         else let r2 = (queue_releases (cr_conns r1) r1)\<lparr>cr_conns := []\<rparr>
              in (Some (cr_releases r2), r2))"

definition all_ready :: "nat list \<Rightarrow> conn_registry \<Rightarrow> bool" where
  "all_ready ps r = list_all (\<lambda>p. map_of (cr_done r) p \<noteq> None) ps"

definition release_connections ::
  "ws_env \<Rightarrow> reg_event list \<Rightarrow> conn_registry \<Rightarrow> bool \<times> conn_registry" where
  "release_connections ev during r =
     (case release_begin r of
        (None, r1) \<Rightarrow> (False, r1)
      | (Some pending, r1) \<Rightarrow>
          let r2 = foldl (reg_step ev) r1 during in (all_ready pending r2, r2))"

text \<open>\<open>cancel_all_timers\<close>: one state at a time, with the events during each wait.\<close>

fun cancel_loop :: "ws_env \<Rightarrow> reg_event list list \<Rightarrow> nat list \<Rightarrow> conn_registry \<Rightarrow> bool \<times> conn_registry" where
  "cancel_loop ev during [] r = (True, r)"
| "cancel_loop ev during (s # ss) r =
     (case map_of (cr_states r) s of
        None \<Rightarrow> cancel_loop ev during ss r
      | Some cs \<Rightarrow>
          (case st_loop cs of
             None \<Rightarrow> cancel_loop ev during ss r
           | Some l \<Rightarrow>
               let p = cr_next_promise r;
                   r1 = r\<lparr>cr_next_promise := p + 1, cr_queue := cr_queue r @ [(l, CancelTask s p)]\<rparr>;
                   r2 = foldl (reg_step ev) r1 (case during of [] \<Rightarrow> [] | d # _ \<Rightarrow> d)
               in if map_of (cr_done r2) p = None then (False, r2)
                  else cancel_loop ev (tl during) ss r2))"

definition cancel_all_timers ::
  "ws_env \<Rightarrow> reg_event list list \<Rightarrow> conn_registry \<Rightarrow> bool \<times> conn_registry" where
  "cancel_all_timers ev during r =
     cancel_loop ev during (List.map_filter (re_state \<circ> snd) (cr_conns r)) r"

text \<open>
  \<open>close_all_connections\<close>. A rejected \<^verbatim>\<open>queueInLoop\<close> stops the batch after its promise was
  recorded, and stays recorded itself. The outcome is a boolean or an exception (\<open>None\<close>).
\<close>

fun queue_closes :: "ws_env \<Rightarrow> nat \<Rightarrow> (registry_key \<times> registry_entry) list \<Rightarrow> conn_registry \<Rightarrow> conn_registry" where
  "queue_closes ev n [] r = r"
| "queue_closes ev n ((k, e) # es) r =
     (let p = cr_next_promise r;
          r1 = r\<lparr>cr_next_promise := p + 1, cr_closes := cr_closes r @ [p]\<rparr>
      in if wx_enqueue ev n
         then queue_closes ev (n + 1) es
                (r1\<lparr>cr_queue := cr_queue r1 @ [(the (re_loop e), CloseTask e p)]\<rparr>)
         else r1\<lparr>cr_close_enqueue_failure := True\<rparr>)"

definition close_begin :: "ws_env \<Rightarrow> conn_registry \<Rightarrow> bool \<times> conn_registry" where
  "close_begin ev r =
     (let r1 = r\<lparr>cr_sealed := True\<rparr>
      in if cr_close_started r1 then (True, r1)
         else if list_ex (\<lambda>ke. re_loop (snd ke) = None) (cr_conns r1) then (False, r1)
         else (True, queue_closes ev 0 (cr_conns r1) (r1\<lparr>cr_close_started := True\<rparr>)))"

fun close_wait :: "nat list \<Rightarrow> conn_registry \<Rightarrow> bool option" where
  "close_wait [] r = Some True"
| "close_wait (p # ps) r =
     (case map_of (cr_done r) p of
        None \<Rightarrow> Some False
      | Some failed \<Rightarrow> if failed then None else close_wait ps r)"

definition close_all_connections ::
  "ws_env \<Rightarrow> reg_event list \<Rightarrow> conn_registry \<Rightarrow> bool option \<times> conn_registry" where
  "close_all_connections ev during r =
     (case close_begin ev r of
        (False, r1) \<Rightarrow> (Some False, r1)
      | (True, r1) \<Rightarrow>
          if cr_close_enqueue_failure r1 then (None, r1)
          else let r2 = foldl (reg_step ev) r1 during in (close_wait (cr_closes r1) r2, r2))"

section \<open>Runs\<close>

datatype registry_op =
    Basic reg_event
  | InitiateShutdown
  | Release "reg_event list"
  | CancelTimers "reg_event list list"
  | CloseAll "reg_event list"

fun op_step :: "ws_env \<Rightarrow> conn_registry \<Rightarrow> registry_op \<Rightarrow> conn_registry" where
  "op_step ev r (Basic e) = reg_step ev r e"
| "op_step ev r InitiateShutdown = initiate_shutdown r"
| "op_step ev r (Release during) = snd (release_connections ev during r)"
| "op_step ev r (CancelTimers during) = snd (cancel_all_timers ev during r)"
| "op_step ev r (CloseAll during) = snd (close_all_connections ev during r)"

section \<open>Promises\<close>

fun promise_of :: "loop_task \<Rightarrow> nat" where
  "promise_of (ReleaseTask _ p) = p"
| "promise_of (CloseTask _ p) = p"
| "promise_of (CancelTask _ p) = p"

lemma take_task_Some:
  "take_task l q = Some (t, q') \<Longrightarrow> \<exists>a b. q = a @ (l, t) # b \<and> q' = a @ b"
proof (induction l q arbitrary: q' rule: take_task.induct)
  case (2 l l' u q)
  show ?case
  proof (cases "l' = l")
    case True
    with "2.prems" show ?thesis by (intro exI [of _ "[]"] exI [of _ q]) simp
  next
    case False
    with "2.prems" obtain q1 where q1: "take_task l q = Some (t, q1)" "q' = (l', u) # q1"
      by (auto split: option.splits)
    from "2.IH" [OF False q1(1)] obtain a b where "q = a @ (l, t) # b" "q1 = a @ b" by blast
    with q1(2) show ?thesis by (intro exI [of _ "(l', u) # a"] exI [of _ b]) simp
  qed
qed simp

definition timers_of :: "conn_state \<Rightarrow> (nat \<times> nat) list" where
  "timers_of cs = (case st_loop cs of None \<Rightarrow> [] | Some l \<Rightarrow> map (Pair l)
     (List.map_filter id [st_authority_timer cs, st_auth_timer cs, st_heartbeat_timer cs]))"

lemma cancel_callback_eq:
  "cancel_callback s r =
     (case map_of (cr_states r) s of
        None \<Rightarrow> r
      | Some cs \<Rightarrow> r\<lparr>cr_invalidated := cr_invalidated r @ timers_of cs,
                     cr_states := AList.update s (cancel_state cs) (cr_states r)\<rparr>)"
  by (auto simp: cancel_callback_def invalidate_def timers_of_def List.map_filter_simps Let_def split: option.split)

lemma cancel_callback_frame:
  "\<exists>tm ss. cancel_callback s r = r\<lparr>cr_invalidated := cr_invalidated r @ tm, cr_states := ss\<rparr>"
proof (cases "map_of (cr_states r) s")
  case None
  then show ?thesis by (intro exI [of _ "[]"] exI [of _ "cr_states r"]) (simp add: cancel_callback_eq)
next
  case (Some cs)
  then show ?thesis unfolding cancel_callback_eq by auto
qed

lemma run_task_frame:
  "\<exists>tm ss cl dr f. run_task ev t r = r\<lparr>cr_invalidated := cr_invalidated r @ tm, cr_states := ss, cr_closed := cr_closed r @ cl,
     cr_dropped := cr_dropped r @ dr, cr_done := cr_done r @ [(promise_of t, f)]\<rparr>"
proof (cases t)
  case (ReleaseTask e p)
  then have "run_task ev t r = r\<lparr>cr_invalidated := cr_invalidated r @ [], cr_states := cr_states r, cr_closed := cr_closed r @ [],
     cr_dropped := cr_dropped r @ [e], cr_done := cr_done r @ [(promise_of t, False)]\<rparr>" by simp
  then show ?thesis by blast
next
  case (CloseTask e p)
  let ?cl = "case re_conn e of Some c \<Rightarrow> if wx_connected ev c then [c] else [] | None \<Rightarrow> []"
  let ?f = "case re_conn e of Some c \<Rightarrow> wx_connected ev c \<and> wx_throws ev c | None \<Rightarrow> False"
  from CloseTask have "run_task ev t r = r\<lparr>cr_invalidated := cr_invalidated r @ [], cr_states := cr_states r,
     cr_closed := cr_closed r @ ?cl, cr_dropped := cr_dropped r @ [],
     cr_done := cr_done r @ [(promise_of t, ?f)]\<rparr>" by (simp split: option.split)
  then show ?thesis by blast
next
  case (CancelTask s p)
  from cancel_callback_frame [of s r] obtain tm ss where "cancel_callback s r = r\<lparr>cr_invalidated := cr_invalidated r @ tm, cr_states := ss\<rparr>"
    by blast
  with CancelTask have "run_task ev t r = r\<lparr>cr_invalidated := cr_invalidated r @ tm, cr_states := ss, cr_closed := cr_closed r @ [],
     cr_dropped := cr_dropped r @ [], cr_done := cr_done r @ [(promise_of t, False)]\<rparr>" by (simp add: Let_def)
  then show ?thesis by blast
qed

lemma run_loop_cases:
  obtains (idle) "run_loop ev l r = r"
  | (ran) a t b where "cr_queue r = a @ (l, t) # b" "run_loop ev l r = run_task ev t (r\<lparr>cr_queue := a @ b\<rparr>)"
proof (cases "take_task l (cr_queue r)")
  case None
  then show ?thesis by (intro idle) (simp add: run_loop_def)
next
  case (Some tq)
  then obtain t q where tq: "take_task l (cr_queue r) = Some (t, q)" by (cases tq) simp
  from take_task_Some [OF this] obtain a b where "cr_queue r = a @ (l, t) # b" "q = a @ b" by blast
  with tq show ?thesis by (intro ran) (simp_all add: run_loop_def)
qed

text \<open>
  A task and its promise: what the task establishes holds, or the promise is still open and only that
  task can fulfil it.
\<close>

definition is_done :: "nat \<Rightarrow> conn_registry \<Rightarrow> bool" where
  "is_done p r \<longleftrightarrow> map_of (cr_done r) p \<noteq> None"

definition serving :: "loop_task \<Rightarrow> (conn_registry \<Rightarrow> bool) \<Rightarrow> (conn_registry \<Rightarrow> bool) \<Rightarrow> conn_registry \<Rightarrow> bool" where
  "serving t pre G r \<longleftrightarrow> pre r \<and> (G r \<or> (\<not> is_done (promise_of t) r \<and>
     list_all (\<lambda>lt. promise_of (snd lt) = promise_of t \<longrightarrow> snd lt = t) (cr_queue r)))"

locale promised =
  fixes ev :: ws_env and t :: loop_task and pre G :: "conn_registry \<Rightarrow> bool"
  assumes pre_keep: "pre r \<Longrightarrow> pre (reg_step ev r e)"
    and pre_queue: "pre r \<Longrightarrow> pre (r\<lparr>cr_queue := q\<rparr>)"
    and keep: "G r \<Longrightarrow> G (reg_step ev r e)"
    and fulfil: "pre r \<Longrightarrow> G (run_task ev t r)"
begin

lemma serving_step:
  assumes s: "serving t pre G r"
  shows "serving t pre G (reg_step ev r e)"
proof (cases "G r")
  case True
  then show ?thesis using keep pre_keep s by (simp add: serving_def)
next
  case False
  with s have n: "\<not> is_done (promise_of t) r" and p: "pre r"
    and q: "list_all (\<lambda>lt. promise_of (snd lt) = promise_of t \<longrightarrow> snd lt = t) (cr_queue r)"
    by (simp_all add: serving_def)
  show ?thesis
  proof (cases e)
    case (Run l)
    show ?thesis
    proof (cases rule: run_loop_cases [of ev l r])
      case idle
      with s Run show ?thesis by simp
    next
      case (ran a u b)
      show ?thesis
      proof (cases "promise_of u = promise_of t")
        case True
        with q ran(1) have "u = t" by simp
        with ran(2) Run fulfil [OF pre_queue [OF p]] pre_keep [OF p, of e] show ?thesis
          by (simp add: serving_def)
      next
        case False
        from run_task_frame [of ev u "r\<lparr>cr_queue := a @ b\<rparr>"] obtain f where
          "cr_done (run_loop ev l r) = cr_done r @ [(promise_of u, f)]" "cr_queue (run_loop ev l r) = a @ b"
          using ran(2) by auto
        with False n q ran(1) Run pre_keep [OF p, of e] show ?thesis
          by (auto simp: serving_def is_done_def map_add_def)
      qed
    qed
  qed (use n q pre_keep [OF p, of e] in \<open>auto simp: serving_def is_done_def register_connection_def
      unregister_connection_def Let_def split: option.split\<close>)
qed

lemma serving_run: "serving t pre G r \<Longrightarrow> serving t pre G (foldl (reg_step ev) r es)"
  by (induction es arbitrary: r) (auto intro: serving_step)

lemma served: "serving t pre G r \<Longrightarrow> is_done (promise_of t) r \<Longrightarrow> G r"
  by (simp add: serving_def)

lemma kept_run: "G r \<Longrightarrow> G (foldl (reg_step ev) r es)"
  by (induction es arbitrary: r) (auto intro: keep)

end

lemma reg_step_grows_all:
  "set (cr_dropped r) \<subseteq> set (cr_dropped (reg_step ev r e))
   \<and> set (cr_closed r) \<subseteq> set (cr_closed (reg_step ev r e))
   \<and> set (cr_invalidated r) \<subseteq> set (cr_invalidated (reg_step ev r e))"
proof (cases e)
  case (Run l)
  show ?thesis
  proof (cases rule: run_loop_cases [of ev l r])
    case (ran a t b)
    with run_task_frame [of ev t "r\<lparr>cr_queue := a @ b\<rparr>"] Run show ?thesis by auto
  qed (use Run in simp)
qed (auto simp: register_connection_def unregister_connection_def Let_def split: option.split)

lemma reg_step_grows:
  "x \<in> set (cr_dropped r) \<Longrightarrow> x \<in> set (cr_dropped (reg_step ev r e))"
  "c \<in> set (cr_closed r) \<Longrightarrow> c \<in> set (cr_closed (reg_step ev r e))"
  using reg_step_grows_all [of r ev e] by blast+

definition dropped :: "registry_entry \<Rightarrow> conn_registry \<Rightarrow> bool" where
  "dropped e r \<longleftrightarrow> e \<in> set (cr_dropped r)"

interpretation releasing: promised ev "ReleaseTask e p" "\<lambda>_. True" "dropped e" for ev e p
  by unfold_locales (simp_all add: dropped_def reg_step_grows del: reg_step.simps)

definition close_asked :: "ws_env \<Rightarrow> registry_entry \<Rightarrow> conn_registry \<Rightarrow> bool" where
  "close_asked ev e r \<longleftrightarrow>
     (case re_conn e of None \<Rightarrow> True | Some c \<Rightarrow> wx_connected ev c \<longrightarrow> c \<in> set (cr_closed r))"

interpretation closing: promised ev "CloseTask e p" "\<lambda>_. True" "close_asked ev e" for ev e p
  by unfold_locales (simp_all add: close_asked_def reg_step_grows del: reg_step.simps split: option.splits)

text \<open>A cancelled state: the lease is revoked, and the timers it had have been invalidated.\<close>

definition cancelled :: "nat \<Rightarrow> conn_state \<Rightarrow> conn_registry \<Rightarrow> bool" where
  "cancelled s cs0 r \<longleftrightarrow> set (timers_of cs0) \<subseteq> set (cr_invalidated r) \<and>
     (case map_of (cr_states r) s of
        None \<Rightarrow> False
      | Some cs \<Rightarrow> st_authority_stopped cs \<and> st_authority_until_ms cs = 0 \<and>
          st_replay_abort_flag cs \<noteq> Some False \<and> timers_of cs = [])"

definition cancellable :: "nat \<Rightarrow> conn_state \<Rightarrow> conn_registry \<Rightarrow> bool" where
  "cancellable s cs0 r \<longleftrightarrow> (case map_of (cr_states r) s of
     None \<Rightarrow> False
   | Some cs \<Rightarrow> timers_of cs = timers_of cs0 \<or> set (timers_of cs0) \<subseteq> set (cr_invalidated r))"

lemma timers_of_cancel_state [simp]: "timers_of (cancel_state cs) = []"
  by (auto simp: timers_of_def cancel_state_def List.map_filter_simps split: option.split)

lemma cancel_state_simps [simp]:
  "st_authority_stopped (cancel_state cs)" "st_authority_until_ms (cancel_state cs) = 0"
  "st_replay_abort_flag (cancel_state cs) \<noteq> Some False"
  by (auto simp: cancel_state_def)

lemma cancel_run: "cancellable s cs0 r \<Longrightarrow> cancelled s cs0 (run_task ev (CancelTask s p) r)"
  by (auto simp: cancellable_def cancelled_def Let_def cancel_callback_eq split: option.splits)

lemma cancelled_run: "cancelled s cs0 r \<Longrightarrow> cancelled s cs0 (run_task ev t r)"
  by (cases t) (auto simp: cancelled_def Let_def cancel_callback_eq split: option.splits if_splits)

lemma cancellable_run: "cancellable s cs0 r \<Longrightarrow> cancellable s cs0 (run_task ev t r)"
  by (cases t) (auto simp: cancellable_def Let_def cancel_callback_eq split: option.splits if_splits)

lemma cancel_stable:
  "cancelled s cs0 r \<Longrightarrow> cancelled s cs0 (reg_step ev r e)"
  "cancellable s cs0 r \<Longrightarrow> cancellable s cs0 (reg_step ev r e)"
proof -
  have q: "cancelled s cs0 (r\<lparr>cr_queue := q\<rparr>) = cancelled s cs0 r"
    "cancellable s cs0 (r\<lparr>cr_queue := q\<rparr>) = cancellable s cs0 r" for q
    by (simp_all add: cancelled_def cancellable_def split: option.split)
  show "cancelled s cs0 r \<Longrightarrow> cancelled s cs0 (reg_step ev r e)"
  proof (cases e)
    case (Run l)
    assume "cancelled s cs0 r"
    with Run q show ?thesis by (cases rule: run_loop_cases [of ev l r]) (simp_all add: cancelled_run)
  qed (auto simp: cancelled_def register_connection_def unregister_connection_def Let_def split: option.splits)
  show "cancellable s cs0 r \<Longrightarrow> cancellable s cs0 (reg_step ev r e)"
  proof (cases e)
    case (Run l)
    assume "cancellable s cs0 r"
    with Run q show ?thesis by (cases rule: run_loop_cases [of ev l r]) (simp_all add: cancellable_run)
  qed (auto simp: cancellable_def register_connection_def unregister_connection_def Let_def split: option.splits)
qed

interpretation cancelling: promised ev "CancelTask s p" "cancellable s cs0" "cancelled s cs0" for ev s p cs0
proof
  fix r e q assume c: "cancellable s cs0 r"
  show "cancellable s cs0 (reg_step ev r e)" by (rule cancel_stable(2) [OF c])
  show "cancellable s cs0 (r\<lparr>cr_queue := q\<rparr>)" using c by (simp add: cancellable_def split: option.splits)
  show "cancelled s cs0 (run_task ev (CancelTask s p) r)" by (rule cancel_run [OF c])
qed (rule cancel_stable(1))

section \<open>The task queue\<close>

definition queue_ok :: "conn_registry \<Rightarrow> bool" where
  "queue_ok r \<longleftrightarrow> distinct (map (promise_of \<circ> snd) (cr_queue r))
   \<and> (\<forall>l t. (l, t) \<in> set (cr_queue r) \<longrightarrow> promise_of t < cr_next_promise r \<and> \<not> is_done (promise_of t) r)
   \<and> (\<forall>p. is_done p r \<longrightarrow> p < cr_next_promise r)
   \<and> (\<forall>l e p. (l, ReleaseTask e p) \<in> set (cr_queue r) \<longrightarrow> p \<in> set (cr_releases r))
   \<and> (\<forall>l e p. (l, CloseTask e p) \<in> set (cr_queue r) \<longrightarrow> p \<in> set (cr_closes r))"

lemma queue_ok_cong:
  "cr_queue r' = cr_queue r \<Longrightarrow> cr_done r' = cr_done r \<Longrightarrow> cr_next_promise r' = cr_next_promise r \<Longrightarrow>
   cr_releases r' = cr_releases r \<Longrightarrow> cr_closes r' = cr_closes r \<Longrightarrow> queue_ok r' = queue_ok r"
  by (simp add: queue_ok_def is_done_def)

lemma queue_ok_ran:
  assumes ok: "queue_ok r" and q: "cr_queue r = a @ (l, t) # b"
  shows "queue_ok (run_task ev t (r\<lparr>cr_queue := a @ b\<rparr>))"
proof -
  from run_task_frame [of ev t "r\<lparr>cr_queue := a @ b\<rparr>"] obtain f where
    f: "cr_done (run_task ev t (r\<lparr>cr_queue := a @ b\<rparr>)) = cr_done r @ [(promise_of t, f)]"
      "cr_queue (run_task ev t (r\<lparr>cr_queue := a @ b\<rparr>)) = a @ b"
      "cr_next_promise (run_task ev t (r\<lparr>cr_queue := a @ b\<rparr>)) = cr_next_promise r"
      "cr_releases (run_task ev t (r\<lparr>cr_queue := a @ b\<rparr>)) = cr_releases r"
      "cr_closes (run_task ev t (r\<lparr>cr_queue := a @ b\<rparr>)) = cr_closes r" by auto
  have d: "is_done p (run_task ev t (r\<lparr>cr_queue := a @ b\<rparr>)) \<longleftrightarrow> is_done p r \<or> p = promise_of t" for p
    by (auto simp: is_done_def f(1) map_add_def split: option.splits)
  have other: "promise_of u \<noteq> promise_of t" if "(k, u) \<in> set (a @ b)" for k u
    using ok that unfolding queue_ok_def q by (auto simp: image_iff)
  show ?thesis using ok other unfolding queue_ok_def d f(2-5) q by auto
qed

lemma queue_ok_step:
  assumes ok: "queue_ok r"
  shows "queue_ok (reg_step ev r e)"
proof (cases e)
  case (Run l)
  with ok queue_ok_ran show ?thesis by (cases rule: run_loop_cases [of ev l r]) simp_all
next
  case (Accept s cs)
  with ok show ?thesis by (simp add: queue_ok_cong [of "r\<lparr>cr_states := _\<rparr>" r])
next
  case (Register k c s)
  have "queue_ok (r\<lparr>cr_conns := x\<rparr>)" for x using ok by (simp add: queue_ok_cong [of "r\<lparr>cr_conns := _\<rparr>" r])
  with Register ok show ?thesis by (simp add: register_connection_def Let_def)
next
  case (Unregister k c)
  have "queue_ok (r\<lparr>cr_conns := x\<rparr>)" for x using ok by (simp add: queue_ok_cong [of "r\<lparr>cr_conns := _\<rparr>" r])
  with Unregister ok show ?thesis by (simp add: unregister_connection_def split: option.split)
qed

lemma queue_ok_run: "queue_ok r \<Longrightarrow> queue_ok (foldl (reg_step ev) r es)"
  by (induction es arbitrary: r) (auto intro: queue_ok_step)

lemma queue_ok_push:
  assumes "queue_ok r" and "promise_of t = cr_next_promise r"
    and "\<And>e p. t = ReleaseTask e p \<Longrightarrow> p \<in> set rs" "\<And>e p. t = CloseTask e p \<Longrightarrow> p \<in> set cs"
    and "set (cr_releases r) \<subseteq> set rs" "set (cr_closes r) \<subseteq> set cs"
  shows "queue_ok (r\<lparr>cr_next_promise := Suc (cr_next_promise r), cr_releases := rs, cr_closes := cs,
     cr_queue := cr_queue r @ [(l, t)]\<rparr>)"
proof -
  have "promise_of u \<noteq> cr_next_promise r" if "(k, u) \<in> set (cr_queue r)" for k u
    using assms(1) that unfolding queue_ok_def by (metis less_irrefl_nat)
  then have "cr_next_promise r \<notin> (promise_of \<circ> snd) ` set (cr_queue r)" by force
  with assms show ?thesis unfolding queue_ok_def is_done_def by (auto simp: less_Suc_eq)
qed

lemma queue_ok_serving:
  assumes ok: "queue_ok r" and q: "(l, t) \<in> set (cr_queue r)" and "pre r"
  shows "serving t pre G r"
proof -
  have "u = t" if "(k, u) \<in> set (cr_queue r)" "promise_of u = promise_of t" for k u
  proof -
    have "inj_on (promise_of \<circ> snd) (set (cr_queue r))" using ok by (simp add: queue_ok_def distinct_map)
    from inj_onD [OF this, of "(k, u)" "(l, t)"] that q show ?thesis by simp
  qed
  then show ?thesis using assms unfolding serving_def queue_ok_def by (auto simp: list_all_iff)
qed

lemma queue_releases_ok: "queue_ok r \<Longrightarrow> queue_ok (queue_releases es r)"
proof (induction es r rule: queue_releases.induct)
  case (2 k e es r)
  have "queue_ok (r\<lparr>cr_next_promise := Suc (cr_next_promise r), cr_releases := cr_releases r @ [cr_next_promise r],
      cr_closes := cr_closes r, cr_queue := cr_queue r @ [(the (re_loop e), ReleaseTask e (cr_next_promise r))]\<rparr>)"
    by (rule queue_ok_push) (use "2.prems" in auto)
  with "2.IH" [OF refl] show ?case by (simp add: Let_def)
qed simp

lemma queue_releases_grows:
  "set (cr_queue r) \<subseteq> set (cr_queue (queue_releases es r)) \<and> set (cr_releases r) \<subseteq> set (cr_releases (queue_releases es r))"
  by (induction es r rule: queue_releases.induct) (auto simp: Let_def)

lemma queue_releases_in:
  "(k, e) \<in> set es \<Longrightarrow> \<exists>l p. (l, ReleaseTask e p) \<in> set (cr_queue (queue_releases es r))
     \<and> p \<in> set (cr_releases (queue_releases es r))"
proof (induction es r rule: queue_releases.induct)
  case (2 k' e' es r)
  let ?r = "r\<lparr>cr_next_promise := cr_next_promise r + 1, cr_releases := cr_releases r @ [cr_next_promise r],
      cr_queue := cr_queue r @ [(the (re_loop e'), ReleaseTask e' (cr_next_promise r))]\<rparr>"
  show ?case
  proof (cases "(k, e) = (k', e')")
    case True
    with queue_releases_grows [of ?r es] show ?thesis by (auto simp: Let_def)
  next
    case False
    with "2.prems" have "(k, e) \<in> set es" by auto
    from "2.IH" [OF refl this] show ?thesis by (simp add: Let_def)
  qed
qed simp

lemma queue_releases_frame:
  "cr_sealed (queue_releases es r) = cr_sealed r" "cr_conns (queue_releases es r) = cr_conns r"
  "cr_states (queue_releases es r) = cr_states r" "cr_closes (queue_releases es r) = cr_closes r"
  "cr_close_started (queue_releases es r) = cr_close_started r"
  "cr_close_enqueue_failure (queue_releases es r) = cr_close_enqueue_failure r"
  by (induction es r rule: queue_releases.induct) (auto simp: Let_def)

lemma queue_closes_ok: "queue_ok r \<Longrightarrow> queue_ok (queue_closes ev n es r)"
proof (induction ev n es r rule: queue_closes.induct)
  case (2 ev n k e es r)
  have "queue_ok (r\<lparr>cr_next_promise := Suc (cr_next_promise r), cr_releases := cr_releases r,
      cr_closes := cr_closes r @ [cr_next_promise r],
      cr_queue := cr_queue r @ [(the (re_loop e), CloseTask e (cr_next_promise r))]\<rparr>)"
    by (rule queue_ok_push) (use "2.prems" in auto)
  moreover have "queue_ok (r\<lparr>cr_next_promise := Suc (cr_next_promise r),
      cr_closes := cr_closes r @ [cr_next_promise r], cr_close_enqueue_failure := True\<rparr>)"
    using "2.prems" unfolding queue_ok_def is_done_def by (auto simp: less_Suc_eq)
  ultimately show ?case using "2.IH" [OF refl refl] by (auto simp: Let_def)
qed simp

lemma queue_closes_grows:
  "set (cr_queue r) \<subseteq> set (cr_queue (queue_closes ev n es r)) \<and> set (cr_closes r) \<subseteq> set (cr_closes (queue_closes ev n es r))"
  by (induction ev n es r rule: queue_closes.induct) (auto simp: Let_def)

lemma queue_closes_in:
  "(k, e) \<in> set es \<Longrightarrow> \<not> cr_close_enqueue_failure (queue_closes ev n es r) \<Longrightarrow>
     \<exists>l p. (l, CloseTask e p) \<in> set (cr_queue (queue_closes ev n es r)) \<and> p \<in> set (cr_closes (queue_closes ev n es r))"
proof (induction ev n es r rule: queue_closes.induct)
  case (2 ev n k' e' es r)
  let ?r = "r\<lparr>cr_next_promise := cr_next_promise r + 1, cr_closes := cr_closes r @ [cr_next_promise r],
      cr_queue := cr_queue r @ [(the (re_loop e'), CloseTask e' (cr_next_promise r))]\<rparr>"
  have w: "wx_enqueue ev n" using "2.prems"(2) by (auto simp: Let_def split: if_splits)
  show ?case
  proof (cases "(k, e) = (k', e')")
    case True
    with w queue_closes_grows [of ?r ev "n + 1" es] show ?thesis by (auto simp: Let_def)
  next
    case False
    with "2.prems" have "(k, e) \<in> set es" by auto
    with "2.IH" [OF refl refl w] "2.prems"(2) w show ?thesis by (simp add: Let_def)
  qed
qed simp

lemma release_begin_ok: "queue_ok r \<Longrightarrow> queue_ok (snd (release_begin r))"
proof -
  assume "queue_ok r"
  then have "queue_ok (r\<lparr>cr_sealed := True\<rparr>)" by (simp add: queue_ok_cong [of "r\<lparr>cr_sealed := True\<rparr>" r])
  moreover from queue_releases_ok [OF this] have "queue_ok ((queue_releases es (r\<lparr>cr_sealed := True\<rparr>))\<lparr>cr_conns := []\<rparr>)"
    for es by (simp add: queue_ok_cong [of "(queue_releases es (r\<lparr>cr_sealed := True\<rparr>))\<lparr>cr_conns := []\<rparr>"
          "queue_releases es (r\<lparr>cr_sealed := True\<rparr>)"])
  ultimately show ?thesis by (simp add: release_begin_def Let_def)
qed

lemma close_begin_ok: "queue_ok r \<Longrightarrow> queue_ok (snd (close_begin ev r))"
proof -
  assume ok: "queue_ok r"
  then have "queue_ok (r\<lparr>cr_sealed := True\<rparr>)" by (simp add: queue_ok_cong [of "r\<lparr>cr_sealed := True\<rparr>" r])
  moreover have "queue_ok (r\<lparr>cr_sealed := True, cr_close_started := True\<rparr>)"
    using ok by (simp add: queue_ok_cong [of "r\<lparr>cr_sealed := True, cr_close_started := True\<rparr>" r])
  ultimately show ?thesis by (simp add: close_begin_def Let_def queue_closes_ok)
qed

lemma cancel_loop_ok: "queue_ok r \<Longrightarrow> queue_ok (snd (cancel_loop ev during ss r))"
proof (induction ev during ss r rule: cancel_loop.induct)
  case (2 ev during s ss r)
  show ?case
  proof (cases "case map_of (cr_states r) s of None \<Rightarrow> None | Some cs \<Rightarrow> st_loop cs")
    case None
    with 2 show ?thesis by (auto split: option.splits)
  next
    case (Some l)
    then obtain cs where cs: "map_of (cr_states r) s = Some cs" "st_loop cs = Some l" by (auto split: option.splits)
    let ?r1 = "r\<lparr>cr_next_promise := cr_next_promise r + 1, cr_queue := cr_queue r @ [(l, CancelTask s (cr_next_promise r))]\<rparr>"
    let ?r2 = "foldl (reg_step ev) ?r1 (case during of [] \<Rightarrow> [] | d # _ \<Rightarrow> d)"
    have "queue_ok (r\<lparr>cr_next_promise := Suc (cr_next_promise r), cr_releases := cr_releases r, cr_closes := cr_closes r,
        cr_queue := cr_queue r @ [(l, CancelTask s (cr_next_promise r))]\<rparr>)"
      by (rule queue_ok_push) (use "2.prems" in auto)
    then have "queue_ok ?r1" by simp
    then have "queue_ok ?r2" by (rule queue_ok_run)
    with "2.IH"(3) [OF cs refl refl refl] cs show ?thesis by (auto simp: Let_def)
  qed
qed simp

interpretation registry_queue: invariant_step "op_step ev" "\<lambda>_. True" queue_ok for ev
proof
  fix r e assume ok: "queue_ok r"
  show "queue_ok (op_step ev r e)"
  proof (cases e)
    case InitiateShutdown
    with ok show ?thesis
      by (simp add: initiate_shutdown_def queue_ok_cong [of "r\<lparr>cr_shutdown_pending := True, cr_sealed := True\<rparr>" r])
  next
    case (Release d)
    have "queue_ok r1" if "release_begin r = (x, r1)" for x r1 using release_begin_ok [OF ok] that by simp
    with Release show ?thesis
      by (auto simp: release_connections_def Let_def queue_ok_run split: prod.split option.split)
  next
    case (CloseAll d)
    have "queue_ok r1" if "close_begin ev r = (x, r1)" for x r1 using close_begin_ok [OF ok, of ev] that by simp
    with CloseAll show ?thesis
      by (auto simp: close_all_connections_def Let_def queue_ok_run split: prod.split bool.split)
  qed (use ok in \<open>simp_all add: queue_ok_step cancel_all_timers_def cancel_loop_ok\<close>)
qed

section \<open>Properties\<close>

abbreviation registry_run :: "ws_env \<Rightarrow> registry_op list \<Rightarrow> conn_registry" where
  "registry_run ev ops \<equiv> foldl (op_step ev) initial_conn_registry ops"

lemma registry_run_ok: "queue_ok (registry_run ev ops)"
  by (rule registry_queue.run_inv) (simp_all add: queue_ok_def initial_conn_registry_def is_done_def list_all_iff)

interpretation sealed_reg: invariant_step "reg_step ev" "\<lambda>_. True" "\<lambda>r. cr_sealed r \<and> cr_conns r = []" for ev
proof
  fix r :: conn_registry and e assume r: "cr_sealed r \<and> cr_conns r = []"
  show "cr_sealed (reg_step ev r e) \<and> cr_conns (reg_step ev r e) = []"
  proof (cases e)
    case (Run l)
    show ?thesis
    proof (cases rule: run_loop_cases [of ev l r])
      case (ran a t b)
      with run_task_frame [of ev t "r\<lparr>cr_queue := a @ b\<rparr>"] Run r show ?thesis by auto
    qed (use Run r in simp)
  qed (use r in \<open>auto simp: register_connection_def unregister_connection_def\<close>)
qed

lemma sealed_empty_run: "cr_sealed r \<Longrightarrow> cr_conns r = [] \<Longrightarrow> cr_conns (foldl (reg_step ev) r es) = []"
  using sealed_reg.run_inv [of r es ev] by (simp add: list_all_iff)

lemma queue_okD:
  "queue_ok r \<Longrightarrow> (l, ReleaseTask e p) \<in> set (cr_queue r) \<Longrightarrow> p \<in> set (cr_releases r) \<and> \<not> is_done p r"
  "queue_ok r \<Longrightarrow> (l, CloseTask e p) \<in> set (cr_queue r) \<Longrightarrow> p \<in> set (cr_closes r) \<and> \<not> is_done p r"
  unfolding queue_ok_def by (metis promise_of.simps(1)) (metis promise_of.simps(2))

lemma releases_run: "cr_releases (foldl (reg_step ev) r es) = cr_releases r \<and> cr_closes (foldl (reg_step ev) r es) = cr_closes r"
proof -
  have "cr_releases (reg_step ev r e) = cr_releases r \<and> cr_closes (reg_step ev r e) = cr_closes r" for r e
  proof (cases e)
    case (Run l)
    show ?thesis
    proof (cases rule: run_loop_cases [of ev l r])
      case (ran a t b)
      with run_task_frame [of ev t "r\<lparr>cr_queue := a @ b\<rparr>"] Run show ?thesis by auto
    qed (use Run in simp)
  qed (auto simp: register_connection_def unregister_connection_def Let_def split: option.split)
  then show ?thesis by (induction es arbitrary: r) auto
qed

fun is_release :: "loop_task \<Rightarrow> bool" where
  "is_release (ReleaseTask _ _) = True"
| "is_release _ = False"

lemma release_complete:
  assumes ok: "queue_ok r" and "release_connections ev during r = (True, r')"
  shows "cr_conns r' = [] \<and> list_all (\<lambda>ke. snd ke \<in> set (cr_dropped r')) (cr_conns r)
    \<and> list_all (\<lambda>lt. \<not> is_release (snd lt)) (cr_queue r')"
proof -
  let ?r0 = "r\<lparr>cr_sealed := True\<rparr>" and ?q = "queue_releases (cr_conns r) (r\<lparr>cr_sealed := True\<rparr>)"
  let ?r1 = "?q\<lparr>cr_conns := []\<rparr>"
  have b: "release_begin r = (Some (cr_releases ?q), ?r1)"
    using assms(2) by (auto simp: release_connections_def release_begin_def Let_def split: if_splits)
  then have r': "r' = foldl (reg_step ev) ?r1 during" and rdy: "all_ready (cr_releases ?q) r'"
    using assms(2) by (auto simp: release_connections_def Let_def)
  have ok1: "queue_ok ?r1" using release_begin_ok [OF ok] b by simp
  have ok': "queue_ok r'" unfolding r' by (rule queue_ok_run [OF ok1])
  have "cr_conns r' = []" unfolding r' by (rule sealed_empty_run) (simp_all add: queue_releases_frame)
  moreover have "e \<in> set (cr_dropped r')" if "(k, e) \<in> set (cr_conns r)" for k e
  proof -
    from queue_releases_in [OF that, of ?r0] obtain l p where
      lp: "(l, ReleaseTask e p) \<in> set (cr_queue ?r1)" "p \<in> set (cr_releases ?q)" by auto
    have "serving (ReleaseTask e p) (\<lambda>_. True) (dropped e) r'"
      unfolding r' by (rule releasing.serving_run [OF queue_ok_serving [OF ok1 lp(1)]]) simp
    moreover have "is_done p r'" using rdy lp(2) by (simp add: all_ready_def list_all_iff is_done_def)
    ultimately show ?thesis using releasing.served by (simp add: dropped_def)
  qed
  moreover have "\<not> is_release t" if "(l, t) \<in> set (cr_queue r')" for l t
  proof
    assume "is_release t"
    then obtain e p where t: "t = ReleaseTask e p" by (cases t) auto
    have "p \<in> set (cr_releases r')" "\<not> is_done p r'" using queue_okD(1) [OF ok'] that t by blast+
    moreover have "cr_releases r' = cr_releases ?q" unfolding r' by (simp add: releases_run)
    ultimately show False using rdy by (auto simp: all_ready_def list_all_iff is_done_def)
  qed
  ultimately show ?thesis by (auto simp: list_all_iff)
qed


definition demo_ws_env :: ws_env where
  "demo_ws_env = \<lparr>wx_connected = (\<lambda>_. True), wx_throws = (\<lambda>_. False), wx_enqueue = (\<lambda>_. True)\<rparr>"

definition demo_state :: "nat \<Rightarrow> conn_state" where
  "demo_state l = \<lparr>st_loop = Some l, st_authority_stopped = False, st_authority_until_ms = 7,
     st_replay_abort_flag = None, st_authority_timer = Some 1, st_auth_timer = None, st_heartbeat_timer = Some 2\<rparr>"

definition demo_ops :: "registry_op list" where
  "demo_ops = [Basic (Accept 1 (demo_state 5)), Basic (Accept 2 (demo_state 6)),
     Basic (Register (''session'', ''a'') 11 (Some 1)), Basic (Register (''session'', ''b'') 12 (Some 2))]"


definition has_loop :: "nat \<Rightarrow> conn_registry \<Rightarrow> bool" where
  "has_loop s r \<longleftrightarrow> (case map_of (cr_states r) s of None \<Rightarrow> False | Some cs \<Rightarrow> st_loop cs \<noteq> None)"

lemma st_loop_cancel_state [simp]: "st_loop (cancel_state cs) = st_loop cs"
  by (simp add: cancel_state_def)

lemma has_loop_step: "has_loop s r \<Longrightarrow> has_loop s (reg_step ev r e)"
proof (cases e)
  case (Run l)
  assume h: "has_loop s r"
  have "has_loop s (run_task ev t r)" if "has_loop s r" for t r
    using that by (cases t) (auto simp: has_loop_def Let_def cancel_callback_eq split: option.splits)
  moreover have "has_loop s (r\<lparr>cr_queue := q\<rparr>)" for q using h by (simp add: has_loop_def)
  ultimately show ?thesis using h Run by (cases rule: run_loop_cases [of ev l r]) simp_all
qed (auto simp: has_loop_def register_connection_def unregister_connection_def Let_def split: option.splits)

interpretation cancel_target: invariant_step "reg_step ev" "\<lambda>_. True" "\<lambda>r. cancellable s cs0 r \<and> has_loop s r"
  for ev s cs0
  by unfold_locales (simp del: reg_step.simps add: cancel_stable has_loop_step)

lemma cancel_loop_complete:
  "queue_ok r \<Longrightarrow> cancel_loop ev during ss r = (True, r') \<Longrightarrow>
   cancelled s cs0 r \<or> (s \<in> set ss \<and> cancellable s cs0 r \<and> has_loop s r) \<Longrightarrow> cancelled s cs0 r'"
proof (induction ev during ss r rule: cancel_loop.induct)
  case (2 ev during s' ss r)
  show ?case
  proof (cases "has_loop s' r")
    case False
    then have "cancelled s cs0 r \<or> (s \<in> set ss \<and> cancellable s cs0 r \<and> has_loop s r)"
      using "2.prems"(3) by auto
    with False 2 show ?thesis by (auto simp: has_loop_def split: option.splits)
  next
    case True
    then obtain cs l where cs: "map_of (cr_states r) s' = Some cs" "st_loop cs = Some l"
      by (auto simp: has_loop_def split: option.splits)
    let ?p = "cr_next_promise r"
    let ?r1 = "r\<lparr>cr_next_promise := ?p + 1, cr_queue := cr_queue r @ [(l, CancelTask s' ?p)]\<rparr>"
    let ?d = "case during of [] \<Rightarrow> [] | d # _ \<Rightarrow> d"
    let ?r2 = "foldl (reg_step ev) ?r1 ?d"
    have "queue_ok (r\<lparr>cr_next_promise := Suc ?p, cr_releases := cr_releases r, cr_closes := cr_closes r,
        cr_queue := cr_queue r @ [(l, CancelTask s' ?p)]\<rparr>)"
      by (rule queue_ok_push) (use "2.prems"(1) in auto)
    then have ok1: "queue_ok ?r1" by simp
    have dn: "is_done ?p ?r2" and rec: "cancel_loop ev (tl during) ss ?r2 = (True, r')"
      using "2.prems"(2) cs by (auto simp: is_done_def Let_def split: if_splits)
    have same: "cancelled s cs0 ?r1 = cancelled s cs0 r" "cancellable s cs0 ?r1 = cancellable s cs0 r"
      "has_loop s ?r1 = has_loop s r"
      by (simp_all add: cancelled_def cancellable_def has_loop_def split: option.split)
    have "cancelled s cs0 ?r2 \<or> (s \<in> set ss \<and> cancellable s cs0 ?r2 \<and> has_loop s ?r2)"
    proof (cases "cancelled s cs0 r")
      case True
      then show ?thesis using cancelling.kept_run same(1) by blast
    next
      case False
      then have c: "cancellable s cs0 ?r1 \<and> has_loop s ?r1" using "2.prems"(3) same by simp
      show ?thesis
      proof (cases "s = s'")
        case True
        have "serving (CancelTask s' ?p) (cancellable s cs0) (cancelled s cs0) ?r1"
          by (rule queue_ok_serving [OF ok1, of l]) (use c in simp_all)
        then have "serving (CancelTask s ?p) (cancellable s cs0) (cancelled s cs0) ?r2"
          unfolding True [symmetric] by (rule cancelling.serving_run)
        then show ?thesis using cancelling.served dn by simp
      next
        case n: False
        then have "s \<in> set ss" using False "2.prems"(3) by simp
        then show ?thesis using cancel_target.run_inv [OF c, of ?d ev] by (simp add: list_all_iff)
      qed
    qed
    from "2.IH"(3) [OF cs refl refl refl _ queue_ok_run [OF ok1] rec this] dn show ?thesis
      by (simp add: is_done_def)
  qed
qed simp

text \<open>
  When \<open>cancel_all_timers\<close> answers true, every connection registered at the call whose state has a
  loop is disarmed: its authority lease is revoked and stopped, a replay in flight is told to
  abort, and each of its timers has been invalidated on its own loop.
\<close>

theorem cancel_all_timers_complete:
  assumes "r = registry_run ev ops" and "cancel_all_timers ev during r = (True, r')"
    and "(k, e) \<in> set (cr_conns r)" and "re_state e = Some s"
    and "map_of (cr_states r) s = Some cs0" and "st_loop cs0 \<noteq> None"
  shows "cancelled s cs0 r'"
proof (rule cancel_loop_complete)
  show "queue_ok r" using assms(1) registry_run_ok by simp
  show "cancel_loop ev during (List.map_filter (re_state \<circ> snd) (cr_conns r)) r = (True, r')"
    using assms(2) by (simp add: cancel_all_timers_def)
  have "s \<in> set (List.map_filter (re_state \<circ> snd) (cr_conns r))"
    using assms(3,4) by (force simp: map_filter_def)
  moreover have "cancellable s cs0 r" "has_loop s r" using assms(5,6) by (simp_all add: cancellable_def has_loop_def)
  ultimately show "cancelled s cs0 r \<or> (s \<in> set (List.map_filter (re_state \<circ> snd) (cr_conns r))
      \<and> cancellable s cs0 r \<and> has_loop s r)" by simp
qed

theorem cancel_all_timers_complete_witness:
  "cancelled 2 (demo_state 6)
     (snd (cancel_all_timers demo_ws_env [[Run 5], [Run 6]] (registry_run demo_ws_env demo_ops)))"
proof -
  let ?r = "registry_run demo_ws_env demo_ops"
  let ?x = "cancel_all_timers demo_ws_env [[Run 5], [Run 6]] ?r"
  have "fst ?x" by code_simp
  then have x: "?x = (True, snd ?x)" by (simp add: prod_eq_iff)
  show ?thesis
  proof (rule cancel_all_timers_complete [OF refl x])
    show "((''session'', ''b''), \<lparr>re_conn = Some 12, re_state = Some 2, re_loop = Some 6\<rparr>) \<in> set (cr_conns ?r)"
      by code_simp
    show "map_of (cr_states ?r) 2 = Some (demo_state 6)" by code_simp
  qed (simp_all add: demo_state_def)
qed

lemma started_run: "cr_close_started (foldl (reg_step ev) r es) = cr_close_started r"
proof -
  have "cr_close_started (reg_step ev r e) = cr_close_started r" for r e
  proof (cases e)
    case (Run l)
    show ?thesis
    proof (cases rule: run_loop_cases [of ev l r])
      case (ran a t b)
      with run_task_frame [of ev t "r\<lparr>cr_queue := a @ b\<rparr>"] Run show ?thesis by auto
    qed (use Run in simp)
  qed (auto simp: register_connection_def unregister_connection_def Let_def split: option.split)
  then show ?thesis by (induction es arbitrary: r) auto
qed

lemma queue_closes_started: "cr_close_started (queue_closes ev n es r) = cr_close_started r"
  by (induction ev n es r rule: queue_closes.induct) (auto simp: Let_def)

lemma close_wait_True: "close_wait ps r = Some True \<Longrightarrow> p \<in> set ps \<Longrightarrow> is_done p r"
  by (induction ps r rule: close_wait.induct) (auto simp: is_done_def split: option.splits if_splits)

text \<open>
  When the first \<open>close_all_connections\<close> answers true, every connection registered at the call that
  was still connected has been asked to close on its own loop; and a retry queues nothing more.
\<close>

theorem close_all_asks_every_connection:
  assumes "r = registry_run ev ops" and "\<not> cr_close_started r"
    and "close_all_connections ev during r = (Some True, r')"
  shows "list_all (\<lambda>ke. close_asked ev (snd ke) r') (cr_conns r)
    \<and> cr_queue (snd (close_begin ev r')) = cr_queue r'"
proof -
  have ok: "queue_ok r" using assms(1) registry_run_ok by simp
  let ?r0 = "r\<lparr>cr_sealed := True, cr_close_started := True\<rparr>"
  let ?r1 = "queue_closes ev 0 (cr_conns r) ?r0"
  have b: "close_begin ev r = (True, ?r1)" and nf: "\<not> cr_close_enqueue_failure ?r1"
    using assms(2,3) by (auto simp: close_all_connections_def close_begin_def Let_def split: if_splits)
  with assms(3) have r': "r' = foldl (reg_step ev) ?r1 during" and w: "close_wait (cr_closes ?r1) r' = Some True"
    by (auto simp: close_all_connections_def Let_def)
  have ok1: "queue_ok ?r1" using close_begin_ok [OF ok, of ev] b by simp
  have "close_asked ev e r'" if "(k, e) \<in> set (cr_conns r)" for k e
  proof -
    from queue_closes_in [OF that nf] obtain l p where
      lp: "(l, CloseTask e p) \<in> set (cr_queue ?r1)" "p \<in> set (cr_closes ?r1)" by auto
    have "serving (CloseTask e p) (\<lambda>_. True) (close_asked ev e) r'"
      unfolding r' by (rule closing.serving_run [OF queue_ok_serving [OF ok1 lp(1)]]) simp
    then show ?thesis using closing.served close_wait_True [OF w lp(2)] by simp
  qed
  moreover have "cr_close_started r'" unfolding r' started_run queue_closes_started by simp
  ultimately show ?thesis by (auto simp: list_all_iff close_begin_def)
qed

theorem close_all_asks_every_connection_witness:
  "list_all (\<lambda>ke. close_asked demo_ws_env (snd ke) (snd (close_all_connections demo_ws_env [Run 6, Run 5]
     (registry_run demo_ws_env demo_ops)))) (cr_conns (registry_run demo_ws_env demo_ops))"
proof -
  let ?x = "close_all_connections demo_ws_env [Run 6, Run 5] (registry_run demo_ws_env demo_ops)"
  have "fst ?x = Some True" "\<not> cr_close_started (registry_run demo_ws_env demo_ops)" by code_simp+
  moreover from this(1) have "?x = (Some True, snd ?x)" by (simp add: prod_eq_iff)
  ultimately show ?thesis using close_all_asks_every_connection [OF refl] by blast
qed

fun registers :: "registry_key \<Rightarrow> reg_event \<Rightarrow> bool" where
  "registers k (Register k' _ _) \<longleftrightarrow> k' = k"
| "registers k _ \<longleftrightarrow> False"

definition admitting :: "conn_registry \<Rightarrow> bool" where
  "admitting r \<longleftrightarrow> \<not> cr_shutdown_pending r \<and> \<not> cr_sealed r"

lemma reg_step_conns:
  assumes "admitting r"
  shows "admitting (reg_step ev r e)"
    and "\<not> registers k e \<Longrightarrow> map_of (cr_conns (reg_step ev r e)) k =
       (case map_of (cr_conns r) k of None \<Rightarrow> None
        | Some x \<Rightarrow> if \<exists>c. re_conn x = Some c \<and> e = Unregister k c then None else Some x)"
proof -
  have "admitting (reg_step ev r e) \<and> (\<not> registers k e \<longrightarrow> map_of (cr_conns (reg_step ev r e)) k =
       (case map_of (cr_conns r) k of None \<Rightarrow> None
        | Some x \<Rightarrow> if \<exists>c. re_conn x = Some c \<and> e = Unregister k c then None else Some x))" for k
  proof (cases e)
    case (Run l)
    show ?thesis
    proof (cases rule: run_loop_cases [of ev l r])
      case (ran a t b)
      with run_task_frame [of ev t "r\<lparr>cr_queue := a @ b\<rparr>"] Run assms show ?thesis
        by (auto simp: admitting_def split: option.split)
    qed (use Run assms in \<open>auto split: option.split\<close>)
  next
    case (Unregister k' c)
    with assms show ?thesis
      by (auto simp: admitting_def unregister_connection_def split: option.split)
  qed (use assms in \<open>auto simp: admitting_def register_connection_def Let_def split: option.split\<close>)
  then show "admitting (reg_step ev r e)"
    and "\<not> registers k e \<Longrightarrow> map_of (cr_conns (reg_step ev r e)) k =
       (case map_of (cr_conns r) k of None \<Rightarrow> None
        | Some x \<Rightarrow> if \<exists>c. re_conn x = Some c \<and> e = Unregister k c then None else Some x)" by blast+
qed

interpretation open_reg: invariant_step "reg_step ev" "\<lambda>_. True" admitting for ev
  by unfold_locales (rule reg_step_conns(1))

lemma conns_until_unregister:
  "admitting r \<Longrightarrow> list_all (\<lambda>e. \<not> registers k e) es \<Longrightarrow>
   map_of (cr_conns (foldl (reg_step ev) r es)) k =
     (case map_of (cr_conns r) k of None \<Rightarrow> None
      | Some x \<Rightarrow> if \<exists>c. re_conn x = Some c \<and> Unregister k c \<in> set es then None else Some x)"
proof (induction es arbitrary: r)
  case (Cons e es)
  then have "admitting (reg_step ev r e)" "\<not> registers k e" "list_all (\<lambda>e. \<not> registers k e) es"
    by (simp_all add: reg_step_conns(1) del: reg_step.simps)
  with Cons.IH [OF this(1,3)] reg_step_conns(2) [OF Cons.prems(1) this(2), of ev] show ?case
    by (auto simp del: reg_step.simps split: option.split)
qed (simp split: option.split)

text \<open>
  The latest registration of a session wins and only its own connection can remove it: after any
  traffic in which \<open>c\<close> was the last to register under \<open>k\<close>, the entry of \<open>k\<close> is the one of \<open>c\<close>, unless
  \<open>c\<close> itself has unregistered since. A displaced connection that closes late removes nothing.
\<close>

theorem latest_registration_wins:
  assumes "list_all (\<lambda>e. \<not> registers k e) post"
  shows "map_option re_conn (map_of (cr_conns (foldl (reg_step ev) initial_conn_registry
      (pre @ Register k c s # post))) k) = (if Unregister k c \<in> set post then None else Some (Some c))"
proof -
  let ?r = "foldl (reg_step ev) initial_conn_registry pre"
  have a: "admitting ?r"
    by (rule open_reg.run_inv) (simp_all add: admitting_def initial_conn_registry_def list_all_iff)
  then have "map_option re_conn (map_of (cr_conns (reg_step ev ?r (Register k c s))) k) = Some (Some c)"
    by (simp add: register_connection_def admitting_def Let_def)
  with conns_until_unregister [OF reg_step_conns(1) [OF a] assms] show ?thesis
    by (auto simp del: reg_step.simps)
qed

theorem latest_registration_wins_witness:
  "map_option re_conn (map_of (cr_conns (foldl (reg_step demo_ws_env) initial_conn_registry
     ([Register (''pat'', ''x'') 1 None] @ Register (''pat'', ''x'') 2 None # [Unregister (''pat'', ''x'') 1])))
     (''pat'', ''x'')) = Some (Some 2)"
  using latest_registration_wins [of "(''pat'', ''x'')" "[Unregister (''pat'', ''x'') 1]" demo_ws_env
      "[Register (''pat'', ''x'') 1 None]" 2 None] by simp

section \<open>Registration against a sealed registry\<close>

definition unknown :: "nat \<Rightarrow> conn_registry \<Rightarrow> bool" where
  "unknown c r \<longleftrightarrow> list_all (\<lambda>ke. re_conn (snd ke) \<noteq> Some c) (cr_conns r)
   \<and> list_all (\<lambda>lt. case snd lt of CloseTask e _ \<Rightarrow> re_conn e \<noteq> Some c | _ \<Rightarrow> True) (cr_queue r)
   \<and> c \<notin> set (cr_closed r)"

definition escaped :: "nat \<Rightarrow> conn_registry \<Rightarrow> bool" where
  "escaped c r \<longleftrightarrow> cr_sealed r \<and> unknown c r"

lemma set_delete_entry: "list_all P m \<Longrightarrow> list_all P (AList.delete k m)"
  by (induction m) (auto simp: AList.delete_eq)

lemma run_task_unknown:
  "unknown c r \<Longrightarrow> (case t of CloseTask e _ \<Rightarrow> re_conn e \<noteq> Some c | _ \<Rightarrow> True) \<Longrightarrow> unknown c (run_task ev t r)"
  by (cases t) (auto simp: unknown_def Let_def cancel_callback_eq split: option.splits)

interpretation escape_reg: invariant_step "reg_step ev" "\<lambda>_. True" "escaped c" for ev c
proof
  fix r e assume r: "escaped c r"
  show "escaped c (reg_step ev r e)"
  proof (cases e)
    case (Run l)
    show ?thesis
    proof (cases rule: run_loop_cases [of ev l r])
      case (ran a t b)
      then have "unknown c (r\<lparr>cr_queue := a @ b\<rparr>)" "case t of CloseTask e _ \<Rightarrow> re_conn e \<noteq> Some c | _ \<Rightarrow> True"
        using r by (simp_all add: escaped_def unknown_def)
      then have "unknown c (run_loop ev l r)" unfolding ran(2) by (rule run_task_unknown)
      moreover have "cr_sealed (run_loop ev l r)"
        using run_task_frame [of ev t "r\<lparr>cr_queue := a @ b\<rparr>"] r ran(2) by (auto simp: escaped_def)
      ultimately show ?thesis using Run by (simp add: escaped_def)
    qed (use Run r in simp)
  qed (use r in \<open>auto simp: escaped_def unknown_def register_connection_def unregister_connection_def
      set_delete_entry split: option.split\<close>)
qed

lemma escaped_run: "escaped c r \<Longrightarrow> escaped c (foldl (reg_step ev) r es)"
  by (rule escape_reg.run_inv) (simp_all add: list_all_iff)

lemma queue_releases_unknown: "unknown c r \<Longrightarrow> unknown c (queue_releases es r)"
  by (induction es r rule: queue_releases.induct) (simp_all add: unknown_def Let_def)

lemma queue_closes_unknown:
  "unknown c r \<Longrightarrow> list_all (\<lambda>ke. re_conn (snd ke) \<noteq> Some c) es \<Longrightarrow> unknown c (queue_closes ev n es r)"
  by (induction ev n es r rule: queue_closes.induct) (simp_all add: unknown_def Let_def)

lemma queue_closes_sealed: "cr_sealed (queue_closes ev n es r) = cr_sealed r"
  by (induction ev n es r rule: queue_closes.induct) (auto simp: Let_def)

lemma cancel_loop_escaped: "escaped c r \<Longrightarrow> escaped c (snd (cancel_loop ev during ss r))"
proof (induction ev during ss r rule: cancel_loop.induct)
  case (2 ev during s ss r)
  have push: "escaped c (r\<lparr>cr_next_promise := n, cr_queue := cr_queue r @ [(l, CancelTask s p)]\<rparr>)" for n l p
    using "2.prems" by (simp add: escaped_def unknown_def)
  show ?case
  proof (cases "map_of (cr_states r) s")
    case None
    with 2 show ?thesis by simp
  next
    case (Some cs)
    show ?thesis
    proof (cases "st_loop cs")
      case None
      with Some 2 show ?thesis by simp
    next
      case l: (Some l)
      with Some "2.IH"(3) [OF Some l refl refl refl] escaped_run [OF push] show ?thesis by (simp add: Let_def)
    qed
  qed
qed simp

interpretation escape_ops: invariant_step "op_step ev" "\<lambda>_. True" "escaped c" for ev c
proof
  fix r e assume r: "escaped c r"
  then have s: "escaped c (r\<lparr>cr_sealed := True, cr_close_started := b\<rparr>)" "escaped c (r\<lparr>cr_sealed := True\<rparr>)" for b
    by (simp_all add: escaped_def unknown_def)
  show "escaped c (op_step ev r e)"
  proof (cases e)
    case (Release d)
    have "escaped c (queue_releases es (r\<lparr>cr_sealed := True\<rparr>)\<lparr>cr_conns := []\<rparr>)" for es
      using queue_releases_unknown [of c "r\<lparr>cr_sealed := True\<rparr>" es] s(2)
      by (simp add: escaped_def queue_releases_frame) (simp add: unknown_def)
    then have "escaped c r1" if "release_begin r = (x, r1)" for x r1
      using that s(2) by (auto simp: release_begin_def Let_def split: if_splits)
    with Release show ?thesis
      by (auto simp: release_connections_def Let_def escaped_run split: prod.split option.split)
  next
    case (CloseAll d)
    have "list_all (\<lambda>ke. re_conn (snd ke) \<noteq> Some c) (cr_conns r)" using r by (simp add: escaped_def unknown_def)
    then have "escaped c (queue_closes ev 0 (cr_conns r) (r\<lparr>cr_sealed := True, cr_close_started := True\<rparr>))"
      using queue_closes_unknown s(1) [of True] by (simp add: escaped_def queue_closes_sealed)
    then have "escaped c r1" if "close_begin ev r = (x, r1)" for x r1
      using that s(2) by (auto simp: close_begin_def Let_def split: if_splits)
    with CloseAll show ?thesis
      by (auto simp: close_all_connections_def Let_def escaped_run split: prod.split bool.split)
  next
    case (Basic b)
    from escape_reg.step_inv [OF r] Basic show ?thesis by simp
  next
    case (CancelTimers d)
    with cancel_loop_escaped [OF r] show ?thesis by (simp add: cancel_all_timers_def)
  qed (use r in \<open>simp_all add: initiate_shutdown_def escaped_def unknown_def\<close>)
qed

text \<open>
  C39: A registration the sealed registry refuses is not reported: the caller gets the empty entry it also
  gets for a first registration, and from then on no operation of the registry, however the shutdown
  proceeds, asks that connection to close.
\<close>

theorem refused_registration_escapes:
  assumes "r = registry_run ev ops" and "cr_sealed r" and "unknown c r"
  shows "fst (register_connection k c s r) = fst (register_connection k c s initial_conn_registry)
    \<and> c \<notin> set (cr_closed (foldl (op_step ev) r (Basic (Register k c s) # later)))"
proof -
  have "fst (register_connection k c s r) = fst (register_connection k c s initial_conn_registry)"
    using assms(2) by (simp add: register_connection_def initial_conn_registry_def)
  moreover have "escaped c (foldl (op_step ev) r (Basic (Register k c s) # later))"
    by (rule escape_ops.run_inv) (use assms in \<open>simp_all add: escaped_def list_all_iff\<close>)
  ultimately show ?thesis by (simp add: escaped_def unknown_def)
qed

theorem refused_registration_escapes_witness:
  "13 \<notin> set (cr_closed (foldl (op_step demo_ws_env) (registry_run demo_ws_env (demo_ops @ [InitiateShutdown]))
     [Basic (Register (''session'', ''c'') 13 (Some 2)), CloseAll [Run 5, Run 6], Release [Run 5, Run 6]]))"
proof -
  have "cr_sealed (registry_run demo_ws_env (demo_ops @ [InitiateShutdown]))"
    "unknown 13 (registry_run demo_ws_env (demo_ops @ [InitiateShutdown]))" by code_simp+
  from refused_registration_escapes [OF refl this] show ?thesis by blast
qed

end
