(* ===== verification/Async_Tasks.thy ===== *)
theory Async_Tasks
  imports Prelude
begin

text \<open>
  The registry of accepted asynchronous work (\<^verbatim>\<open>lifecycle/async_task_registry.cpp\<close>): leases counted
  by \<open>active\<close>, and cleanup owners kept in an intrusive list until their cleanup succeeds.

  Owners are numbers; \<open>at_owners\<close> holds the revision and the \<open>registered\<close> flag each carries. The list
  behind \<open>cleanup_head\<close> is a list, its head first. The leases that exist are listed in \<open>at_leases\<close>, so
  that the counter can be compared with them. A retry pass releases the locks around each call of
  \<open>retry_cleanup\<close>; the events of other threads during that call are an argument, as is its answer
  (false as well when the deadline has passed).
\<close>

record cleanup_owner =
  ow_revision :: nat
  ow_registered :: bool

record async_tasks =
  at_accepting :: bool
  at_active :: nat
  at_cleanup_count :: nat
  at_cleanup_epoch :: nat
  at_head :: "nat list"
  at_owners :: "(nat \<times> cleanup_owner) list"
  at_leases :: "nat list"
  at_next_lease :: nat

definition initial_async_tasks :: async_tasks where
  "initial_async_tasks =
     \<lparr>at_accepting = True, at_active = 0, at_cleanup_count = 0, at_cleanup_epoch = 0, at_head = [],
      at_owners = [], at_leases = [], at_next_lease = 0\<rparr>"

definition owner_of :: "nat \<Rightarrow> async_tasks \<Rightarrow> cleanup_owner" where
  "owner_of ow st = (case map_of (at_owners st) ow of
     Some x \<Rightarrow> x | None \<Rightarrow> \<lparr>ow_revision = 0, ow_registered = False\<rparr>)"

section \<open>Operations\<close>

definition try_acquire :: "async_tasks \<Rightarrow> nat option \<times> async_tasks" where
  "try_acquire st =
     (if \<not> at_accepting st then (None, st)
      else (Some (at_next_lease st),
            st\<lparr>at_active := at_active st + 1, at_leases := at_next_lease st # at_leases st,
               at_next_lease := at_next_lease st + 1\<rparr>))"

text \<open>The destructor runs once for a lease that exists.\<close>

definition drop_lease :: "nat \<Rightarrow> async_tasks \<Rightarrow> async_tasks" where
  "drop_lease l st =
     (if l \<in> set (at_leases st)
      then st\<lparr>at_active := at_active st - 1, at_leases := remove1 l (at_leases st)\<rparr> else st)"

definition close_admission :: "async_tasks \<Rightarrow> async_tasks" where
  "close_admission st = st\<lparr>at_accepting := False\<rparr>"

definition retain_cleanup :: "nat \<Rightarrow> async_tasks \<Rightarrow> async_tasks" where
  "retain_cleanup ow st =
     (let r = owner_of ow st;
          st1 = st\<lparr>at_cleanup_epoch := at_cleanup_epoch st + 1\<rparr>
      in if \<not> ow_registered r
         then st1\<lparr>at_owners := AList.update ow \<lparr>ow_revision = ow_revision r + 1, ow_registered = True\<rparr> (at_owners st),
                  at_head := ow # at_head st, at_cleanup_count := at_cleanup_count st + 1\<rparr>
         else st1\<lparr>at_owners := AList.update ow (r\<lparr>ow_revision := ow_revision r + 1\<rparr>) (at_owners st)\<rparr>)"

definition notify_cleanup_progress :: "async_tasks \<Rightarrow> async_tasks" where
  "notify_cleanup_progress st = st\<lparr>at_cleanup_epoch := at_cleanup_epoch st + 1\<rparr>"

datatype at_event =
    Acquire
  | DropLease nat
  | CloseAdmission
  | Retain nat
  | Progress

fun at_step :: "async_tasks \<Rightarrow> at_event \<Rightarrow> async_tasks" where
  "at_step st Acquire = snd (try_acquire st)"
| "at_step st (DropLease l) = drop_lease l st"
| "at_step st CloseAdmission = close_admission st"
| "at_step st (Retain ow) = retain_cleanup ow st"
| "at_step st Progress = notify_cleanup_progress st"

text \<open>One turn of the loop of \<open>retry_cleanups\<close>, for an owner taken off the local list.\<close>

definition retry_one :: "bool \<Rightarrow> at_event list \<Rightarrow> nat \<Rightarrow> async_tasks \<Rightarrow> bool \<times> async_tasks" where
  "retry_one ok during ow st =
     (let revision = ow_revision (owner_of ow st);
          st1 = foldl at_step st during;
          r = owner_of ow st1
      in if ok \<and> revision = ow_revision r
         then (True, st1\<lparr>at_owners := AList.update ow (r\<lparr>ow_registered := False\<rparr>) (at_owners st1),
                         at_cleanup_count := at_cleanup_count st1 - 1\<rparr>)
         else (False, st1\<lparr>at_head := ow # at_head st1\<rparr>))"

fun retry_loop :: "(bool \<times> at_event list) list \<Rightarrow> nat list \<Rightarrow> bool \<Rightarrow> async_tasks \<Rightarrow> bool \<times> async_tasks" where
  "retry_loop as [] progressed st = (progressed, st)"
| "retry_loop as (ow # local) progressed st =
     (let (ok, during) = (case as of [] \<Rightarrow> (False, []) | a # _ \<Rightarrow> a);
          (p, st1) = retry_one ok during ow st
      in retry_loop (tl as) local (progressed \<or> p) st1)"

definition retry_cleanups :: "(bool \<times> at_event list) list \<Rightarrow> async_tasks \<Rightarrow> bool \<times> async_tasks" where
  "retry_cleanups as st = retry_loop as (at_head st) False (st\<lparr>at_head := []\<rparr>)"

text \<open>
  One turn of \<open>drain\<close>: a retry pass, the events before the state lock is taken again, whether the
  deadline has passed at the test, and the events while the thread is parked together with whether it
  was woken by its predicate.
\<close>

record drain_turn =
  dt_attempts :: "(bool \<times> at_event list) list"
  dt_between :: "at_event list"
  dt_in_time :: bool
  dt_parked :: "at_event list"

definition quiescent :: "async_tasks \<Rightarrow> bool" where
  "quiescent st \<longleftrightarrow> at_active st = 0 \<and> at_cleanup_count st = 0"

text \<open>\<open>None\<close>: the given turns are over and the call has not returned yet.\<close>

fun drain_loop :: "drain_turn list \<Rightarrow> async_tasks \<Rightarrow> bool option \<times> async_tasks" where
  "drain_loop [] st = (None, st)"
| "drain_loop (d # ds) st =
     (let before_retry = at_cleanup_epoch st;
          (progressed, st1) = retry_cleanups (dt_attempts d) st;
          st2 = foldl at_step st1 (dt_between d)
      in if quiescent st2 then (Some True, st2)
         else if (progressed \<or> at_cleanup_epoch st2 \<noteq> before_retry) \<and> dt_in_time d then drain_loop ds st2
         else let epoch = at_cleanup_epoch st2;
                  st3 = foldl at_step st2 (dt_parked d)
              in if quiescent st3 \<or> at_cleanup_epoch st3 \<noteq> epoch then drain_loop ds st3
                 else (Some False, st3))"

definition drain :: "bool \<Rightarrow> drain_turn list \<Rightarrow> async_tasks \<Rightarrow> bool option \<times> async_tasks" where
  "drain got_retry_lock ds st = (if got_retry_lock then drain_loop ds st else (Some False, st))"

text \<open>The registry destructor terminates the process if a cleanup owner is left.\<close>

definition destroy_terminates :: "async_tasks \<Rightarrow> bool" where
  "destroy_terminates st \<longleftrightarrow> at_head st \<noteq> []"

section \<open>The counters are exact\<close>

text \<open>
  The owners in the list together with those a retry pass holds (\<open>held\<close>) are exactly the registered
  ones, each once, and both counters count what they stand for.
\<close>

definition at_ok :: "nat list \<Rightarrow> async_tasks \<Rightarrow> bool" where
  "at_ok held st \<longleftrightarrow> at_active st = length (at_leases st)
   \<and> at_cleanup_count st = length (at_head st) + length held
   \<and> distinct (at_head st @ held)
   \<and> (\<forall>ow. ow_registered (owner_of ow st) \<longleftrightarrow> ow \<in> set (at_head st @ held))"

lemma owner_of_update [simp]:
  "owner_of ow (st\<lparr>at_owners := AList.update x r (at_owners st)\<rparr>) = (if ow = x then r else owner_of ow st)"
  by (simp add: owner_of_def)

lemma owner_of_cong: "at_owners st' = at_owners st \<Longrightarrow> owner_of ow st' = owner_of ow st"
  by (simp add: owner_of_def)

lemma owner_of_updates [simp]:
  "at_owners st' = AList.update x r (at_owners st) \<Longrightarrow> owner_of ow st' = (if ow = x then r else owner_of ow st)"
  by (simp add: owner_of_def)

lemma retain_ok:
  assumes ok: "at_ok held st"
  shows "at_ok held (retain_cleanup ow st)"
proof (cases "ow_registered (owner_of ow st)")
  case True
  have "owner_of x (retain_cleanup ow st) =
      (if x = ow then (owner_of ow st)\<lparr>ow_revision := ow_revision (owner_of ow st) + 1\<rparr> else owner_of x st)" for x
    using True by (simp add: retain_cleanup_def Let_def owner_of_def)
  with ok True show ?thesis by (auto simp: at_ok_def retain_cleanup_def Let_def)
next
  case False
  then have n: "ow \<notin> set (at_head st @ held)" using ok by (simp add: at_ok_def)
  have "owner_of x (retain_cleanup ow st) =
      (if x = ow then \<lparr>ow_revision = ow_revision (owner_of ow st) + 1, ow_registered = True\<rparr> else owner_of x st)" for x
    using False by (simp add: retain_cleanup_def Let_def owner_of_def)
  with ok False n show ?thesis by (auto simp: at_ok_def retain_cleanup_def Let_def)
qed

interpretation at_run: invariant_step at_step "\<lambda>_. True" "at_ok held" for held
proof
  fix st e assume ok: "at_ok held st"
  show "at_ok held (at_step st e)"
  proof (cases e)
    case Acquire
    with ok show ?thesis by (auto simp: at_ok_def try_acquire_def owner_of_def)
  next
    case (DropLease l)
    with ok show ?thesis by (auto simp: at_ok_def drop_lease_def owner_of_def length_remove1)
  next
    case (Retain ow)
    with ok show ?thesis by (simp add: retain_ok)
  qed (use ok in \<open>auto simp: at_ok_def close_admission_def notify_cleanup_progress_def owner_of_def\<close>)
qed

lemma at_run_ok: "at_ok held st \<Longrightarrow> at_ok held (foldl at_step st es)"
  by (rule at_run.run_inv) (simp_all add: list_all_iff)

lemma retry_one_ok:
  assumes ok: "at_ok (ow # held) st" and r: "retry_one b during ow st = (p, st')"
  shows "at_ok held st'"
proof -
  let ?s = "foldl at_step st during"
  have s: "at_ok (ow # held) ?s" by (rule at_run_ok [OF ok])
  show ?thesis
  proof (cases "b \<and> ow_revision (owner_of ow st) = ow_revision (owner_of ow ?s)")
    case True
    then have st': "st' = ?s\<lparr>at_owners := AList.update ow ((owner_of ow ?s)\<lparr>ow_registered := False\<rparr>) (at_owners ?s),
        at_cleanup_count := at_cleanup_count ?s - 1\<rparr>" using r by (simp add: retry_one_def Let_def)
    have "owner_of x st' = (if x = ow then (owner_of ow ?s)\<lparr>ow_registered := False\<rparr> else owner_of x ?s)" for x
      unfolding st' by (simp add: owner_of_def)
    with s show ?thesis unfolding at_ok_def by (auto simp: st')
  next
    case False
    then have st': "st' = ?s\<lparr>at_head := ow # at_head ?s\<rparr>" using r by (auto simp: retry_one_def Let_def)
    have "owner_of x st' = owner_of x ?s" for x unfolding st' by (simp add: owner_of_def)
    with s show ?thesis unfolding at_ok_def by (auto simp: st')
  qed
qed

lemma retry_loop_ok: "at_ok local st \<Longrightarrow> retry_loop as local p st = (q, st') \<Longrightarrow> at_ok [] st'"
proof (induction as local p st rule: retry_loop.induct)
  case (2 as ow local p st)
  obtain ok during where a: "(case as of [] \<Rightarrow> (False, []) | a # _ \<Rightarrow> a) = (ok, during)"
    by (cases "case as of [] \<Rightarrow> (False, []) | a # _ \<Rightarrow> a")
  obtain p1 st1 where r: "retry_one ok during ow st = (p1, st1)" by (cases "retry_one ok during ow st")
  from 2 a r retry_one_ok [OF "2.prems"(1) r] show ?case by simp
qed simp

lemma retry_cleanups_ok:
  assumes ok: "at_ok [] st" and "retry_cleanups as st = (p, st')"
  shows "at_ok [] st'"
proof -
  have "owner_of x (st\<lparr>at_head := []\<rparr>) = owner_of x st" for x by (simp add: owner_of_def)
  then have "at_ok (at_head st) (st\<lparr>at_head := []\<rparr>)" using ok by (simp add: at_ok_def)
  then show ?thesis using assms(2) retry_loop_ok unfolding retry_cleanups_def by blast
qed

lemma drain_loop_ok: "at_ok [] st \<Longrightarrow> drain_loop ds st = (a, st') \<Longrightarrow> at_ok [] st'"
proof (induction ds st rule: drain_loop.induct)
  case (2 d ds st)
  obtain p st1 where r: "retry_cleanups (dt_attempts d) st = (p, st1)" by (cases "retry_cleanups (dt_attempts d) st")
  let ?s2 = "foldl at_step st1 (dt_between d)" and ?s3 = "foldl at_step (foldl at_step st1 (dt_between d)) (dt_parked d)"
  have "at_ok [] ?s2" by (rule at_run_ok [OF retry_cleanups_ok [OF "2.prems"(1) r]])
  moreover from this have "at_ok [] ?s3" by (rule at_run_ok)
  ultimately show ?case using 2 r by (auto simp: Let_def split: if_splits)
qed simp

lemma drain_loop_True: "drain_loop ds st = (Some True, st') \<Longrightarrow> quiescent st'"
  by (induction ds st rule: drain_loop.induct) (auto simp: Let_def split: if_splits prod.splits)

section \<open>Retained again while it is retried\<close>

lemma revision_mono: "ow_revision (owner_of ow st) \<le> ow_revision (owner_of ow (at_step st e))"
  by (cases e) (auto simp: try_acquire_def drop_lease_def close_admission_def notify_cleanup_progress_def
      retain_cleanup_def Let_def owner_of_def)

lemma revision_mono_run: "ow_revision (owner_of ow st) \<le> ow_revision (owner_of ow (foldl at_step st es))"
  by (induction es arbitrary: st) (auto intro: order_trans revision_mono simp del: at_step.simps)

lemma revision_retain: "ow_revision (owner_of ow st) < ow_revision (owner_of ow (retain_cleanup ow st))"
  by (auto simp: retain_cleanup_def Let_def owner_of_def)

lemma revision_retained:
  assumes "Retain ow \<in> set es"
  shows "ow_revision (owner_of ow st) < ow_revision (owner_of ow (foldl at_step st es))"
proof -
  obtain xs ys where es: "es = xs @ Retain ow # ys" using assms by (meson split_list)
  let ?s = "foldl at_step st xs"
  have "ow_revision (owner_of ow st) \<le> ow_revision (owner_of ow ?s)" by (rule revision_mono_run)
  also have "\<dots> < ow_revision (owner_of ow (retain_cleanup ow ?s))" by (rule revision_retain)
  also have "\<dots> \<le> ow_revision (owner_of ow (foldl at_step (retain_cleanup ow ?s) ys))" by (rule revision_mono_run)
  finally show ?thesis by (simp add: es)
qed

lemma head_grows: "set (at_head st) \<subseteq> set (at_head (foldl at_step st es))"
proof (induction es arbitrary: st)
  case (Cons e es)
  have "set (at_head st) \<subseteq> set (at_head (at_step st e))"
    by (cases e) (auto simp: try_acquire_def drop_lease_def close_admission_def notify_cleanup_progress_def
      retain_cleanup_def Let_def)
  with Cons.IH [of "at_step st e"] show ?case by auto
qed simp

lemma retry_one_head: "set (at_head st) \<subseteq> set (at_head (snd (retry_one b during ow st)))"
  using head_grows [of st during] by (auto simp: retry_one_def Let_def)

lemma retry_loop_head: "set (at_head st) \<subseteq> set (at_head (snd (retry_loop as local p st)))"
proof (induction as local p st rule: retry_loop.induct)
  case (2 as ow local p st)
  obtain ok during where a: "(case as of [] \<Rightarrow> (False, []) | a # _ \<Rightarrow> a) = (ok, during)"
    by (cases "case as of [] \<Rightarrow> (False, []) | a # _ \<Rightarrow> a")
  obtain p1 st1 where r: "retry_one ok during ow st = (p1, st1)" by (cases "retry_one ok during ow st")
  have "set (at_head st1) \<subseteq> set (at_head (snd (retry_loop (tl as) local (p \<or> p1) st1)))"
    by (rule "2.IH" [OF a [symmetric] refl r [symmetric] refl])
  with retry_one_head [of st ok during ow] a r show ?case by simp
qed simp

lemma retry_one_retained:
  assumes ok: "at_ok (x # held) st" and r: "Retain ow \<in> set during" and n: "ow = x \<or> ow \<notin> set (x # held)"
  shows "ow \<in> set (at_head (snd (retry_one b during x st)))"
proof (cases "ow = x")
  case True
  with revision_retained [OF r, of st] show ?thesis by (simp add: retry_one_def Let_def)
next
  case False
  let ?s = "foldl at_step st during"
  obtain xs ys where es: "during = xs @ Retain ow # ys" using r by (meson split_list)
  let ?q = "retain_cleanup ow (foldl at_step st xs)"
  have "at_ok (x # held) ?q" by (rule retain_ok [OF at_run_ok [OF ok]])
  moreover have "ow_registered (owner_of ow ?q)" by (auto simp: retain_cleanup_def Let_def owner_of_def)
  ultimately have "ow \<in> set (at_head ?q)" using n False by (auto simp: at_ok_def)
  with head_grows [of ?q ys] have "ow \<in> set (at_head ?s)" by (auto simp: es)
  then show ?thesis by (auto simp: retry_one_def Let_def)
qed

lemma retry_loop_retained:
  "at_ok local st \<Longrightarrow> j < length local \<Longrightarrow> j < length as \<Longrightarrow> Retain ow \<in> set (snd (as ! j)) \<Longrightarrow>
   ow \<notin> set local \<or> (\<exists>i\<le>j. local ! i = ow) \<Longrightarrow> ow \<in> set (at_head (snd (retry_loop as local p st)))"
proof (induction as local p st arbitrary: j rule: retry_loop.induct)
  case (2 as x local p st)
  obtain ok during as' where as: "as = (ok, during) # as'" using "2.prems"(3) by (cases as) auto
  obtain p1 st1 where r: "retry_one ok during x st = (p1, st1)" by (cases "retry_one ok during x st")
  have rec: "snd (retry_loop as (x # local) p st) = snd (retry_loop as' local (p \<or> p1) st1)" using as r by simp
  have ok1: "at_ok local st1" by (rule retry_one_ok [OF "2.prems"(1) r])
  show ?case
  proof (cases j)
    case 0
    then have "ow = x \<or> ow \<notin> set (x # local)" using "2.prems"(5) by auto
    with 0 "2.prems"(4) as retry_one_retained [OF "2.prems"(1), of ow during ok] r have "ow \<in> set (at_head st1)"
      by simp
    then show ?thesis unfolding rec using retry_loop_head by blast
  next
    case (Suc k)
    have d: "x \<notin> set local" using "2.prems"(1) by (simp add: at_ok_def)
    have "ow \<notin> set local \<or> (\<exists>i\<le>k. local ! i = ow)"
    proof (cases "ow \<in> set (x # local)")
      case True
      with "2.prems"(5) obtain i where i: "i \<le> j" "(x # local) ! i = ow" by auto
      with Suc d show ?thesis by (cases i) auto
    qed simp
    then show ?thesis unfolding rec
      using "2.IH" [OF _ refl _ refl, of ok during p1 st1 k] as r ok1 "2.prems"(2,3,4) Suc by simp
  qed
qed simp

section \<open>Properties\<close>

text \<open>
  C21: A successful drain means that nothing is left: no lease exists, no cleanup owner is registered,
  and destroying the registry does not terminate the process, whatever happened concurrently.
\<close>

theorem drain_true_means_drained:
  assumes "drain lock ds (foldl at_step initial_async_tasks es) = (Some True, st)"
  shows "at_leases st = [] \<and> \<not> ow_registered (owner_of ow st) \<and> \<not> destroy_terminates st"
proof -
  have "at_ok [] initial_async_tasks" by (simp add: at_ok_def initial_async_tasks_def owner_of_def)
  then have "at_ok [] (foldl at_step initial_async_tasks es)" by (rule at_run_ok)
  moreover have l: "drain_loop ds (foldl at_step initial_async_tasks es) = (Some True, st)"
    using assms by (simp add: drain_def split: if_splits)
  ultimately have "at_ok [] st" by (rule drain_loop_ok)
  with drain_loop_True [OF l] show ?thesis by (auto simp: at_ok_def quiescent_def destroy_terminates_def)
qed

definition demo_turn :: drain_turn where
  "demo_turn = \<lparr>dt_attempts = [(True, [])], dt_between = [DropLease 0], dt_in_time = True, dt_parked = []\<rparr>"

theorem drain_true_means_drained_witness:
  "at_leases (snd (drain True [demo_turn] (foldl at_step initial_async_tasks [Acquire, Retain 7, CloseAdmission]))) = []"
proof -
  let ?x = "drain True [demo_turn] (foldl at_step initial_async_tasks [Acquire, Retain 7, CloseAdmission])"
  have "fst ?x = Some True" by code_simp
  then have "?x = (Some True, snd ?x)" by (simp add: prod_eq_iff)
  from drain_true_means_drained [OF this] show ?thesis by blast
qed

text \<open>
  No cleanup obligation is lost to a race with its own retry: if an owner is retained again during
  the pass, while it is being retried or after, it is in the registry when the pass ends even if the
  retry reported success.
\<close>

theorem retain_during_retry_kept:
  assumes "st = foldl at_step initial_async_tasks es"
    and "i < length (at_head st)" and "i \<le> j" and "j < length (at_head st)" and "j < length as"
    and "Retain (at_head st ! i) \<in> set (snd (as ! j))"
  shows "at_head st ! i \<in> set (at_head (snd (retry_cleanups as st)))"
proof -
  have "at_ok [] initial_async_tasks" by (simp add: at_ok_def initial_async_tasks_def owner_of_def)
  then have ok: "at_ok [] st" unfolding assms(1) by (rule at_run_ok)
  have "owner_of x (st\<lparr>at_head := []\<rparr>) = owner_of x st" for x by (simp add: owner_of_def)
  then have "at_ok (at_head st) (st\<lparr>at_head := []\<rparr>)" using ok by (simp add: at_ok_def)
  from retry_loop_retained [OF this assms(4,5,6)] assms(3) show ?thesis
    unfolding retry_cleanups_def by blast
qed

theorem retain_during_retry_kept_witness:
  "7 \<in> set (at_head (snd (retry_cleanups [(True, [Retain 7])] (foldl at_step initial_async_tasks [Retain 7]))))"
proof -
  have h: "at_head (foldl at_step initial_async_tasks [Retain 7]) = [7]" by code_simp
  from retain_during_retry_kept [OF refl, of 0 "[Retain 7]" 0 "[(True, [Retain 7])]"] show ?thesis unfolding h by simp
qed

end
