(* ===== verification/Emit.thy ===== *)
theory Emit
  imports Channels Json
begin

text \<open>
  Emission of realtime envelopes: \<open>realtime/emit.cpp\<close>. JsonCpp's compact writer, the configured
  ceiling and the outbox function in PostgreSQL are parameters: the writer \<open>write\<close>, the number
  \<open>max_bytes\<close> and the outcome \<open>enqueue\<close> of the query on a payload.
\<close>

datatype notify_error = MISSING_LAYER | INVALID_CHANNEL | LAYER_MISMATCH | PAYLOAD_TOO_LARGE | PG_FAILURE

definition validate_envelope :: "(json \<Rightarrow> string) \<Rightarrow> nat \<Rightarrow> json \<Rightarrow> string + notify_error" where
  "validate_envelope write max_bytes envelope =
     (if \<not> is_object envelope \<or> \<not> is_member ''layer'' envelope
         \<or> \<not> is_string (get_member ''layer'' envelope)
      then Inr MISSING_LAYER
      else if \<not> is_member ''channel'' envelope \<or> \<not> is_string (get_member ''channel'' envelope)
      then Inr INVALID_CHANNEL
      else let layer = as_string (get_member ''layer'' envelope);
               channel = as_string (get_member ''channel'' envelope)
           in if \<not> validate_channel channel then Inr INVALID_CHANNEL
              else let ch_layer = channel_layer_of channel;
                       consistent = (ch_layer = DATA \<and> layer = ''data''
                                     \<or> ch_layer = SYSTEM \<and> layer = ''system''
                                     \<or> ch_layer = EXTENSION \<and> layer = ''extension'')
                   in if \<not> consistent then Inr LAYER_MISMATCH
                      else let serialized = write envelope
                           in if length serialized > max_bytes then Inr PAYLOAD_TOO_LARGE
                              else Inl serialized)"

text \<open>
  Both emit helpers validate and then run one query; \<open>enqueue p = False\<close> is a failed result of the
  synchronous one and an exception of the asynchronous one. \<open>None\<close> is success.
\<close>

definition emit_notify :: "(json \<Rightarrow> string) \<Rightarrow> nat \<Rightarrow> (string \<Rightarrow> bool) \<Rightarrow> json \<Rightarrow> notify_error option" where
  "emit_notify write max_bytes enqueue envelope =
     (case validate_envelope write max_bytes envelope of
        Inr e \<Rightarrow> Some e
      | Inl serialized \<Rightarrow> if enqueue serialized then None else Some PG_FAILURE)"

fun notify_error_name :: "notify_error \<Rightarrow> string" where
  "notify_error_name MISSING_LAYER = ''MISSING_LAYER''"
| "notify_error_name INVALID_CHANNEL = ''INVALID_CHANNEL''"
| "notify_error_name LAYER_MISMATCH = ''LAYER_MISMATCH''"
| "notify_error_name PAYLOAD_TOO_LARGE = ''PAYLOAD_TOO_LARGE''"
| "notify_error_name PG_FAILURE = ''PG_FAILURE''"

lemma validate_envelope_InlD:
  "validate_envelope write n v = Inl s \<Longrightarrow>
     s = write v \<and> length s \<le> n \<and> validate_channel (as_string (get_member ''channel'' v))"
  by (auto simp: validate_envelope_def Let_def split: if_splits)

lemma emit_notify_channel:
  "is_string (get_member ''layer'' v) \<Longrightarrow> is_member ''layer'' v \<Longrightarrow>
   \<not> validate_channel (as_string (get_member ''channel'' v)) \<Longrightarrow>
     is_object v \<Longrightarrow> emit_notify write n q v = Some INVALID_CHANNEL"
  by (simp add: emit_notify_def validate_envelope_def)

lemma emit_notify_None:
  "emit_notify write n q v = None \<longleftrightarrow> (\<exists>s. validate_envelope write n v = Inl s \<and> q s)"
  by (auto simp: emit_notify_def split: sum.splits)

end
