(* ===== verification/Sql_Classify.thy ===== *)
theory Sql_Classify
  imports Cpp_Strings
begin

text \<open>
  The write classifier of the coalescer: \<open>realtime/sql_classify.cpp\<close>. The scanning position is the
  unread rest of the statement; log lines are not modelled. The section on separators states what the
  scanner skips as data (blanks, line and block comments), so that completeness can be stated for
  every way of laying a statement out.
\<close>

section \<open>The scanner\<close>

definition to_lower :: "char \<Rightarrow> char" where
  "to_lower c = (if char_in (CHR ''A'') (CHR ''Z'') c then char_of (of_char c + (32 :: nat)) else c)"

definition sql_ident_start :: "char \<Rightarrow> bool" where
  "sql_ident_start c \<longleftrightarrow> is_lower_char c \<or> char_in (CHR ''A'') (CHR ''Z'') c \<or> c = CHR ''_''"

definition sql_ident_rest :: "char \<Rightarrow> bool" where
  "sql_ident_rest c \<longleftrightarrow> sql_ident_start c \<or> is_digit_char c"

definition is_space :: "char \<Rightarrow> bool" where
  "is_space c \<longleftrightarrow> c \<in> set [CHR '' '', CHR 0x09, CHR 0x0A, CHR 0x0D, CHR 0x0C, CHR 0x0B]"

text \<open>The inside of a block comment, up to and past its end; everything when it does not end.\<close>

fun skip_block :: "string \<Rightarrow> string" where
  "skip_block (c # d # s) = (if c = CHR ''*'' \<and> d = CHR ''/'' then s else skip_block (d # s))"
| "skip_block _ = []"

lemma length_skip_block: "length (skip_block s) \<le> length s"
  by (induction s rule: skip_block.induct) auto

function skip_ws_and_comments :: "string \<Rightarrow> string" where
  "skip_ws_and_comments s =
     (if s = [] then []
      else if is_space (hd s) then skip_ws_and_comments (tl s)
      else if prefix ''--'' s then skip_ws_and_comments (dropWhile (\<lambda>c. c \<noteq> CHR 0x0A) (drop 2 s))
      else if prefix ''/*'' s then skip_ws_and_comments (skip_block (drop 2 s))
      else s)"
  by pat_completeness auto
termination
proof (relation "measure length")
  fix s :: string assume "s \<noteq> []" and p: "prefix ''--'' s"
  have "length (dropWhile (\<lambda>c. c \<noteq> CHR 0x0A) (drop 2 s)) \<le> length (drop 2 s)"
    by (rule length_dropWhile_le)
  with p \<open>s \<noteq> []\<close> show "(dropWhile (\<lambda>c. c \<noteq> CHR 0x0A) (drop 2 s), s) \<in> measure length"
    by (cases s) auto
next
  fix s :: string assume "s \<noteq> []" and p: "prefix ''/*'' s"
  have "length (skip_block (drop 2 s)) \<le> length (drop 2 s)" by (rule length_skip_block)
  with p \<open>s \<noteq> []\<close> show "(skip_block (drop 2 s), s) \<in> measure length" by (cases s) auto
qed auto

declare skip_ws_and_comments.simps [simp del]

definition consume_keyword :: "string \<Rightarrow> string \<Rightarrow> string option" where
  "consume_keyword s kw =
     (if length kw > length s then None
      else if map to_lower (take (length kw) s) \<noteq> map to_lower kw then None
      else let after = drop (length kw) s
           in if after \<noteq> [] \<and> sql_ident_rest (hd after) then None else Some after)"

definition consume_ident_lower :: "string \<Rightarrow> (string \<times> string) option" where
  "consume_ident_lower s =
     (if s = [] \<or> \<not> sql_ident_start (hd s) then None
      else Some (to_lower (hd s) # map to_lower (takeWhile sql_ident_rest (tl s)),
                 dropWhile sql_ident_rest (tl s)))"

text \<open>The first identifier, the second when a dot follows, and the rest.\<close>

definition consume_qualified_or_bare :: "string \<Rightarrow> (string \<times> string option \<times> string) option" where
  "consume_qualified_or_bare s =
     (case consume_ident_lower s of
        None \<Rightarrow> None
      | Some (first, r) \<Rightarrow>
          if r \<noteq> [] \<and> hd r = CHR ''.''
          then (case consume_ident_lower (tl r) of
                  None \<Rightarrow> None
                | Some (second, r2) \<Rightarrow> Some (first, Some second, r2))
          else Some (first, None, r))"

datatype op_kind = INSERT | UPDATE | DELETE

record sql_class =
  sc_schema :: string
  sc_table :: string
  sc_op_kind :: op_kind

text \<open>The verb: the operation and what follows it, or \<open>None\<close> where the statement is skipped.\<close>

definition classify_verb :: "string \<Rightarrow> (op_kind \<times> string) option" where
  "classify_verb s =
     (case consume_keyword s ''INSERT'' of
        Some r \<Rightarrow> map_option (Pair INSERT) (consume_keyword (skip_ws_and_comments r) ''INTO'')
      | None \<Rightarrow>
         (case consume_keyword s ''UPDATE'' of
            Some r \<Rightarrow> Some (UPDATE, r)
          | None \<Rightarrow>
             (case consume_keyword s ''DELETE'' of
                Some r \<Rightarrow> map_option (Pair DELETE) (consume_keyword (skip_ws_and_comments r) ''FROM'')
              | None \<Rightarrow> None)))"

definition classify_sql :: "string \<Rightarrow> string \<Rightarrow> sql_class option" where
  "classify_sql sql ext_name =
     (let s = skip_ws_and_comments sql in
      if s = [] then None
      else case classify_verb s of
             None \<Rightarrow> None
           | Some (op, r) \<Rightarrow>
               (case consume_qualified_or_bare (skip_ws_and_comments r) of
                  None \<Rightarrow> None
                | Some (first, Some second, _) \<Rightarrow>
                    Some \<lparr>sc_schema = first, sc_table = second, sc_op_kind = op\<rparr>
                | Some (first, None, _) \<Rightarrow>
                    if ext_name = [] then None
                    else Some \<lparr>sc_schema = ''ext_'' @ ext_name, sc_table = first, sc_op_kind = op\<rparr>))"

section \<open>What is skipped\<close>

datatype sep = Blank char | Line string | Block string

fun wf_sep :: "sep \<Rightarrow> bool" where
  "wf_sep (Blank c) \<longleftrightarrow> is_space c"
| "wf_sep (Line s) \<longleftrightarrow> CHR 0x0A \<notin> set s"
| "wf_sep (Block s) \<longleftrightarrow> \<not> sublist ''*/'' (s @ ''*'')"

fun print_sep :: "sep \<Rightarrow> string" where
  "print_sep (Blank c) = [c]"
| "print_sep (Line s) = ''--'' @ s @ [CHR 0x0A]"
| "print_sep (Block s) = ''/*'' @ s @ ''*/''"

abbreviation seps :: "sep list \<Rightarrow> string" where
  "seps zs \<equiv> concat (map print_sep zs)"

lemma skip_block_end: "\<not> sublist ''*/'' (s @ ''*'') \<Longrightarrow> skip_block (s @ ''*/'' @ r) = r"
proof (induction s)
  case (Cons c s)
  have "\<not> sublist ''*/'' (s @ ''*'')" using Cons.prems by (auto simp: sublist_Cons_right)
  note ih = Cons.IH [OF this]
  show ?case
  proof (cases s)
    case Nil
    then show ?thesis by simp
  next
    case (Cons d t)
    have "\<not> (c = CHR ''*'' \<and> d = CHR ''/'')"
      using Cons.prems Cons by (auto simp: sublist_Cons_right)
    then show ?thesis using ih Cons by simp
  qed
qed simp

lemma space_not_dash: "is_space c \<Longrightarrow> c \<noteq> CHR ''-'' \<and> c \<noteq> CHR ''/''"
  by (auto simp: is_space_def)

lemma skip_sep: "wf_sep z \<Longrightarrow> skip_ws_and_comments (print_sep z @ s) = skip_ws_and_comments s"
proof (cases z)
  case (Blank c)
  assume "wf_sep z"
  with Blank show ?thesis by (subst skip_ws_and_comments.simps) simp
next
  case (Line t)
  assume "wf_sep z"
  with Line have "dropWhile (\<lambda>c. c \<noteq> CHR 0x0A) (t @ CHR 0x0A # s) = CHR 0x0A # s"
    by simp
  then have "skip_ws_and_comments (print_sep z @ s) = skip_ws_and_comments (CHR 0x0A # s)"
    using Line by (subst skip_ws_and_comments.simps) (simp add: is_space_def)
  then show ?thesis by (subst (asm) (2) skip_ws_and_comments.simps) (simp add: is_space_def)
next
  case (Block t)
  assume "wf_sep z"
  then show ?thesis using Block skip_block_end [of t s]
    by (subst skip_ws_and_comments.simps) (simp add: is_space_def)
qed

lemma skip_seps: "list_all wf_sep zs \<Longrightarrow> skip_ws_and_comments (seps zs @ s) = skip_ws_and_comments s"
  by (induction zs) (simp_all add: skip_sep)

lemma seps_hd: "zs \<noteq> [] \<Longrightarrow> list_all wf_sep zs \<Longrightarrow> seps zs @ r \<noteq> [] \<and> \<not> sql_ident_rest (hd (seps zs @ r))"
proof (cases zs)
  case (Cons z ys)
  assume "list_all wf_sep zs"
  with Cons show ?thesis
    by (cases z) (auto simp: sql_ident_rest_def sql_ident_start_def is_space_def char_in_def)
qed simp

lemma skip_ident:
  assumes "s \<noteq> []" and "sql_ident_start (hd s)"
  shows "skip_ws_and_comments s = s"
proof -
  have "hd s \<noteq> CHR ''-''" "hd s \<noteq> CHR ''/''" "\<not> is_space (hd s)"
    using assms(2) by (auto simp: sql_ident_start_def is_space_def char_in_def)
  then show ?thesis using assms(1) by (subst skip_ws_and_comments.simps) (cases s, auto)
qed

section \<open>Keywords and identifiers\<close>

definition spells :: "string \<Rightarrow> string \<Rightarrow> bool" where
  "spells v kw \<longleftrightarrow> map to_lower v = map to_lower kw"

lemma spells_length: "spells v kw \<Longrightarrow> length v = length kw"
  by (metis length_map spells_def)

lemma consume_keyword_spelled:
  "spells v kw \<Longrightarrow> r = [] \<or> \<not> sql_ident_rest (hd r) \<Longrightarrow> consume_keyword (v @ r) kw = Some r"
  using spells_length [of v kw] by (auto simp: consume_keyword_def spells_def Let_def)

lemma consume_keyword_other:
  "spells v kw \<Longrightarrow> length kw' = length kw \<Longrightarrow> map to_lower kw' \<noteq> map to_lower kw \<Longrightarrow>
     consume_keyword (v @ r) kw' = None"
  using spells_length [of v kw] by (auto simp: consume_keyword_def spells_def)

definition sql_ident :: "string \<Rightarrow> bool" where
  "sql_ident a \<longleftrightarrow> a \<noteq> [] \<and> sql_ident_start (hd a) \<and> list_all sql_ident_rest (tl a)"

lemma consume_ident_lower_append:
  assumes "sql_ident a" and "r = [] \<or> \<not> sql_ident_rest (hd r)"
  shows "consume_ident_lower (a @ r) = Some (map to_lower a, r)"
proof -
  obtain c t where a: "a = c # t" "sql_ident_start c" "list_all sql_ident_rest t"
    using assms(1) by (cases a) (auto simp: sql_ident_def)
  have "takeWhile sql_ident_rest (t @ r) = t \<and> dropWhile sql_ident_rest (t @ r) = r"
    using a(3) assms(2) by (induction t) (cases r, auto)
  then show ?thesis using a by (simp add: consume_ident_lower_def)
qed

text \<open>The letters of a spelled keyword start an identifier, so nothing is skipped before it.\<close>

lemma to_lower_letter: "to_lower c = to_lower d \<Longrightarrow> char_in (CHR ''A'') (CHR ''Z'') d \<Longrightarrow> sql_ident_start c"
proof -
  assume e: "to_lower c = to_lower d" and d: "char_in (CHR ''A'') (CHR ''Z'') d"
  show ?thesis
  proof (cases "char_in (CHR ''A'') (CHR ''Z'') c")
    case False
    then have "c = to_lower d" using e by (simp add: to_lower_def)
    moreover have "of_char d + (32 :: nat) < 256" using d by (simp add: char_in_def)
    ultimately have "of_char c = of_char d + (32 :: nat)"
      using d by (simp add: to_lower_def)
    then show ?thesis using d by (simp add: sql_ident_start_def char_in_def)
  qed (simp add: sql_ident_start_def)
qed

lemma skip_spelled:
  assumes "spells v (k # ks)" and "char_in (CHR ''A'') (CHR ''Z'') k"
  shows "skip_ws_and_comments (v @ r) = v @ r"
  using assms to_lower_letter by (intro skip_ident) (auto simp: spells_def)

section \<open>Whole statements\<close>

text \<open>A verb in any case, its two words separated by at least one blank or comment.\<close>

definition two_words :: "string \<Rightarrow> string \<Rightarrow> string \<Rightarrow> bool" where
  "two_words t a b \<longleftrightarrow> (\<exists>v zs w. t = v @ seps zs @ w \<and> spells v a \<and> spells w b
     \<and> zs \<noteq> [] \<and> list_all wf_sep zs)"

fun verb_text :: "op_kind \<Rightarrow> string \<Rightarrow> bool" where
  "verb_text INSERT t \<longleftrightarrow> two_words t ''INSERT'' ''INTO''"
| "verb_text UPDATE t \<longleftrightarrow> spells t ''UPDATE''"
| "verb_text DELETE t \<longleftrightarrow> two_words t ''DELETE'' ''FROM''"

lemma letters: "char_in (CHR ''A'') (CHR ''Z'') (CHR ''I'')" "char_in (CHR ''A'') (CHR ''Z'') (CHR ''U'')"
  "char_in (CHR ''A'') (CHR ''Z'') (CHR ''D'')" "char_in (CHR ''A'') (CHR ''Z'') (CHR ''F'')"
  by (simp_all add: char_in_def)

lemma keywords_differ:
  "map to_lower ''INSERT'' \<noteq> map to_lower ''UPDATE''" "map to_lower ''INSERT'' \<noteq> map to_lower ''DELETE''"
  "map to_lower ''UPDATE'' \<noteq> map to_lower ''DELETE''"
  by code_simp+

lemma classify_verb_text:
  assumes "verb_text op t" and r: "r = [] \<or> \<not> sql_ident_rest (hd r)"
  shows "classify_verb (t @ r) = Some (op, r) \<and> skip_ws_and_comments (t @ r) = t @ r \<and> t \<noteq> []"
proof -
  have two: "consume_keyword (t @ r) (a # as) = Some (seps zs @ w @ r)
      \<and> skip_ws_and_comments (seps zs @ w @ r) = w @ r
      \<and> consume_keyword (w @ r) (b # bs) = Some r \<and> skip_ws_and_comments (t @ r) = t @ r"
    if "t = v @ seps zs @ w" "spells v (a # as)" "spells w (b # bs)" "zs \<noteq> []" "list_all wf_sep zs"
      "char_in (CHR ''A'') (CHR ''Z'') a" "char_in (CHR ''A'') (CHR ''Z'') b"
    for v zs w a as b bs
    using that seps_hd [OF that(4,5), of "w @ r"] consume_keyword_spelled [OF that(2), of "seps zs @ w @ r"]
      consume_keyword_spelled [OF that(3) r] skip_spelled [OF that(3,7), of r]
      skip_spelled [OF that(2,6), of "seps zs @ w @ r"]
    by (simp add: skip_seps)
  show ?thesis
  proof (cases op)
    case INSERT
    with assms(1) obtain v zs w where "t = v @ seps zs @ w" "spells v ''INSERT''" "spells w ''INTO''"
      "zs \<noteq> []" "list_all wf_sep zs" by (auto simp: two_words_def)
    from two [OF this letters(1,1)] this(1,2) INSERT show ?thesis
      by (auto simp: classify_verb_def spells_def)
  next
    case UPDATE
    then have s: "spells t ''UPDATE''" using assms(1) by simp
    then show ?thesis using UPDATE consume_keyword_spelled [OF s r] skip_spelled [OF s letters(2)]
        consume_keyword_other [OF s _ keywords_differ(1)]
      by (auto simp: classify_verb_def spells_def)
  next
    case DELETE
    with assms(1) obtain v zs w where d: "t = v @ seps zs @ w" "spells v ''DELETE''" "spells w ''FROM''"
      "zs \<noteq> []" "list_all wf_sep zs" by (auto simp: two_words_def)
    from two [OF this letters(3,4)] d(1,2) DELETE show ?thesis
      using consume_keyword_other [OF d(2) _ keywords_differ(2)]
        consume_keyword_other [OF d(2) _ keywords_differ(3)]
      by (auto simp: classify_verb_def spells_def)
  qed
qed

lemma sql_ident_hd: "sql_ident a \<Longrightarrow> skip_ws_and_comments (a @ r) = a @ r"
  by (rule skip_ident) (auto simp: sql_ident_def)

lemma dot_not_ident [simp]: "\<not> sql_ident_rest (CHR ''.'')"
  by (simp add: sql_ident_rest_def sql_ident_start_def char_in_def)

lemma classify_sql_head:
  assumes v: "verb_text op t" and z: "list_all wf_sep zs0" "list_all wf_sep zs" "zs \<noteq> []"
    and a: "sql_ident a"
  shows "classify_sql (seps zs0 @ t @ seps zs @ a @ r) ext =
    (case consume_qualified_or_bare (a @ r) of
       None \<Rightarrow> None
     | Some (first, Some second, _) \<Rightarrow> Some \<lparr>sc_schema = first, sc_table = second, sc_op_kind = op\<rparr>
     | Some (first, None, _) \<Rightarrow> if ext = [] then None
         else Some \<lparr>sc_schema = ''ext_'' @ ext, sc_table = first, sc_op_kind = op\<rparr>)"
  using classify_verb_text [OF v, of "seps zs @ a @ r"] seps_hd [OF z(3,2), of "a @ r"]
    skip_seps [OF z(1)] skip_seps [OF z(2)] sql_ident_hd [OF a]
  by (simp add: classify_sql_def Let_def)

section \<open>Properties\<close>





end
