(* ===== verification/Coalescer.thy ===== *)
theory Coalescer
  imports Emit Sql_Classify
begin

text \<open>
  The database-write coalescer: \<open>realtime/coalescer.cpp\<close>. Writes to a table accumulate in a window
  that is flushed as one envelope by a timer, by a drain of the owning extension or at shutdown;
  writes of a database batch accumulate under its scope until commit or rollback.

  The registry's globals are the record \<open>coalescer\<close>. Each entry point is atomic; the timer callback
  of a key may run between any two of them. The last four fields are history variables, read by no
  operation: the rows accepted, the windows sent, the windows whose flush failed and were dropped, and
  the windows rolled back. The environment (JsonCpp's writer, the database, the clocks) is the record
  \<open>co_env\<close>; counters are unbounded where the source has 64 bits.
\<close>

section \<open>State\<close>

type_synonym wkey = "string \<times> string"

record window_state =
  ws_schema :: string
  ws_table :: string
  ws_opened_at :: time_ns
  insert_rows :: nat
  update_rows :: nat
  delete_rows :: nat
  ws_extension :: string
  ws_timer_id :: nat
  notify_count :: nat
  window_open_ts_ms :: int

record co_env =
  ev_write :: "json \<Rightarrow> string"
  ev_max_bytes :: nat
  ev_db_client :: bool
  ev_enqueue :: "nat \<Rightarrow> string \<Rightarrow> bool"
  ev_steady :: clock
  ev_wall_ms :: "nat \<Rightarrow> int"
  ev_emit_superseded :: bool
  ev_audit_ready :: bool

record coalescer =
  g_windows :: "(wkey \<times> window_state) list"
  g_scope_to_buckets :: "(nat \<times> (wkey \<times> window_state) list) list"
  cfg_enabled :: bool
  cfg_window_ms :: nat
  g_running :: bool
  g_shutting_down :: bool
  g_discarded_flush_failed :: bool
  g_loop_thread :: bool
  g_timers :: "(nat \<times> wkey) list"
  g_next_timer :: nat
  g_emit_hook :: "(json \<Rightarrow> notify_error option) option"
  co_reads :: nat
  co_queries :: nat
  co_audits :: "(string \<times> json) list"
  co_accepted :: "(wkey \<times> op_kind \<times> nat) list"
  co_sent :: "window_state list"
  co_lost :: "window_state list"
  co_rolled_back :: "window_state list"

definition initial_coalescer :: coalescer where
  "initial_coalescer = \<lparr>g_windows = [], g_scope_to_buckets = [], cfg_enabled = True, cfg_window_ms = 50,
     g_running = False, g_shutting_down = False, g_discarded_flush_failed = False, g_loop_thread = False,
     g_timers = [], g_next_timer = 1, g_emit_hook = None, co_reads = 0, co_queries = 0, co_audits = [],
     co_accepted = [], co_sent = [], co_lost = [], co_rolled_back = []\<rparr>"

section \<open>Flushing\<close>

definition channel_of :: "window_state \<Rightarrow> string" where
  "channel_of w = ''plinth:data:'' @ ws_schema w @ ''.'' @ ws_table w"

definition op_entry :: "string \<Rightarrow> nat \<Rightarrow> json" where
  "op_entry name count = set_member ''count'' (JInt (int count)) (set_member ''op'' (JString name) (JObject []))"

definition build_envelope :: "window_state \<Rightarrow> nat \<Rightarrow> bool \<Rightarrow> bool \<Rightarrow> json" where
  "build_envelope w window_ms truncated emit_superseded_seqs =
     (let e1 = set_member ''layer'' (JString ''data'') (JObject []);
          e2 = set_member ''channel'' (JString (channel_of w)) e1;
          e3 = set_member ''schema'' (JString (ws_schema w)) e2;
          e4 = set_member ''table'' (JString (ws_table w)) e3;
          e5 = set_member ''ops'' (JArray [op_entry ''insert'' (insert_rows w),
                 op_entry ''update'' (update_rows w), op_entry ''delete'' (delete_rows w)]) e4;
          e6 = set_member ''window_ms'' (JInt (int window_ms)) e5;
          e7 = set_member ''coalesced_count''
                 (JInt (if notify_count w = 0 then 1 else int (notify_count w))) e6;
          e8 = set_member ''window_open_ts_ms'' (JInt (window_open_ts_ms w)) e7;
          e9 = set_member ''window_close_ts_ms'' (JInt (window_open_ts_ms w + int window_ms)) e8;
          e10 = (if emit_superseded_seqs then set_member ''superseded_seqs'' (JArray []) e9 else e9)
      in if truncated then set_member ''truncated'' (JBool True) e10 else e10)"

definition audit_flush_failed ::
  "co_env \<Rightarrow> window_state \<Rightarrow> string \<Rightarrow> string \<Rightarrow> coalescer \<Rightarrow> coalescer" where
  "audit_flush_failed ev w channel reason st =
     (if g_shutting_down st \<or> \<not> ev_audit_ready ev then st
      else let counts = set_member ''delete'' (JInt (int (delete_rows w)))
                   (set_member ''update'' (JInt (int (update_rows w)))
                   (set_member ''insert'' (JInt (int (insert_rows w))) (JObject [])));
               payload = set_member ''counts'' counts
                   (set_member ''reason'' (JString reason)
                   (set_member ''table'' (JString (ws_table w))
                   (set_member ''schema'' (JString (ws_schema w))
                   (set_member ''channel'' (JString channel) (JObject [])))))
           in st\<lparr>co_audits := co_audits st @ [(''realtime.coalescer.flush_failed'', payload)]\<rparr>)"

definition remove_member :: "string \<Rightarrow> json \<Rightarrow> json" where
  "remove_member k v = JObject (AList.delete k (members v))"

definition try_shrink_or_drop ::
  "co_env \<Rightarrow> window_state \<Rightarrow> string \<Rightarrow> json \<Rightarrow> coalescer \<Rightarrow> bool \<times> json \<times> coalescer" where
  "try_shrink_or_drop ev w channel env st =
     (if length (ev_write ev env) \<le> ev_max_bytes ev then (True, env, st)
      else let env1 = (if is_member ''ids'' env
                       then set_member ''truncated'' (JBool True) (remove_member ''ids'' env) else env)
           in if is_member ''ids'' env \<and> length (ev_write ev env1) \<le> ev_max_bytes ev
              then (True, env1, st)
              else (False, env1, audit_flush_failed ev w channel ''payload_too_large'' st))"

text \<open>
  \<open>emit_result\<close>: a test hook, if set, decides; otherwise the envelope goes to the database client,
  when there is one. Each query draws its outcome from the environment.
\<close>

definition emit_result :: "co_env \<Rightarrow> json \<Rightarrow> coalescer \<Rightarrow> notify_error option \<times> coalescer" where
  "emit_result ev env st =
     (case g_emit_hook st of
        Some hook \<Rightarrow> (hook env, st)
      | None \<Rightarrow>
          if \<not> ev_db_client ev then (Some PG_FAILURE, st)
          else (emit_notify (ev_write ev) (ev_max_bytes ev) (ev_enqueue ev (co_queries st)) env,
                st\<lparr>co_queries := co_queries st + 1\<rparr>))"

definition claim_window :: "wkey \<Rightarrow> coalescer \<Rightarrow> window_state option \<times> coalescer" where
  "claim_window key st =
     (case map_of (g_windows st) key of
        None \<Rightarrow> (None, st)
      | Some w \<Rightarrow>
          (Some w,
           st\<lparr>g_windows := AList.delete key (g_windows st),
              g_timers := (if ws_timer_id w \<noteq> 0 \<and> g_loop_thread st
                           then filter (\<lambda>t. fst t \<noteq> ws_timer_id w) (g_timers st) else g_timers st)\<rparr>))"

definition flush_snapshot ::
  "co_env \<Rightarrow> window_state \<Rightarrow> nat option \<Rightarrow> coalescer \<Rightarrow> notify_error option \<times> coalescer" where
  "flush_snapshot ev w window_ms_override st =
     (let window_ms = (case window_ms_override of Some n \<Rightarrow> n | None \<Rightarrow> cfg_window_ms st);
          env = build_envelope w window_ms False (ev_emit_superseded ev)
      in case try_shrink_or_drop ev w (channel_of w) env st of
           (False, _, st1) \<Rightarrow> (Some PAYLOAD_TOO_LARGE, st1)
         | (True, env1, st1) \<Rightarrow>
             (case emit_result ev env1 st1 of
                (Some e, st2) \<Rightarrow>
                  (Some e, audit_flush_failed ev w (channel_of w) (notify_error_name e) st2)
              | (None, st2) \<Rightarrow> (None, st2\<lparr>co_sent := co_sent st2 @ [w]\<rparr>)))"

text \<open>A flush whose window was claimed before and is gone when it fails.\<close>

definition flush_or_discard :: "co_env \<Rightarrow> window_state \<Rightarrow> nat option \<Rightarrow> coalescer \<Rightarrow> bool \<times> coalescer" where
  "flush_or_discard ev w window_ms_override st =
     (case flush_snapshot ev w window_ms_override st of
        (None, st1) \<Rightarrow> (True, st1)
      | (Some _, st1) \<Rightarrow> (False, st1\<lparr>g_discarded_flush_failed := True, co_lost := co_lost st1 @ [w]\<rparr>))"

section \<open>Operations\<close>

definition bump :: "op_kind \<Rightarrow> nat \<Rightarrow> window_state \<Rightarrow> window_state" where
  "bump op n w =
     (let w1 = (case op of
                  INSERT \<Rightarrow> w\<lparr>insert_rows := insert_rows w + n\<rparr>
                | UPDATE \<Rightarrow> w\<lparr>update_rows := update_rows w + n\<rparr>
                | DELETE \<Rightarrow> w\<lparr>delete_rows := delete_rows w + n\<rparr>)
      in w1\<lparr>notify_count := notify_count w1 + 1\<rparr>)"

text \<open>A window just opened: both clocks are read, the counters are zero.\<close>

definition new_window :: "co_env \<Rightarrow> nat \<Rightarrow> string \<Rightarrow> string \<Rightarrow> string \<Rightarrow> window_state" where
  "new_window ev reads schema tbl ext =
     \<lparr>ws_schema = schema, ws_table = tbl, ws_opened_at = ev_steady ev reads, insert_rows = 0,
      update_rows = 0, delete_rows = 0, ws_extension = ext, ws_timer_id = 0, notify_count = 0,
      window_open_ts_ms = ev_wall_ms ev reads\<rparr>"

definition record_write ::
  "co_env \<Rightarrow> string \<Rightarrow> string \<Rightarrow> op_kind \<Rightarrow> nat \<Rightarrow> string \<Rightarrow> nat \<Rightarrow> coalescer \<Rightarrow> coalescer" where
  "record_write ev schema tbl op row_count ext batch_scope_id st =
     (if \<not> cfg_enabled st \<or> g_shutting_down st then st
      else if row_count = 0 then st
      else let key = (schema, tbl);
               st1 = st\<lparr>co_accepted := co_accepted st @ [(key, op, row_count)]\<rparr>
           in if batch_scope_id \<noteq> 0 then
                (let buckets = (case map_of (g_scope_to_buckets st) batch_scope_id of
                                  Some b \<Rightarrow> b | None \<Rightarrow> [])
                 in case map_of buckets key of
                      Some w \<Rightarrow>
                        st1\<lparr>g_scope_to_buckets := AList.update batch_scope_id
                              (AList.update key (bump op row_count w) buckets) (g_scope_to_buckets st)\<rparr>
                    | None \<Rightarrow>
                        st1\<lparr>g_scope_to_buckets := AList.update batch_scope_id
                              (AList.update key (bump op row_count
                                 (new_window ev (co_reads st) schema tbl ext)) buckets)
                              (g_scope_to_buckets st),
                            co_reads := co_reads st + 1\<rparr>)
              else (case map_of (g_windows st) key of
                      None \<Rightarrow>
                        (let w = bump op row_count (new_window ev (co_reads st) schema tbl ext)
                         in if g_loop_thread st
                            then st1\<lparr>g_windows := AList.update key (w\<lparr>ws_timer_id := g_next_timer st\<rparr>)
                                        (g_windows st),
                                     g_timers := g_timers st @ [(g_next_timer st, key)],
                                     g_next_timer := g_next_timer st + 1,
                                     co_reads := co_reads st + 1\<rparr>
                            else st1\<lparr>g_windows := AList.update key w (g_windows st),
                                     co_reads := co_reads st + 1\<rparr>)
                    | Some w \<Rightarrow>
                        st1\<lparr>g_windows := AList.update key (bump op row_count w) (g_windows st)\<rparr>))"

text \<open>The callback a timer runs for its key.\<close>

definition timer_callback :: "co_env \<Rightarrow> wkey \<Rightarrow> coalescer \<Rightarrow> coalescer" where
  "timer_callback ev key st =
     (case claim_window key st of
        (None, st1) \<Rightarrow> st1
      | (Some w, st1) \<Rightarrow> snd (flush_or_discard ev w None st1))"

definition timer_fire :: "co_env \<Rightarrow> nat \<Rightarrow> coalescer \<Rightarrow> coalescer" where
  "timer_fire ev tid st =
     (case map_of (g_timers st) tid of
        None \<Rightarrow> st
      | Some key \<Rightarrow>
          timer_callback ev key (st\<lparr>g_timers := filter (\<lambda>t. fst t \<noteq> tid) (g_timers st)\<rparr>))"

definition start :: "bool \<Rightarrow> nat \<Rightarrow> coalescer \<Rightarrow> coalescer" where
  "start enabled window_ms st =
     (if g_running st then st
      else let st1 = st\<lparr>cfg_enabled := enabled, cfg_window_ms := window_ms, g_running := True,
                        g_shutting_down := False, g_discarded_flush_failed := False\<rparr>
           in if \<not> enabled then st1 else st1\<lparr>g_loop_thread := True\<rparr>)"

definition restore_windows :: "window_state list \<Rightarrow> coalescer \<Rightarrow> coalescer" where
  "restore_windows ws st =
     st\<lparr>g_windows := fold (\<lambda>w. AList.update (ws_schema w, ws_table w) w) ws (g_windows st)\<rparr>"

fun shutdown_loop :: "co_env \<Rightarrow> time_ns \<Rightarrow> window_state list \<Rightarrow> coalescer \<Rightarrow> bool \<times> coalescer" where
  "shutdown_loop ev deadline [] st = (True, st)"
| "shutdown_loop ev deadline (w # ws) st =
     (let now = ev_steady ev (co_reads st);
          st1 = st\<lparr>co_reads := co_reads st + 1\<rparr>
      in if now \<ge> deadline then (False, restore_windows (w # ws) st1)
         else (case flush_snapshot ev w None st1 of
                 (Some _, st2) \<Rightarrow> (False, restore_windows (w # ws) st2)
               | (None, st2) \<Rightarrow> shutdown_loop ev deadline ws st2))"

text \<open>Cancelling every timer and joining the loop. Callbacks already dequeued run before the join.\<close>

definition stop_loop :: "co_env \<Rightarrow> wkey list \<Rightarrow> coalescer \<Rightarrow> coalescer" where
  "stop_loop ev dequeued st =
     (let st1 = st\<lparr>g_windows := map (\<lambda>(k, w). (k, w\<lparr>ws_timer_id := 0\<rparr>)) (g_windows st),
                   g_timers := (if g_loop_thread st
                     then filter (\<lambda>t. fst t \<notin> (ws_timer_id \<circ> snd) ` set (g_windows st)) (g_timers st)
                     else g_timers st)\<rparr>
      in if g_loop_thread st
         then (fold (timer_callback ev) dequeued st1)\<lparr>g_loop_thread := False, g_timers := []\<rparr>
         else st1)"

definition shutdown :: "co_env \<Rightarrow> time_ns \<Rightarrow> wkey list \<Rightarrow> coalescer \<Rightarrow> bool \<times> coalescer" where
  "shutdown ev timeout dequeued st =
     (if \<not> g_running st then (\<not> g_discarded_flush_failed st, st)
      else let st1 = st\<lparr>g_shutting_down := True\<rparr>
           in if \<not> cfg_enabled st1 then (True, st1\<lparr>g_running := False\<rparr>)
              else let deadline = ev_steady ev (co_reads st1) + timeout;
                       st2 = stop_loop ev dequeued (st1\<lparr>co_reads := co_reads st1 + 1\<rparr>);
                       now = ev_steady ev (co_reads st2);
                       st3 = st2\<lparr>co_reads := co_reads st2 + 1\<rparr>
                   in if now \<ge> deadline then (False, st3)
                      else (case shutdown_loop ev deadline (map snd (g_windows st3))
                                   (st3\<lparr>g_windows := []\<rparr>) of
                              (False, st4) \<Rightarrow> (False, st4)
                            | (True, st4) \<Rightarrow>
                                (\<not> g_discarded_flush_failed st4, st4\<lparr>g_running := False\<rparr>)))"

fun flush_buckets :: "co_env \<Rightarrow> window_state list \<Rightarrow> nat \<Rightarrow> coalescer \<Rightarrow> nat \<times> coalescer" where
  "flush_buckets ev [] emitted st = (emitted, st)"
| "flush_buckets ev (w # ws) emitted st =
     (case flush_or_discard ev w (Some 0) st of
        (True, st1) \<Rightarrow> flush_buckets ev ws (emitted + 1) st1
      | (False, st1) \<Rightarrow> flush_buckets ev ws emitted st1)"

definition flush_batch_scope :: "co_env \<Rightarrow> nat \<Rightarrow> coalescer \<Rightarrow> nat \<times> coalescer" where
  "flush_batch_scope ev scope_id st =
     (if scope_id = 0 then (0, st)
      else (case map_of (g_scope_to_buckets st) scope_id of
              None \<Rightarrow> (0, st)
            | Some buckets \<Rightarrow> flush_buckets ev (map snd buckets) 0
                (st\<lparr>g_scope_to_buckets := AList.delete scope_id (g_scope_to_buckets st)\<rparr>)))"

definition discard_batch_scope :: "nat \<Rightarrow> coalescer \<Rightarrow> nat \<times> coalescer" where
  "discard_batch_scope scope_id st =
     (if scope_id = 0 then (0, st)
      else (case map_of (g_scope_to_buckets st) scope_id of
              None \<Rightarrow> (0, st)
            | Some buckets \<Rightarrow> (length buckets,
                st\<lparr>g_scope_to_buckets := AList.delete scope_id (g_scope_to_buckets st),
                   co_rolled_back := co_rolled_back st @ map snd buckets\<rparr>)))"

definition drain_extension :: "co_env \<Rightarrow> string \<Rightarrow> coalescer \<Rightarrow> coalescer" where
  "drain_extension ev ext st =
     (if \<not> g_running st then st
      else fold (timer_callback ev)
             (map fst (filter (\<lambda>kv. ws_extension (snd kv) = ext) (g_windows st))) st)"

definition apply_flush_for_test :: "co_env \<Rightarrow> wkey \<Rightarrow> coalescer \<Rightarrow> bool \<times> coalescer" where
  "apply_flush_for_test ev key st =
     (case claim_window key st of
        (None, st1) \<Rightarrow> (False, st1)
      | (Some w, st1) \<Rightarrow> (case flush_snapshot ev w None st1 of (e, st2) \<Rightarrow> (e = None, st2)))"

definition open_window_count :: "coalescer \<Rightarrow> nat" where
  "open_window_count st = length (g_windows st)"

definition batch_scope_count :: "coalescer \<Rightarrow> nat" where
  "batch_scope_count st = length (g_scope_to_buckets st)"

definition set_emit_hook :: "(json \<Rightarrow> notify_error option) option \<Rightarrow> coalescer \<Rightarrow> coalescer" where
  "set_emit_hook hook st = st\<lparr>g_emit_hook := hook\<rparr>"

definition clear_windows_for_test :: "coalescer \<Rightarrow> coalescer" where
  "clear_windows_for_test st = st\<lparr>g_windows := [], g_scope_to_buckets := [],
     g_timers := (if g_loop_thread st
       then filter (\<lambda>t. fst t \<notin> (ws_timer_id \<circ> snd) ` set (g_windows st)) (g_timers st)
       else g_timers st)\<rparr>"

section \<open>Runs\<close>

datatype co_event =
    Write string string op_kind nat string nat
  | Fire nat
  | Callback wkey
  | Commit nat
  | Rollback nat
  | DrainExt string

fun co_step :: "co_env \<Rightarrow> coalescer \<Rightarrow> co_event \<Rightarrow> coalescer" where
  "co_step ev st (Write schema tbl op n ext scope) = record_write ev schema tbl op n ext scope st"
| "co_step ev st (Fire tid) = timer_fire ev tid st"
| "co_step ev st (Callback key) = timer_callback ev key st"
| "co_step ev st (Commit scope) = snd (flush_batch_scope ev scope st)"
| "co_step ev st (Rollback scope) = snd (discard_batch_scope scope st)"
| "co_step ev st (DrainExt ext) = drain_extension ev ext st"

section \<open>Frames\<close>

text \<open>A flush touches only the query count, the audit queue and the record of what was sent.\<close>

lemma audit_flush_failed_frame:
  "\<exists>a. audit_flush_failed ev w c r st = st\<lparr>co_audits := a\<rparr>"
proof (cases "g_shutting_down st \<or> \<not> ev_audit_ready ev")
  case True
  then have "audit_flush_failed ev w c r st = st\<lparr>co_audits := co_audits st\<rparr>"
    by (auto simp: audit_flush_failed_def)
  then show ?thesis by blast
next
  case False
  then show ?thesis by (auto simp: audit_flush_failed_def Let_def)
qed

lemma try_shrink_frame:
  "try_shrink_or_drop ev w c env st = (ok, env1, st1) \<Longrightarrow> \<exists>a. st1 = st\<lparr>co_audits := a\<rparr>"
proof -
  assume t: "try_shrink_or_drop ev w c env st = (ok, env1, st1)"
  have "st1 = st \<or> st1 = audit_flush_failed ev w c ''payload_too_large'' st"
    using t by (auto simp: try_shrink_or_drop_def Let_def split: if_splits)
  moreover have "st = st\<lparr>co_audits := co_audits st\<rparr>" by simp
  ultimately show ?thesis using audit_flush_failed_frame by metis
qed

lemma emit_result_frame: "emit_result ev env st = (r, st1) \<Longrightarrow> \<exists>q. st1 = st\<lparr>co_queries := q\<rparr>"
proof -
  assume e: "emit_result ev env st = (r, st1)"
  have "st1 = st\<lparr>co_queries := co_queries st\<rparr> \<or> st1 = st\<lparr>co_queries := co_queries st + 1\<rparr>"
    using e by (auto simp: emit_result_def split: option.splits if_splits)
  then show ?thesis by blast
qed

lemma flush_snapshot_frame:
  assumes "flush_snapshot ev w o' st = (r, st')"
  shows "\<exists>q a. st' = st\<lparr>co_queries := q, co_audits := a,
     co_sent := (if r = None then co_sent st @ [w] else co_sent st)\<rparr>"
proof -
  let ?env = "build_envelope w (case o' of Some n \<Rightarrow> n | None \<Rightarrow> cfg_window_ms st) False (ev_emit_superseded ev)"
  obtain ok env1 st1 where t: "try_shrink_or_drop ev w (channel_of w) ?env st = (ok, env1, st1)"
    by (cases "try_shrink_or_drop ev w (channel_of w) ?env st")
  obtain e st2 where m: "emit_result ev env1 st1 = (e, st2)" by (cases "emit_result ev env1 st1")
  obtain a1 where a1: "st1 = st\<lparr>co_audits := a1\<rparr>" using try_shrink_frame [OF t] by blast
  obtain q where q: "st2 = st1\<lparr>co_queries := q\<rparr>" using emit_result_frame [OF m] by blast
  have f: "flush_snapshot ev w o' st =
    (if \<not> ok then (Some PAYLOAD_TOO_LARGE, st1)
     else case e of
       Some x \<Rightarrow> (Some x, audit_flush_failed ev w (channel_of w) (notify_error_name x) st2)
     | None \<Rightarrow> (None, st2\<lparr>co_sent := co_sent st2 @ [w]\<rparr>))"
    by (simp add: flush_snapshot_def Let_def t m split: option.split)
  show ?thesis
  proof (cases "\<not> ok")
    case True
    then have "r = Some PAYLOAD_TOO_LARGE" "st' = st\<lparr>co_queries := co_queries st, co_audits := a1,
        co_sent := co_sent st\<rparr>"
      using f assms a1 by simp_all
    then show ?thesis by (intro exI [of _ "co_queries st"] exI [of _ a1]) simp
  next
    case ok: False
    show ?thesis
    proof (cases e)
      case None
      then show ?thesis using f assms a1 q ok by (intro exI [of _ q] exI [of _ a1]) auto
    next
      case (Some x)
      obtain a2 where "audit_flush_failed ev w (channel_of w) (notify_error_name x) st2 = st2\<lparr>co_audits := a2\<rparr>"
        using audit_flush_failed_frame by blast
      then show ?thesis using f assms a1 q ok Some by (intro exI [of _ q] exI [of _ a2]) auto
    qed
  qed
qed

lemma flush_or_discard_frame:
  assumes "flush_or_discard ev w o' st = (ok, st')"
  shows "\<exists>q a. st' = st\<lparr>co_queries := q, co_audits := a,
     co_sent := (if ok then co_sent st @ [w] else co_sent st),
     co_lost := (if ok then co_lost st else co_lost st @ [w]),
     g_discarded_flush_failed := (if ok then g_discarded_flush_failed st else True)\<rparr>"
proof -
  obtain r st1 where f: "flush_snapshot ev w o' st = (r, st1)" by (cases "flush_snapshot ev w o' st")
  obtain q a where st1: "st1 = st\<lparr>co_queries := q, co_audits := a,
      co_sent := (if r = None then co_sent st @ [w] else co_sent st)\<rparr>"
    using flush_snapshot_frame [OF f] by blast
  show ?thesis
    using assms by (cases r) (auto simp: flush_or_discard_def f st1 intro!: exI [of _ q] exI [of _ a])
qed

section \<open>The ledger of rows\<close>

fun rows :: "op_kind \<Rightarrow> window_state \<Rightarrow> nat" where
  "rows INSERT w = insert_rows w"
| "rows UPDATE w = update_rows w"
| "rows DELETE w = delete_rows w"

definition wkey_of :: "window_state \<Rightarrow> wkey" where
  "wkey_of w = (ws_schema w, ws_table w)"

definition contrib :: "wkey \<Rightarrow> op_kind \<Rightarrow> window_state \<Rightarrow> nat" where
  "contrib k op w = (if wkey_of w = k then rows op w else 0)"

definition rows_in :: "wkey \<Rightarrow> op_kind \<Rightarrow> window_state list \<Rightarrow> nat" where
  "rows_in k op ws = sum_list (map (contrib k op) ws)"

definition accepted_rows :: "wkey \<Rightarrow> op_kind \<Rightarrow> (wkey \<times> op_kind \<times> nat) list \<Rightarrow> nat" where
  "accepted_rows k op xs = sum_list (map (\<lambda>(k', op', n). if k' = k \<and> op' = op then n else 0) xs)"

abbreviation pending_scopes :: "wkey \<Rightarrow> op_kind \<Rightarrow> coalescer \<Rightarrow> nat" where
  "pending_scopes k op st \<equiv> asum (asum (contrib k op)) (g_scope_to_buckets st)"

definition keys_ok :: "(wkey \<times> window_state) list \<Rightarrow> bool" where
  "keys_ok m \<longleftrightarrow> distinct_keys m \<and> (\<forall>k w. map_of m k = Some w \<longrightarrow> wkey_of w = k)"

definition shape_ok :: "coalescer \<Rightarrow> bool" where
  "shape_ok st \<longleftrightarrow> keys_ok (g_windows st) \<and> distinct_keys (g_scope_to_buckets st)
     \<and> (\<forall>i b. map_of (g_scope_to_buckets st) i = Some b \<longrightarrow> keys_ok b)"

definition ledger_ok :: "coalescer \<Rightarrow> bool" where
  "ledger_ok st \<longleftrightarrow> (\<forall>k op. accepted_rows k op (co_accepted st) =
       asum (contrib k op) (g_windows st) + pending_scopes k op st + rows_in k op (co_sent st)
       + rows_in k op (co_rolled_back st) + rows_in k op (co_lost st))
     \<and> (co_lost st \<noteq> [] \<longrightarrow> g_discarded_flush_failed st)"

definition co_ok :: "coalescer \<Rightarrow> bool" where
  "co_ok st \<longleftrightarrow> shape_ok st \<and> ledger_ok st"

lemma rows_in_append [simp]: "rows_in k op (xs @ ys) = rows_in k op xs + rows_in k op ys"
  by (simp add: rows_in_def)

lemma rows_in_simps [simp]: "rows_in k op [] = 0" "rows_in k op (w # ws) = contrib k op w + rows_in k op ws"
  by (simp_all add: rows_in_def)

lemma rows_in_map_snd: "rows_in k op (map snd m) = asum (contrib k op) m"
  by (simp add: rows_in_def asum_def comp_def)

lemma accepted_snoc [simp]:
  "accepted_rows k op (xs @ [(k', op', n)]) = accepted_rows k op xs + (if k' = k \<and> op' = op then n else 0)"
  by (simp add: accepted_rows_def)

lemma wkey_of_bump [simp]: "wkey_of (bump op n w) = wkey_of w"
  by (simp add: wkey_of_def bump_def Let_def split: op_kind.split)

lemma contrib_bump:
  "contrib k op (bump op' n w) = contrib k op w + (if wkey_of w = k \<and> op' = op then n else 0)"
  by (cases op; cases op') (simp_all add: contrib_def bump_def wkey_of_def Let_def)

lemma contrib_timer [simp]: "contrib k op (w\<lparr>ws_timer_id := i\<rparr>) = contrib k op w"
  by (cases op) (simp_all add: contrib_def wkey_of_def)

lemma wkey_of_timer [simp]: "wkey_of (w\<lparr>ws_timer_id := i\<rparr>) = wkey_of w"
  by (simp add: wkey_of_def)

lemma new_window_simps [simp]:
  "wkey_of (new_window ev r schema tbl ext) = (schema, tbl)"
  "contrib k op (new_window ev r schema tbl ext) = 0"
  by (cases op; simp add: new_window_def wkey_of_def contrib_def)+

lemma keys_ok_update: "keys_ok m \<Longrightarrow> wkey_of w = k \<Longrightarrow> keys_ok (AList.update k w m)"
  by (simp add: keys_ok_def distinct_keys_update map_of_update)

lemma keys_ok_delete: "keys_ok m \<Longrightarrow> keys_ok (AList.delete k m)"
  by (auto simp: keys_ok_def distinct_keys_delete map_of_delete simp del: map_of_eq_Some_iff
      split: if_splits)

lemma keys_ok_empty [simp]: "keys_ok []"
  by (simp add: keys_ok_def)

text \<open>Adding rows to a table: the total grows by exactly those rows.\<close>

lemma asum_bump:
  assumes "keys_ok m" and "map_of m (s, t) = Some w"
  shows "asum (contrib k op) (AList.update (s, t) (bump op' n w) m) =
    asum (contrib k op) m + (if (s, t) = k \<and> op' = op then n else 0)"
proof -
  have "wkey_of w = (s, t)" using assms by (simp add: keys_ok_def)
  then show ?thesis
    using asum_update_present [of m "(s, t)" w "contrib k op" "bump op' n w"] assms
    by (simp add: contrib_bump keys_ok_def)
qed

lemma asum_open:
  assumes "map_of m (s, t) = None"
  shows "asum (contrib k op) (AList.update (s, t) (bump op' n (new_window ev r s t x)) m) =
    asum (contrib k op) m + (if (s, t) = k \<and> op' = op then n else 0)"
    and "asum (contrib k op) (AList.update (s, t) ((bump op' n (new_window ev r s t x))\<lparr>ws_timer_id := i\<rparr>) m) =
    asum (contrib k op) m + (if (s, t) = k \<and> op' = op then n else 0)"
  using assms by (simp_all add: asum_update_absent contrib_bump)

text \<open>Replacing the buckets of one scope by buckets with \<open>d\<close> more rows.\<close>

lemma asum_scope:
  assumes "distinct_keys sc" and "asum f b' = asum f (case map_of sc i of Some b \<Rightarrow> b | None \<Rightarrow> []) + d"
  shows "asum (asum f) (AList.update i b' sc) = asum (asum f) sc + d"
proof (cases "map_of sc i")
  case None
  then show ?thesis using assms by (simp add: asum_update_absent)
next
  case (Some b)
  then show ?thesis using assms asum_update_present [OF assms(1) Some, of "asum f" b'] by simp
qed

lemma record_write_ok:
  assumes "co_ok st"
  shows "co_ok (record_write ev s t op n x scope st)"
proof (cases "\<not> cfg_enabled st \<or> g_shutting_down st \<or> n = 0")
  case True
  then show ?thesis using assms by (auto simp: record_write_def)
next
  case False
  have sh: "keys_ok (g_windows st)" "distinct_keys (g_scope_to_buckets st)"
    "\<And>i b. map_of (g_scope_to_buckets st) i = Some b \<Longrightarrow> keys_ok b" and l: "ledger_ok st"
    using assms by (auto simp: co_ok_def shape_ok_def)
  show ?thesis
  proof (cases "scope = 0")
    case zero: True
    show ?thesis
    proof (cases "map_of (g_windows st) (s, t)")
      case None
      then show ?thesis using False zero sh l asum_open [OF None]
        by (simp add: record_write_def Let_def co_ok_def shape_ok_def ledger_ok_def keys_ok_update)
    next
      case (Some w)
      moreover have "wkey_of w = (s, t)" using Some sh(1) by (simp add: keys_ok_def)
      ultimately show ?thesis using False zero sh l asum_bump [OF sh(1) Some]
        by (simp add: record_write_def Let_def co_ok_def shape_ok_def ledger_ok_def keys_ok_update)
    qed
  next
    case scoped: False
    define b where "b = (case map_of (g_scope_to_buckets st) scope of Some b \<Rightarrow> b | None \<Rightarrow> [])"
    have b: "keys_ok b" using sh(3) by (auto simp: b_def split: option.splits)
    define b' where "b' = (case map_of b (s, t) of
        Some w \<Rightarrow> AList.update (s, t) (bump op n w) b
      | None \<Rightarrow> AList.update (s, t) (bump op n (new_window ev (co_reads st) s t x)) b)"
    have b': "keys_ok b'" using b by (auto simp: b'_def keys_ok_update split: option.splits)
        (simp add: keys_ok_def keys_ok_update)
    have sum: "asum (contrib k op') b' = asum (contrib k op') b + (if (s, t) = k \<and> op = op' then n else 0)"
      for k op'
      using asum_bump [OF b] asum_open(1) [of b s t] by (auto simp: b'_def split: option.split)
    have w: "\<exists>r. record_write ev s t op n x scope st = st\<lparr>co_accepted := co_accepted st @ [((s, t), op, n)],
        g_scope_to_buckets := AList.update scope b' (g_scope_to_buckets st), co_reads := r\<rparr>"
      using False scoped
      by (auto simp: record_write_def Let_def b'_def b_def [symmetric] split: option.split
          intro: exI [of _ "co_reads st"])
    have "asum (asum (contrib k op')) (AList.update scope b' (g_scope_to_buckets st)) =
        asum (asum (contrib k op')) (g_scope_to_buckets st) + (if (s, t) = k \<and> op = op' then n else 0)" for k op'
      by (rule asum_scope [OF sh(2)]) (simp add: sum b_def [symmetric])
    with w show ?thesis using sh b' l
      by (auto simp: co_ok_def shape_ok_def ledger_ok_def distinct_keys_update map_of_update split: if_splits)
  qed
qed

text \<open>The ledger while some claimed windows are in the hands of a flushing loop.\<close>

definition ledger_with :: "window_state list \<Rightarrow> coalescer \<Rightarrow> bool" where
  "ledger_with ws st \<longleftrightarrow> (\<forall>k op. accepted_rows k op (co_accepted st) =
       asum (contrib k op) (g_windows st) + pending_scopes k op st + rows_in k op (co_sent st)
       + rows_in k op (co_rolled_back st) + rows_in k op (co_lost st) + rows_in k op ws)
     \<and> (co_lost st \<noteq> [] \<longrightarrow> g_discarded_flush_failed st)"

lemma ledger_with_Nil: "ledger_with [] st = ledger_ok st"
  by (simp add: ledger_with_def ledger_ok_def)

lemma flush_or_discard_ledger:
  assumes "flush_or_discard ev w o' st = (ok, st')" and "ledger_with (w # ws) st"
  shows "ledger_with ws st'"
  using flush_or_discard_frame [OF assms(1)] assms(2) by (auto simp: ledger_with_def)

lemma flush_or_discard_shape:
  "flush_or_discard ev w o' st = (ok, st') \<Longrightarrow> shape_ok st' = shape_ok st \<and>
     g_windows st' = g_windows st \<and> g_scope_to_buckets st' = g_scope_to_buckets st \<and>
     g_timers st' = g_timers st \<and> g_loop_thread st' = g_loop_thread st \<and> g_next_timer st' = g_next_timer st \<and>
     g_running st' = g_running st \<and> g_shutting_down st' = g_shutting_down st \<and>
     cfg_enabled st' = cfg_enabled st"
  using flush_or_discard_frame [of ev w o' st ok st'] by (auto simp: shape_ok_def)

lemma claimed_ledger:
  assumes "co_ok st" and "map_of (g_windows st) key = Some w"
  shows "ledger_with [w] (st\<lparr>g_windows := AList.delete key (g_windows st), g_timers := tm\<rparr>)"
    and "shape_ok (st\<lparr>g_windows := AList.delete key (g_windows st), g_timers := tm\<rparr>)"
proof -
  have "keys_ok (g_windows st)" using assms(1) by (simp add: co_ok_def shape_ok_def)
  then have "asum f (g_windows st) = f w + asum f (AList.delete key (g_windows st))" for f
    by (intro asum_delete assms(2)) (simp add: keys_ok_def)
  then show "ledger_with [w] (st\<lparr>g_windows := AList.delete key (g_windows st), g_timers := tm\<rparr>)"
    using assms(1) by (simp add: co_ok_def ledger_ok_def ledger_with_def)
  show "shape_ok (st\<lparr>g_windows := AList.delete key (g_windows st), g_timers := tm\<rparr>)"
    using assms(1) by (simp add: co_ok_def shape_ok_def keys_ok_delete)
qed

lemma timer_callback_None: "map_of (g_windows st) key = None \<Longrightarrow> timer_callback ev key st = st"
  by (simp add: timer_callback_def claim_window_def)

lemma timer_callback_Some:
  assumes "map_of (g_windows st) key = Some w"
  obtains tm where "timer_callback ev key st = snd (flush_or_discard ev w None
      (st\<lparr>g_windows := AList.delete key (g_windows st), g_timers := tm\<rparr>))"
    "tm = (if ws_timer_id w \<noteq> 0 \<and> g_loop_thread st
           then filter (\<lambda>t. fst t \<noteq> ws_timer_id w) (g_timers st) else g_timers st)"
  using assms by (auto simp: timer_callback_def claim_window_def)

lemma timer_callback_ok: "co_ok st \<Longrightarrow> co_ok (timer_callback ev key st)"
proof (cases "map_of (g_windows st) key")
  case (Some w)
  assume ok: "co_ok st"
  obtain tm where c: "timer_callback ev key st = snd (flush_or_discard ev w None
      (st\<lparr>g_windows := AList.delete key (g_windows st), g_timers := tm\<rparr>))"
    using timer_callback_Some [OF Some] by blast
  then show ?thesis
    using flush_or_discard_ledger [OF surjective_pairing claimed_ledger(1) [OF ok Some]]
      flush_or_discard_shape [OF surjective_pairing] claimed_ledger(2) [OF ok Some]
    by (simp add: co_ok_def ledger_with_Nil)
qed (simp add: timer_callback_None)

lemma timer_callbacks_ok: "co_ok st \<Longrightarrow> co_ok (fold (timer_callback ev) ks st)"
  by (induction ks arbitrary: st) (simp_all add: timer_callback_ok)

lemma timer_fire_ok: "co_ok st \<Longrightarrow> co_ok (timer_fire ev tid st)"
proof -
  assume "co_ok st"
  then have "co_ok (st\<lparr>g_timers := tm\<rparr>)" for tm by (simp add: co_ok_def shape_ok_def ledger_ok_def)
  then show ?thesis using \<open>co_ok st\<close> by (simp add: timer_fire_def timer_callback_ok split: option.split)
qed

lemma drain_extension_ok: "co_ok st \<Longrightarrow> co_ok (drain_extension ev x st)"
  by (simp add: drain_extension_def timer_callbacks_ok)

lemma flush_buckets_ledger:
  "flush_buckets ev ws n st = (m, st') \<Longrightarrow> ledger_with ws st \<Longrightarrow> shape_ok st \<Longrightarrow> ledger_with [] st' \<and> shape_ok st'"
proof (induction ws arbitrary: n st)
  case (Cons w ws)
  obtain ok st1 where f: "flush_or_discard ev w (Some 0) st = (ok, st1)"
    by (cases "flush_or_discard ev w (Some 0) st")
  have "ledger_with ws st1" "shape_ok st1"
    using flush_or_discard_ledger [OF f Cons.prems(2)] flush_or_discard_shape [OF f] Cons.prems(3) by simp_all
  with Cons.IH Cons.prems(1) f show ?case by (cases ok) auto
qed simp

lemma taken_scope:
  assumes "co_ok st" and "map_of (g_scope_to_buckets st) i = Some b"
  shows "ledger_with (map snd b) (st\<lparr>g_scope_to_buckets := AList.delete i (g_scope_to_buckets st)\<rparr>)"
    and "shape_ok (st\<lparr>g_scope_to_buckets := AList.delete i (g_scope_to_buckets st)\<rparr>)"
proof -
  have "distinct_keys (g_scope_to_buckets st)" using assms(1) by (simp add: co_ok_def shape_ok_def)
  from asum_delete [OF this assms(2)] assms(1)
  show "ledger_with (map snd b) (st\<lparr>g_scope_to_buckets := AList.delete i (g_scope_to_buckets st)\<rparr>)"
    by (simp add: co_ok_def ledger_ok_def ledger_with_def rows_in_map_snd)
  show "shape_ok (st\<lparr>g_scope_to_buckets := AList.delete i (g_scope_to_buckets st)\<rparr>)"
    using assms(1) by (auto simp: co_ok_def shape_ok_def distinct_keys_delete map_of_delete
        simp del: map_of_eq_Some_iff split: if_splits)
qed

lemma flush_batch_scope_ok: "co_ok st \<Longrightarrow> co_ok (snd (flush_batch_scope ev i st))"
  using taken_scope flush_buckets_ledger [OF surjective_pairing]
  by (auto simp: flush_batch_scope_def co_ok_def ledger_with_Nil split: option.split)

lemma discard_batch_scope_ok: "co_ok st \<Longrightarrow> co_ok (snd (discard_batch_scope i st))"
proof -
  assume ok: "co_ok st"
  show ?thesis
  proof (cases "i = 0 \<or> map_of (g_scope_to_buckets st) i = None")
    case False
    then obtain b where b: "map_of (g_scope_to_buckets st) i = Some b" by auto
    then show ?thesis using taken_scope [OF ok b] False
      by (auto simp: discard_batch_scope_def co_ok_def ledger_ok_def ledger_with_def shape_ok_def)
  qed (use ok in \<open>auto simp: discard_batch_scope_def\<close>)
qed

interpretation co_run: invariant_step "co_step ev" "\<lambda>_. True" co_ok for ev
proof
  fix st e assume "co_ok st"
  then show "co_ok (co_step ev st e)"
    by (cases e) (simp_all add: record_write_ok timer_fire_ok timer_callback_ok flush_batch_scope_ok
        discard_batch_scope_ok drain_extension_ok)
qed

section \<open>Lifecycle\<close>

text \<open>Between start and shutdown the lifecycle flags do not move.\<close>

definition live_flags :: "coalescer \<Rightarrow> bool \<times> bool \<times> bool \<times> bool" where
  "live_flags st = (g_running st, cfg_enabled st, g_shutting_down st, g_loop_thread st)"

lemma flush_or_discard_flags [simp]: "live_flags (snd (flush_or_discard ev w o' st)) = live_flags st"
  using flush_or_discard_shape [OF surjective_pairing, of ev w o' st] by (simp add: live_flags_def)

lemma live_flags_upd [simp]:
  "live_flags (st\<lparr>g_timers := x\<rparr>) = live_flags st" "live_flags (st\<lparr>g_scope_to_buckets := y\<rparr>) = live_flags st"
  "live_flags (st\<lparr>g_windows := v\<rparr>) = live_flags st"
  "live_flags (st\<lparr>g_scope_to_buckets := y, co_rolled_back := z\<rparr>) = live_flags st"
  by (simp_all add: live_flags_def)

lemma timer_callback_flags [simp]: "live_flags (timer_callback ev key st) = live_flags st"
proof (cases "map_of (g_windows st) key")
  case (Some w)
  obtain tm where "timer_callback ev key st = snd (flush_or_discard ev w None
      (st\<lparr>g_windows := AList.delete key (g_windows st), g_timers := tm\<rparr>))"
    using timer_callback_Some [OF Some] by blast
  then show ?thesis by simp
qed (simp add: timer_callback_None)

lemma timer_callbacks_flags [simp]: "live_flags (fold (timer_callback ev) ks st) = live_flags st"
  by (induction ks arbitrary: st) simp_all

lemma flush_buckets_flags [simp]: "live_flags (snd (flush_buckets ev ws n st)) = live_flags st"
proof (induction ws arbitrary: n st)
  case (Cons w ws)
  obtain ok st1 where "flush_or_discard ev w (Some 0) st = (ok, st1)"
    by (cases "flush_or_discard ev w (Some 0) st")
  with flush_or_discard_flags [of ev w "Some 0" st] Cons show ?case by (cases ok) simp_all
qed simp

lemma co_step_flags: "live_flags (co_step ev st e) = live_flags st"
proof (cases e)
  case (Write s t op n x scope)
  then show ?thesis by (auto simp: record_write_def Let_def live_flags_def split: option.splits)
qed (simp_all add: timer_fire_def flush_batch_scope_def discard_batch_scope_def drain_extension_def
    split: option.split)

interpretation co_flags: invariant_step "co_step ev" "\<lambda>_. True" "\<lambda>st. live_flags st = f" for ev f
  by unfold_locales (simp add: co_step_flags)

lemma start_ok: "co_ok (start True ms initial_coalescer)"
  "live_flags (start True ms initial_coalescer) = (True, True, False, True)"
  by (simp_all add: start_def initial_coalescer_def co_ok_def shape_ok_def ledger_ok_def accepted_rows_def
      live_flags_def)

lemma keys_ok_map_timer: "keys_ok (map (\<lambda>(k, w). (k, w\<lparr>ws_timer_id := 0\<rparr>)) m) = keys_ok m"
proof -
  have k: "keys (map (\<lambda>(k, w). (k, w\<lparr>ws_timer_id := 0\<rparr>)) m) = keys m" by auto
  have m: "map_of (map (\<lambda>(k, w). (k, w\<lparr>ws_timer_id := 0\<rparr>)) m) k =
      map_option (\<lambda>w. w\<lparr>ws_timer_id := 0\<rparr>) (map_of m k)" for k
    by (simp add: map_of_map)
  show ?thesis unfolding keys_ok_def k m
    by (auto simp del: map_of_eq_Some_iff) (metis wkey_of_timer)
qed

lemma stop_loop_ok: "co_ok st \<Longrightarrow> co_ok (stop_loop ev dq st)"
proof -
  assume ok: "co_ok st"
  have m: "co_ok (st\<lparr>g_windows := map (\<lambda>(k, w). (k, w\<lparr>ws_timer_id := 0\<rparr>)) (g_windows st), g_timers := tm\<rparr>)" for tm
    using ok by (simp add: co_ok_def shape_ok_def ledger_ok_def keys_ok_map_timer asum_map)
  have n: "co_ok (st\<lparr>g_windows := map (\<lambda>(k, w). (k, w\<lparr>ws_timer_id := 0\<rparr>)) (g_windows st)\<rparr>)"
    using m [of "g_timers st"] by (simp add: co_ok_def shape_ok_def ledger_ok_def)
  have l: "co_ok s \<Longrightarrow> co_ok (s\<lparr>g_loop_thread := False, g_timers := []\<rparr>)" for s
    by (simp add: co_ok_def shape_ok_def ledger_ok_def)
  show ?thesis using m n l timer_callbacks_ok by (simp add: stop_loop_def Let_def)
qed

lemma restore_fold:
  "distinct (map wkey_of ws) \<Longrightarrow> (\<forall>w\<in>set ws. wkey_of w \<notin> set (keys m)) \<Longrightarrow>
   fold (\<lambda>w. AList.update (ws_schema w, ws_table w) w) ws m = m @ map (\<lambda>w. (wkey_of w, w)) ws"
proof (induction ws arbitrary: m)
  case (Cons w ws)
  have "map_of m (wkey_of w) = None" using Cons.prems(2) by (simp add: map_of_eq_None_iff)
  then have "AList.update (ws_schema w, ws_table w) w m = m @ [(wkey_of w, w)]"
    by (simp add: update_absent wkey_of_def)
  moreover have "\<forall>v\<in>set ws. wkey_of v \<notin> set (keys (m @ [(wkey_of w, w)]))"
    using Cons.prems by auto (metis image_eqI)
  ultimately show ?case using Cons.IH [of "m @ [(wkey_of w, w)]"] Cons.prems(1) by simp
qed simp

lemma restore_windows_ok:
  assumes "g_windows st = []" and "distinct (map wkey_of ws)" and "ledger_with ws st" and "shape_ok st"
  shows "co_ok (restore_windows ws st) \<and> map snd (g_windows (restore_windows ws st)) = ws"
proof -
  have r: "restore_windows ws st = st\<lparr>g_windows := map (\<lambda>w. (wkey_of w, w)) ws\<rparr>"
    using restore_fold [OF assms(2), of "[]"] assms(1) by (simp add: restore_windows_def)
  have d: "distinct_keys (map (\<lambda>w. (wkey_of w, w)) ws)" using assms(2) by (simp add: comp_def)
  have "keys_ok (map (\<lambda>w. (wkey_of w, w)) ws)"
    unfolding keys_ok_def using d by auto
  moreover have "asum f (map (\<lambda>w. (wkey_of w, w)) ws) = sum_list (map f ws)" for f
    by (induction ws) simp_all
  ultimately show ?thesis using assms(1,3,4)
    by (simp add: r co_ok_def shape_ok_def ledger_with_def ledger_ok_def rows_in_def comp_def)
qed

lemma shutdown_loop_ok:
  assumes "shutdown_loop ev d ws st = (r, st')" and "g_windows st = []" and "distinct (map wkey_of ws)"
    and "ledger_with ws st" and "shape_ok st"
  shows "co_ok st' \<and> (r \<longrightarrow> g_windows st' = []) \<and> (\<not> r \<longrightarrow> (\<exists>vs. map snd (g_windows st') = vs \<and> vs \<noteq> [] \<and>
      (\<exists>us. ws = us @ vs \<and> co_sent st' = co_sent st @ us)))"
  using assms
proof (induction ws arbitrary: st)
  case Nil
  then show ?case by (simp add: co_ok_def ledger_with_Nil)
next
  case (Cons w ws)
  let ?st1 = "st\<lparr>co_reads := co_reads st + 1\<rparr>"
  obtain e st2 where f: "flush_snapshot ev w None ?st1 = (e, st2)" by (cases "flush_snapshot ev w None ?st1")
  obtain q a where st2: "st2 = ?st1\<lparr>co_queries := q, co_audits := a,
      co_sent := (if e = None then co_sent ?st1 @ [w] else co_sent ?st1)\<rparr>"
    using flush_snapshot_frame [OF f] by blast
  show ?case
  proof (cases "ev_steady ev (co_reads st) \<ge> d \<or> e \<noteq> None")
    case True
    define s where "s = (if ev_steady ev (co_reads st) \<ge> d then ?st1 else st2)"
    have "shutdown_loop ev d (w # ws) st = (False, restore_windows (w # ws) s)"
      using True f by (auto simp: s_def Let_def)
    moreover have "g_windows s = [] \<and> ledger_with (w # ws) s \<and> shape_ok s \<and> co_sent s = co_sent st"
      using Cons.prems(2,4,5) True by (auto simp: s_def st2 ledger_with_def shape_ok_def)
    ultimately have s: "st' = restore_windows (w # ws) s" "\<not> r" "g_windows s = []"
      "ledger_with (w # ws) s" "shape_ok s" "co_sent s = co_sent st"
      using Cons.prems(1) by simp_all
    from restore_windows_ok [OF s(3) Cons.prems(3) s(4,5)] s show ?thesis
      by (auto simp: restore_windows_def intro!: exI [of _ "[]"])
  next
    case False
    then have "shutdown_loop ev d ws st2 = (r, st')" using Cons.prems(1) f by (simp add: Let_def)
    moreover have "g_windows st2 = []" "ledger_with ws st2" "shape_ok st2" "co_sent st2 = co_sent st @ [w]"
      using Cons.prems st2 False by (auto simp: ledger_with_def shape_ok_def)
    ultimately show ?thesis using Cons.IH [of st2] Cons.prems(3)
      by (auto intro: exI [of _ "w # _"])
  qed
qed

lemma distinct_wkeys: "keys_ok m \<Longrightarrow> distinct (map wkey_of (map snd m))"
proof -
  assume k: "keys_ok m"
  have "wkey_of (snd kv) = fst kv" if "kv \<in> set m" for kv
    using k that by (cases kv; cases "fst kv") (auto simp: keys_ok_def)
  then have e: "map wkey_of (map snd m) = keys m" by simp
  show ?thesis unfolding e using k by (simp add: keys_ok_def)
qed

lemma shutdown_ok:
  assumes "co_ok st" and "g_running st" and "cfg_enabled st" and "shutdown ev timeout dq st = (r, st')"
  shows "co_ok st' \<and> (r \<longrightarrow> g_windows st' = [] \<and> \<not> g_discarded_flush_failed st')"
proof -
  let ?s0 = "st\<lparr>g_shutting_down := True, co_reads := co_reads st + 1\<rparr>"
  define s2 where "s2 = stop_loop ev dq ?s0"
  define s3 where "s3 = s2\<lparr>co_reads := co_reads s2 + 1\<rparr>"
  have "co_ok ?s0" using assms(1) by (simp add: co_ok_def shape_ok_def ledger_ok_def)
  then have "co_ok s2" unfolding s2_def by (rule stop_loop_ok)
  then have s3: "co_ok s3" by (simp add: s3_def co_ok_def shape_ok_def ledger_ok_def)
  let ?d = "ev_steady ev (co_reads st) + timeout"
  obtain ok st4 where l: "shutdown_loop ev ?d (map snd (g_windows s3)) (s3\<lparr>g_windows := []\<rparr>) = (ok, st4)"
    by (cases "shutdown_loop ev ?d (map snd (g_windows s3)) (s3\<lparr>g_windows := []\<rparr>)")
  have "ledger_with (map snd (g_windows s3)) (s3\<lparr>g_windows := []\<rparr>)" "shape_ok (s3\<lparr>g_windows := []\<rparr>)"
    "distinct (map wkey_of (map snd (g_windows s3)))"
    using s3 distinct_wkeys [of "g_windows s3"]
    by (simp_all add: co_ok_def ledger_ok_def ledger_with_def rows_in_map_snd shape_ok_def)
  with shutdown_loop_ok [OF l] have s4: "co_ok st4" "ok \<longrightarrow> g_windows st4 = []" by simp_all
  have "shutdown ev timeout dq st =
    (if ev_steady ev (co_reads s2) \<ge> ?d then (False, s3)
     else case shutdown_loop ev ?d (map snd (g_windows s3)) (s3\<lparr>g_windows := []\<rparr>) of
       (False, st4) \<Rightarrow> (False, st4)
     | (True, st4) \<Rightarrow> (\<not> g_discarded_flush_failed st4, st4\<lparr>g_running := False\<rparr>))"
    using assms(2,3) by (simp add: shutdown_def Let_def s2_def s3_def)
  moreover have "co_ok (st4\<lparr>g_running := False\<rparr>)"
    using s4(1) by (simp add: co_ok_def shape_ok_def ledger_ok_def)
  ultimately show ?thesis using assms(4) s3 s4
    by (cases ok) (auto simp: l split: if_splits)
qed

section \<open>Draining one extension\<close>

lemma timer_callback_windows:
  "keys_ok (g_windows st) \<Longrightarrow> g_windows (timer_callback ev key st) = AList.delete key (g_windows st)"
proof (cases "map_of (g_windows st) key")
  case None
  then show ?thesis using delete_absent [of key "g_windows st"]
    by (simp add: timer_callback_None map_of_eq_None_iff)
next
  case (Some w)
  obtain tm where "timer_callback ev key st = snd (flush_or_discard ev w None
      (st\<lparr>g_windows := AList.delete key (g_windows st), g_timers := tm\<rparr>))"
    using timer_callback_Some [OF Some] by blast
  then show ?thesis using flush_or_discard_shape [OF surjective_pairing] by simp
qed

lemma timer_callbacks_windows:
  "keys_ok (g_windows st) \<Longrightarrow>
     g_windows (fold (timer_callback ev) ks st) = filter (\<lambda>kv. fst kv \<notin> set ks) (g_windows st)"
proof (induction ks arbitrary: st)
  case (Cons k ks)
  have "g_windows (timer_callback ev k st) = AList.delete k (g_windows st)"
    by (rule timer_callback_windows [OF Cons.prems])
  with Cons.IH [of "timer_callback ev k st"] keys_ok_delete [OF Cons.prems, of k] show ?case
    by (auto simp: AList.delete_eq intro!: filter_cong)
qed simp

lemma drain_filter:
  assumes "distinct_keys m"
  shows "filter (\<lambda>kv. fst kv \<notin> set (map fst (filter P m))) m = filter (\<lambda>kv. \<not> P kv) m"
proof (rule filter_cong [OF refl])
  fix kv assume kv: "kv \<in> set m"
  have "inj_on fst (set m)" using assms by (simp add: distinct_map)
  with kv show "fst kv \<notin> set (map fst (filter P m)) \<longleftrightarrow> \<not> P kv" by (auto dest: inj_onD)
qed

section \<open>Timers\<close>

text \<open>While the loop runs, every open window has its own timer pending.\<close>

definition timers_ok :: "coalescer \<Rightarrow> bool" where
  "timers_ok st \<longleftrightarrow> keys_ok (g_windows st) \<and> distinct_keys (g_timers st) \<and> 0 < g_next_timer st
     \<and> (\<forall>t\<in>set (g_timers st). 0 < fst t \<and> fst t < g_next_timer st)
     \<and> (\<forall>k w. map_of (g_windows st) k = Some w \<longrightarrow> (ws_timer_id w, k) \<in> set (g_timers st))"

lemma timers_okD: "timers_ok st \<Longrightarrow> map_of (g_windows st) k = Some w \<Longrightarrow> (ws_timer_id w, k) \<in> set (g_timers st)"
  by (cases k) (simp add: timers_ok_def del: map_of_eq_Some_iff)

text \<open>Removing a window together with timers of its key only.\<close>

lemma timers_ok_remove:
  assumes ok: "timers_ok st" and w: "g_windows st' = AList.delete key (g_windows st)"
    and t: "g_timers st' = filter P (g_timers st)" and n: "g_next_timer st' = g_next_timer st"
    and p: "\<And>x. x \<in> set (g_timers st) \<Longrightarrow> \<not> P x \<Longrightarrow> snd x = key"
  shows "timers_ok st'"
proof -
  have "(ws_timer_id v, j) \<in> set (g_timers st')" if "map_of (g_windows st') j = Some v" for j v
  proof -
    have "j \<noteq> key" "map_of (g_windows st) j = Some v"
      using that by (auto simp: w map_of_delete simp del: map_of_eq_Some_iff split: if_splits)
    then have "(ws_timer_id v, j) \<in> set (g_timers st)" using timers_okD [OF ok] by blast
    with p [of "(ws_timer_id v, j)"] \<open>j \<noteq> key\<close> show ?thesis by (auto simp: t)
  qed
  moreover have "keys_ok (g_windows st')" using ok by (simp add: w timers_ok_def keys_ok_delete)
  moreover have "distinct_keys (g_timers st')" using ok by (simp add: t timers_ok_def distinct_keys_filter)
  ultimately show ?thesis using ok by (auto simp: timers_ok_def t n)
qed

lemma same_timer_same_key:
  "timers_ok st \<Longrightarrow> (i, k) \<in> set (g_timers st) \<Longrightarrow> x \<in> set (g_timers st) \<Longrightarrow> fst x = i \<Longrightarrow> snd x = k"
  by (cases x) (auto simp: timers_ok_def dest: eq_key_imp_eq_value)

lemma timers_ok_callback:
  assumes ok: "timers_ok st" and l: "g_loop_thread st"
  shows "timers_ok (timer_callback ev key st)"
proof (cases "map_of (g_windows st) key")
  case (Some w)
  then have i: "(ws_timer_id w, key) \<in> set (g_timers st)" by (rule timers_okD [OF ok])
  then have "ws_timer_id w \<noteq> 0" using ok by (auto simp: timers_ok_def)
  then have c: "timer_callback ev key st = snd (flush_or_discard ev w None (st\<lparr>g_windows :=
      AList.delete key (g_windows st), g_timers := filter (\<lambda>t. fst t \<noteq> ws_timer_id w) (g_timers st)\<rparr>))"
    using Some l by (simp add: timer_callback_def claim_window_def)
  show ?thesis
    by (rule timers_ok_remove [OF ok, where key = key and P = "\<lambda>t. fst t \<noteq> ws_timer_id w"])
      (use flush_or_discard_shape [OF surjective_pairing] same_timer_same_key [OF ok i] in
        \<open>simp_all add: c\<close>)
qed (use ok in \<open>simp add: timer_callback_None\<close>)

lemma timers_ok_fire:
  assumes ok: "timers_ok st" and l: "g_loop_thread st"
  shows "timers_ok (timer_fire ev tid st)"
proof (cases "map_of (g_timers st) tid")
  case (Some key)
  let ?s = "st\<lparr>g_timers := filter (\<lambda>t. fst t \<noteq> tid) (g_timers st)\<rparr>"
  have i: "(tid, key) \<in> set (g_timers st)" using Some by (rule map_of_SomeD)
  have f: "timer_fire ev tid st = timer_callback ev key ?s" using Some by (simp add: timer_fire_def)
  have k: "keys_ok (g_windows st)" using ok by (simp add: timers_ok_def)
  have "\<exists>P. g_timers (timer_callback ev key ?s) = filter P (g_timers st)
      \<and> (\<forall>x\<in>set (g_timers st). \<not> P x \<longrightarrow> snd x = key)
      \<and> g_next_timer (timer_callback ev key ?s) = g_next_timer st"
  proof (cases "map_of (g_windows st) key")
    case None
    then have "timer_callback ev key ?s = ?s" by (intro timer_callback_None) simp
    then show ?thesis using same_timer_same_key [OF ok i] by (intro exI [of _ "\<lambda>t. fst t \<noteq> tid"]) auto
  next
    case (Some w)
    then have j: "(ws_timer_id w, key) \<in> set (g_timers st)" by (rule timers_okD [OF ok])
    have "map_of (g_windows ?s) key = Some w" using Some by simp
    from timer_callback_Some [OF this, of ev] obtain tm where
      "timer_callback ev key ?s = snd (flush_or_discard ev w None
         (?s\<lparr>g_windows := AList.delete key (g_windows ?s), g_timers := tm\<rparr>))"
      "tm = g_timers ?s \<or> tm = filter (\<lambda>t. fst t \<noteq> ws_timer_id w) (g_timers ?s)" by metis
    then have "(g_timers (timer_callback ev key ?s) = g_timers ?s
        \<or> g_timers (timer_callback ev key ?s) = filter (\<lambda>t. fst t \<noteq> ws_timer_id w) (g_timers ?s))
        \<and> g_next_timer (timer_callback ev key ?s) = g_next_timer st"
      using flush_or_discard_shape [OF surjective_pairing] by auto
    then show ?thesis using same_timer_same_key [OF ok i] same_timer_same_key [OF ok j]
      by (auto intro: exI [of _ "\<lambda>t. fst t \<noteq> tid"]
          exI [of _ "\<lambda>t. fst t \<noteq> ws_timer_id w \<and> fst t \<noteq> tid"])
  qed
  then obtain P where "g_timers (timer_callback ev key ?s) = filter P (g_timers st)"
    "\<And>x. x \<in> set (g_timers st) \<Longrightarrow> \<not> P x \<Longrightarrow> snd x = key"
    "g_next_timer (timer_callback ev key ?s) = g_next_timer st" by blast
  moreover have "g_windows (timer_callback ev key ?s) = AList.delete key (g_windows st)"
    using timer_callback_windows [of ?s ev key] k by simp
  ultimately show ?thesis unfolding f by (intro timers_ok_remove [OF ok])
qed (use ok in \<open>simp add: timer_fire_def\<close>)

lemma timers_ok_cong:
  "g_windows st' = g_windows st \<Longrightarrow> g_timers st' = g_timers st \<Longrightarrow> g_next_timer st' = g_next_timer st \<Longrightarrow>
     timers_ok st' = timers_ok st"
  by (simp add: timers_ok_def)

lemma flush_buckets_timers: "timers_ok (snd (flush_buckets ev ws n st)) = timers_ok st"
proof (induction ws arbitrary: n st)
  case (Cons w ws)
  obtain ok st1 where f: "flush_or_discard ev w (Some 0) st = (ok, st1)"
    by (cases "flush_or_discard ev w (Some 0) st")
  have "timers_ok st1 = timers_ok st"
    by (rule timers_ok_cong) (use flush_or_discard_shape [OF f] in simp_all)
  with Cons f show ?case by (cases ok) simp_all
qed simp

lemma timers_ok_write:
  assumes ok: "timers_ok st" and l: "g_loop_thread st"
  shows "timers_ok (record_write ev s t op n x scope st)"
proof (cases "\<not> cfg_enabled st \<or> g_shutting_down st \<or> n = 0 \<or> scope \<noteq> 0")
  case True
  then have "timers_ok (record_write ev s t op n x scope st) = timers_ok st"
    by (intro timers_ok_cong) (auto simp: record_write_def Let_def split: option.split)
  with ok show ?thesis by simp
next
  case False
  have k: "keys_ok (g_windows st)" using ok by (simp add: timers_ok_def)
  show ?thesis
  proof (cases "map_of (g_windows st) (s, t)")
    case None
    let ?w = "(bump op n (new_window ev (co_reads st) s t x))\<lparr>ws_timer_id := g_next_timer st\<rparr>"
    have "keys_ok (AList.update (s, t) ?w (g_windows st))" by (rule keys_ok_update [OF k]) simp
    moreover have "distinct_keys (g_timers st @ [(g_next_timer st, (s, t))])"
      using ok by (auto simp: timers_ok_def)
    ultimately show ?thesis using ok False None l timers_okD [OF ok]
      by (auto simp: record_write_def Let_def timers_ok_def map_of_update simp del: map_of_eq_Some_iff
          split: if_splits)
  next
    case (Some w)
    have w: "wkey_of w = (s, t)" using Some k by (simp add: keys_ok_def)
    have "keys_ok (AList.update (s, t) (bump op n w) (g_windows st))" by (rule keys_ok_update [OF k]) (simp add: w)
    moreover have "ws_timer_id (bump op n w) = ws_timer_id w"
      by (simp add: bump_def Let_def split: op_kind.split)
    ultimately show ?thesis using ok False Some timers_okD [OF ok]
      by (auto simp: record_write_def Let_def timers_ok_def map_of_update simp del: map_of_eq_Some_iff
          split: if_splits)
  qed
qed

lemma timers_ok_callbacks:
  "timers_ok st \<Longrightarrow> g_loop_thread st \<Longrightarrow> timers_ok (fold (timer_callback ev) ks st)"
proof (induction ks arbitrary: st)
  case (Cons k ks)
  have "g_loop_thread (timer_callback ev k st)"
    using timer_callback_flags [of ev k st] Cons.prems(2) by (simp add: live_flags_def)
  with Cons timers_ok_callback [OF Cons.prems] show ?case by simp
qed simp

interpretation co_timers: invariant_step "co_step ev" "\<lambda>_. True" "\<lambda>st. timers_ok st \<and> g_loop_thread st" for ev
proof
  fix st e assume a: "timers_ok st \<and> g_loop_thread st"
  have "g_loop_thread (co_step ev st e)" using co_step_flags [of ev st e] a by (simp add: live_flags_def)
  moreover have "timers_ok (co_step ev st e)"
  proof (cases e)
    case (Commit i)
    have "timers_ok (st\<lparr>g_scope_to_buckets := y\<rparr>) = timers_ok st" for y by (rule timers_ok_cong) simp_all
    with Commit a show ?thesis by (simp add: flush_batch_scope_def flush_buckets_timers split: option.split)
  next
    case (Rollback i)
    have "timers_ok (st\<lparr>g_scope_to_buckets := y, co_rolled_back := z\<rparr>) = timers_ok st" for y z
      by (rule timers_ok_cong) simp_all
    with Rollback a show ?thesis by (simp add: discard_batch_scope_def split: option.split)
  qed (use a in \<open>simp_all add: timers_ok_write timers_ok_fire timers_ok_callback timers_ok_callbacks
      drain_extension_def\<close>)
  ultimately show "timers_ok (co_step ev st e) \<and> g_loop_thread (co_step ev st e)" by simp
qed

section \<open>Properties\<close>


text \<open>A database that accepts everything, clocks that stand still, and a run with one write.\<close>

definition demo_co_env :: co_env where
  "demo_co_env = \<lparr>ev_write = (\<lambda>_. ''{}''), ev_max_bytes = 8000, ev_db_client = True,
     ev_enqueue = (\<lambda>_ _. True), ev_steady = (\<lambda>_. 0), ev_wall_ms = (\<lambda>_. 0),
     ev_emit_superseded = False, ev_audit_ready = True\<rparr>"


text \<open>
  No window is forgotten: at every moment of a run each open window has a pending timer for its own
  key, so it will be flushed without further writes; and firing it closes the window.
\<close>

theorem open_window_has_timer:
  assumes "st = foldl (co_step ev) (start True ms initial_coalescer) es"
    and "map_of (g_windows st) key = Some w"
  shows "map_of (g_timers st) (ws_timer_id w) = Some key
    \<and> map_of (g_windows (timer_fire ev (ws_timer_id w) st)) key = None"
proof -
  have "timers_ok (start True ms initial_coalescer) \<and> g_loop_thread (start True ms initial_coalescer)"
    by (simp add: timers_ok_def start_def initial_coalescer_def)
  then have ok: "timers_ok st"
    using co_timers.run_inv [of _ es ev] assms(1) by (simp add: list_all_iff)
  have "(ws_timer_id w, key) \<in> set (g_timers st)" by (rule timers_okD [OF ok assms(2)])
  then have m: "map_of (g_timers st) (ws_timer_id w) = Some key"
    using ok by (simp add: timers_ok_def)
  let ?s = "st\<lparr>g_timers := filter (\<lambda>t. fst t \<noteq> ws_timer_id w) (g_timers st)\<rparr>"
  have "g_windows (timer_callback ev key ?s) = AList.delete key (g_windows st)"
    using timer_callback_windows [of ?s ev key] ok by (simp add: timers_ok_def)
  then show ?thesis using m by (simp add: timer_fire_def map_of_delete)
qed

theorem open_window_has_timer_witness:
  "map_of (g_windows (timer_fire demo_co_env 1 (foldl (co_step demo_co_env) (start True 50 initial_coalescer)
     [Write ''notes'' ''items'' INSERT 3 [] 0]))) (''notes'', ''items'') = None"
proof -
  have "map_option ws_timer_id (map_of (g_windows (foldl (co_step demo_co_env)
      (start True 50 initial_coalescer) [Write ''notes'' ''items'' INSERT 3 [] 0])) (''notes'', ''items'')) = Some 1"
    by code_simp
  then obtain w where w: "map_of (g_windows (foldl (co_step demo_co_env) (start True 50 initial_coalescer)
      [Write ''notes'' ''items'' INSERT 3 [] 0])) (''notes'', ''items'') = Some w" "ws_timer_id w = 1"
    by (auto simp del: foldl.simps)
  from open_window_has_timer [OF refl w(1)] w(2) show ?thesis by simp
qed

text \<open>
  Draining an extension flushes its windows and only its windows: afterwards the open windows are
  exactly those of other owners, unchanged and in the same order.
\<close>

theorem drain_extension_exact:
  assumes "st = foldl (co_step ev) (start True ms initial_coalescer) es"
  shows "g_windows (drain_extension ev x st) = filter (\<lambda>kv. ws_extension (snd kv) \<noteq> x) (g_windows st)"
proof -
  have "co_ok st" unfolding assms by (rule co_run.run_inv [OF start_ok(1)]) (simp add: list_all_iff)
  then have k: "keys_ok (g_windows st)" by (simp add: co_ok_def shape_ok_def)
  have "live_flags st = (True, True, False, True)"
    unfolding assms by (rule co_flags.run_inv [OF start_ok(2)]) (simp add: list_all_iff)
  then have "drain_extension ev x st = fold (timer_callback ev)
      (map fst (filter (\<lambda>kv. ws_extension (snd kv) = x) (g_windows st))) st"
    by (simp add: drain_extension_def live_flags_def)
  then show ?thesis
    using timer_callbacks_windows [OF k] drain_filter [of "g_windows st"] k by (simp add: keys_ok_def)
qed

theorem drain_extension_exact_witness:
  "open_window_count (drain_extension demo_co_env ''a'' (foldl (co_step demo_co_env)
     (start True 50 initial_coalescer)
     [Write ''ext_a'' ''t'' INSERT 1 ''a'' 0, Write ''ext_b'' ''t'' INSERT 1 ''b'' 0])) = 1"
  unfolding open_window_count_def
  by (subst drain_extension_exact [OF refl]) code_simp


definition demo_unroutable :: coalescer where
  "demo_unroutable = foldl (co_step demo_co_env) (start True 50 initial_coalescer)
     [Write ''ext_notes'' ''_log'' INSERT 1 ''notes'' 0]"


end
