(* ===== verification/Kernel.thy ===== *)
theory Kernel
  imports Shutdown Connection_Registry Async_Tasks Coalescer
begin

text \<open>
  The kernel as the shutdown graph sees it (\<^verbatim>\<open>lifecycle/shutdown_coordinator.cpp\<close>): the ingress gate
  with the count of HTTP requests in progress, and the hooks of the graph over the connection registry,
  the registry of asynchronous work and the coalescer. Hooks of parts outside the model answer what the
  environment says. Other threads act between the steps of the graph and while a step waits; their
  events are part of the environment.
\<close>

record kernel =
  kn_accepting :: bool
  kn_active_requests :: nat
  kn_tracked :: "nat list"
  kn_next_request :: nat
  kn_conns :: conn_registry
  kn_tasks :: async_tasks
  kn_coal :: coalescer

definition initial_kernel :: "nat \<Rightarrow> kernel" where
  "initial_kernel window_ms =
     \<lparr>kn_accepting = True, kn_active_requests = 0, kn_tracked = [], kn_next_request = 0,
      kn_conns = initial_conn_registry, kn_tasks = initial_async_tasks,
      kn_coal = start True window_ms initial_coalescer\<rparr>"

section \<open>The ingress gate\<close>

text \<open>The pre-handling advice: an admitted request is counted and marked. \<open>None\<close> is the answer 503.\<close>

definition pre_handling :: "kernel \<Rightarrow> nat option \<times> kernel" where
  "pre_handling k =
     (if kn_accepting k
      then (Some (kn_next_request k),
            k\<lparr>kn_active_requests := kn_active_requests k + 1,
              kn_tracked := kn_next_request k # kn_tracked k, kn_next_request := kn_next_request k + 1\<rparr>)
      else (None, k))"

definition post_handling :: "nat \<Rightarrow> kernel \<Rightarrow> kernel" where
  "post_handling request k =
     (if request \<notin> set (kn_tracked k) then k
      else k\<lparr>kn_tracked := remove1 request (kn_tracked k),
             kn_active_requests := kn_active_requests k - 1\<rparr>)"

definition accepting_ingress :: "kernel \<Rightarrow> bool" where
  "accepting_ingress k = kn_accepting k"

record shutdown_env =
  se_ws :: ws_env
  se_co :: co_env
  se_cancel :: "reg_event list list"
  se_close :: "reg_event list"
  se_release :: "reg_event list"
  se_retry_lock :: bool
  se_drain :: "drain_turn list"
  se_co_timeout :: time_ns
  se_dequeued :: "wkey list"
  se_batches :: "nat list"
  se_other :: "string \<Rightarrow> bool"

datatype kernel_event =
    Request
  | Response nat
  | Conn reg_event
  | Task at_event
  | Coal co_event

fun kernel_step :: "shutdown_env \<Rightarrow> kernel \<Rightarrow> kernel_event \<Rightarrow> kernel" where
  "kernel_step ev k Request = snd (pre_handling k)"
| "kernel_step ev k (Response r) = post_handling r k"
| "kernel_step ev k (Conn e) = k\<lparr>kn_conns := reg_step (se_ws ev) (kn_conns k) e\<rparr>"
| "kernel_step ev k (Task e) = k\<lparr>kn_tasks := at_step (kn_tasks k) e\<rparr>"
| "kernel_step ev k (Coal e) = k\<lparr>kn_coal := co_step (se_co ev) (kn_coal k) e\<rparr>"

section \<open>The hooks\<close>

type_synonym hook = "kernel \<Rightarrow> hook_result \<times> kernel"

definition answer :: "bool \<Rightarrow> hook_result" where
  "answer b = (if b then Succeeds else Fails)"

definition close_ingress :: "shutdown_env \<Rightarrow> hook" where
  "close_ingress ev k =
     (let k1 = k\<lparr>kn_tasks := close_admission (kn_tasks k)\<rparr>
      in case cancel_all_timers (se_ws ev) (se_cancel ev) (kn_conns k1) of
           (False, r1) \<Rightarrow> (Fails, k1\<lparr>kn_conns := r1\<rparr>)
         | (True, r1) \<Rightarrow>
             (case close_all_connections (se_ws ev) (se_close ev) r1 of
                (None, r2) \<Rightarrow> (Throws, k1\<lparr>kn_conns := r2\<rparr>)
              | (Some False, r2) \<Rightarrow> (Fails, k1\<lparr>kn_conns := r2\<rparr>)
              | (Some True, r2) \<Rightarrow> (Succeeds, k1\<lparr>kn_conns := initiate_shutdown r2\<rparr>)))"

definition drain_http_requests :: hook where
  "drain_http_requests k = (answer (kn_active_requests k = 0), k)"

text \<open>A call that has not returned within the turns given is a call that did not return in time.\<close>

definition drain_async_tasks :: "shutdown_env \<Rightarrow> hook" where
  "drain_async_tasks ev k =
     (case drain (se_retry_lock ev) (se_drain ev) (kn_tasks k) of
        (Some b, t) \<Rightarrow> (answer b, k\<lparr>kn_tasks := t\<rparr>)
      | (None, t) \<Rightarrow> (Fails, k\<lparr>kn_tasks := t\<rparr>))"

definition other_hook :: "shutdown_env \<Rightarrow> string \<Rightarrow> hook" where
  "other_hook ev name k = (answer (se_other ev name), k)"

definition flush_database_state :: "shutdown_env \<Rightarrow> hook" where
  "flush_database_state ev k =
     (let c0 = fold (\<lambda>i c. snd (discard_batch_scope i c)) (se_batches ev) (kn_coal k);
          (ok, c1) = shutdown (se_co ev) (se_co_timeout ev) (se_dequeued ev) c0;
          k1 = k\<lparr>kn_coal := c1\<rparr>
      in if \<not> ok \<or> \<not> se_other ev ''drain_listener'' then (Fails, k1)
         else if \<not> se_other ev ''events_writer'' then (Fails, k1)
         else if \<not> se_other ev ''stop_listener'' then (Fails, k1)
         else (Succeeds, k1))"

definition stop_drogon :: "shutdown_env \<Rightarrow> hook" where
  "stop_drogon ev k =
     (case release_connections (se_ws ev) (se_release ev) (kn_conns k) of
        (b, r) \<Rightarrow> (answer b, k\<lparr>kn_conns := r\<rparr>))"

definition graph_steps :: "shutdown_env \<Rightarrow> (string \<times> hook) list" where
  "graph_steps ev =
     [(''close_ingress'', close_ingress ev),
      (''drain_http_requests'', drain_http_requests),
      (''stop_listeners'', other_hook ev ''stop_listeners''),
      (''drain_async_tasks'', drain_async_tasks ev),
      (''drain_rbac_workers'', other_hook ev ''drain_rbac_workers''),
      (''drain_extension_dispatches'', other_hook ev ''drain_extension_dispatches''),
      (''drain_js_stress_dispatches'', other_hook ev ''drain_js_stress_dispatches''),
      (''flush_database_state'', flush_database_state ev),
      (''close_audit_gate'', other_hook ev ''close_audit_gate''),
      (''stop_drogon'', stop_drogon ev)]"

definition run_graph :: "shutdown_env \<Rightarrow> (string \<Rightarrow> kernel_event list) \<Rightarrow> kernel \<Rightarrow> shutdown_result \<times> kernel" where
  "run_graph ev others k =
     run_steps (\<lambda>name k. foldl (kernel_step ev) k (others name)) (graph_steps ev) no_result
       (k\<lparr>kn_accepting := False\<rparr>)"

section \<open>The coalescer after its shutdown\<close>

lemma shutdown_loop_seal: "g_shutting_down (snd (shutdown_loop ev d ws st)) = g_shutting_down st"
proof (induction ev d ws st rule: shutdown_loop.induct)
  case (2 ev d w ws st)
  let ?s = "st\<lparr>co_reads := co_reads st + 1\<rparr>"
  obtain r st2 where f: "flush_snapshot ev w None ?s = (r, st2)" by (cases "flush_snapshot ev w None ?s")
  have "g_shutting_down st2 = g_shutting_down st" using flush_snapshot_frame [OF f] by auto
  with 2 f show ?case by (auto simp: Let_def restore_windows_def split: option.split)
qed simp

lemma shutdown_seals:
  assumes "g_running st" and "cfg_enabled st"
  shows "g_shutting_down (snd (shutdown ev timeout dq st))"
proof -
  let ?s0 = "st\<lparr>g_shutting_down := True, co_reads := co_reads st + 1\<rparr>"
  have seal: "g_shutting_down (stop_loop ev dq s)" if "g_shutting_down s" for s
  proof -
    have "live_flags (fold (timer_callback ev) dq s') = live_flags s'" for s' by simp
    then have "g_shutting_down (fold (timer_callback ev) dq s') = g_shutting_down s'" for s'
      by (simp add: live_flags_def)
    with that show ?thesis by (simp add: stop_loop_def Let_def)
  qed
  let ?s2 = "stop_loop ev dq ?s0"
  let ?s3 = "?s2\<lparr>co_reads := co_reads ?s2 + 1\<rparr>"
  let ?d = "ev_steady ev (co_reads st) + timeout"
  have s: "g_shutting_down ?s2" by (rule seal) simp
  then have "g_shutting_down (snd (shutdown_loop ev ?d (map snd (g_windows ?s3)) (?s3\<lparr>g_windows := []\<rparr>)))"
    by (simp add: shutdown_loop_seal)
  with s assms show ?thesis
    by (auto simp: shutdown_def Let_def split: prod.split bool.split)
qed

definition closed_co :: "coalescer \<Rightarrow> bool" where
  "closed_co c \<longleftrightarrow> co_ok c \<and> g_shutting_down c \<and> g_windows c = [] \<and> \<not> g_discarded_flush_failed c"

fun no_commit :: "co_event \<Rightarrow> bool" where
  "no_commit (Commit _) = False"
| "no_commit _ = True"

interpretation co_closed: invariant_step "co_step ev" no_commit closed_co for ev
proof
  fix c e assume c: "closed_co c" and n: "no_commit e"
  have ok: "co_ok (co_step ev c e)" by (rule co_run.step_inv) (use c in \<open>simp_all add: closed_co_def\<close>)
  show "closed_co (co_step ev c e)"
  proof (cases e)
    case (Write s t op m x scope)
    with c show ?thesis by (simp add: closed_co_def record_write_def)
  next
    case (Fire i)
    have "g_windows (c\<lparr>g_timers := y\<rparr>) = []" for y using c by (simp add: closed_co_def)
    then have "timer_callback ev key (c\<lparr>g_timers := y\<rparr>) = c\<lparr>g_timers := y\<rparr>" for key y
      by (intro timer_callback_None) simp
    with ok Fire c show ?thesis by (auto simp: closed_co_def timer_fire_def split: option.split)
  next
    case (Callback key)
    with c show ?thesis by (simp add: closed_co_def timer_callback_None)
  next
    case (Rollback i)
    with ok c show ?thesis by (auto simp: closed_co_def discard_batch_scope_def split: option.split)
  qed (use n c ok in \<open>auto simp: closed_co_def drain_extension_def\<close>)
qed

section \<open>Stages of the graph\<close>

fun no_late_commit :: "kernel_event \<Rightarrow> bool" where
  "no_late_commit (Coal e) = no_commit e"
| "no_late_commit _ = True"

definition stage :: "nat \<Rightarrow> kernel \<Rightarrow> bool" where
  "stage n k \<longleftrightarrow> \<not> kn_accepting k \<and> kn_active_requests k = length (kn_tracked k)
   \<and> at_ok [] (kn_tasks k) \<and> queue_ok (kn_conns k)
   \<and> (n \<ge> 1 \<longrightarrow> \<not> at_accepting (kn_tasks k))
   \<and> (n \<ge> 2 \<longrightarrow> kn_tracked k = [])
   \<and> (n \<ge> 3 \<longrightarrow> at_leases (kn_tasks k) = [])
   \<and> (if n \<ge> 4 then closed_co (kn_coal k)
      else co_ok (kn_coal k) \<and> live_flags (kn_coal k) = (True, True, False, True))"

lemma at_step_closed:
  assumes "\<not> at_accepting st"
  shows "\<not> at_accepting (at_step st e)" and "at_leases st = [] \<Longrightarrow> at_leases (at_step st e) = []"
  using assms by (cases e; simp add: try_acquire_def drop_lease_def close_admission_def retain_cleanup_def
      notify_cleanup_progress_def Let_def)+

interpretation kernel_stage: invariant_step "kernel_step ev" "\<lambda>e. n \<ge> 4 \<longrightarrow> no_late_commit e" "stage n" for ev n
proof
  fix k e assume s: "stage n k" and a: "n \<ge> 4 \<longrightarrow> no_late_commit e"
  show "stage n (kernel_step ev k e)"
  proof (cases e)
    case Request
    with s show ?thesis by (simp add: stage_def pre_handling_def)
  next
    case (Response r)
    with s show ?thesis by (auto simp: stage_def post_handling_def length_remove1)
  next
    case (Conn c)
    from s have "queue_ok (reg_step (se_ws ev) (kn_conns k) c)" by (simp add: stage_def queue_ok_step)
    with s Conn show ?thesis by (simp add: stage_def)
  next
    case (Task t)
    from s have "at_ok [] (at_step (kn_tasks k) t)" by (intro at_run.step_inv) (simp_all add: stage_def)
    with s Task at_step_closed [of "kn_tasks k" t] show ?thesis by (auto simp: stage_def)
  next
    case (Coal c)
    have "closed_co (co_step (se_co ev) (kn_coal k) c)" if "n \<ge> 4"
      using that a Coal s by (intro co_closed.step_inv) (simp_all add: stage_def)
    moreover have "co_ok (co_step (se_co ev) (kn_coal k) c)" if "co_ok (kn_coal k)"
      using that by (intro co_run.step_inv) simp_all
    ultimately show ?thesis using Coal s by (auto simp: stage_def co_step_flags)
  qed
qed

lemma at_closed_run: "\<not> at_accepting st \<Longrightarrow> \<not> at_accepting (foldl at_step st es)"
  by (induction es arbitrary: st) (simp_all add: at_step_closed del: at_step.simps)

lemma retry_one_closed: "\<not> at_accepting st \<Longrightarrow> \<not> at_accepting (snd (retry_one b during ow st))"
  using at_closed_run [of st during] by (simp add: retry_one_def Let_def)

lemma retry_loop_closed: "\<not> at_accepting st \<Longrightarrow> \<not> at_accepting (snd (retry_loop as local p st))"
proof (induction as local p st rule: retry_loop.induct)
  case (2 as ow local p st)
  obtain ok during where a: "(case as of [] \<Rightarrow> (False, []) | a # _ \<Rightarrow> a) = (ok, during)"
    by (cases "case as of [] \<Rightarrow> (False, []) | a # _ \<Rightarrow> a")
  obtain p1 st1 where r: "retry_one ok during ow st = (p1, st1)" by (cases "retry_one ok during ow st")
  have "\<not> at_accepting st1" using retry_one_closed [OF "2.prems", of ok during ow] r by simp
  from "2.IH" [OF a [symmetric] refl r [symmetric] refl this] show ?case using a r by simp
qed simp

lemma drain_loop_closed: "\<not> at_accepting st \<Longrightarrow> \<not> at_accepting (snd (drain_loop ds st))"
proof (induction ds st rule: drain_loop.induct)
  case (2 d ds st)
  obtain p st1 where r: "retry_cleanups (dt_attempts d) st = (p, st1)" by (cases "retry_cleanups (dt_attempts d) st")
  have "\<not> at_accepting (st\<lparr>at_head := []\<rparr>)" using "2.prems" by simp
  from retry_loop_closed [OF this] r have "\<not> at_accepting st1" by (metis retry_cleanups_def snd_conv)
  then have "\<not> at_accepting (foldl at_step st1 (dt_between d))"
    "\<not> at_accepting (foldl at_step (foldl at_step st1 (dt_between d)) (dt_parked d))"
    by (simp_all add: at_closed_run)
  with 2 r show ?case by (auto simp: Let_def)
qed simp

lemma answer_Succeeds [simp]: "answer b = Succeeds \<longleftrightarrow> b"
  by (simp add: answer_def)

lemma close_ingress_stage:
  assumes s: "stage 0 k" and c: "close_ingress ev k = (Succeeds, k')"
  shows "stage 1 k'"
proof -
  let ?t = "close_admission (kn_tasks k)"
  obtain b r1 where r1: "cancel_all_timers (se_ws ev) (se_cancel ev) (kn_conns k) = (b, r1)"
    by (cases "cancel_all_timers (se_ws ev) (se_cancel ev) (kn_conns k)")
  obtain b2 r2 where r2: "close_all_connections (se_ws ev) (se_close ev) r1 = (b2, r2)"
    by (cases "close_all_connections (se_ws ev) (se_close ev) r1")
  have k': "k' = k\<lparr>kn_tasks := ?t, kn_conns := initiate_shutdown r2\<rparr>"
    using c r1 r2 by (auto simp: close_ingress_def Let_def split: bool.splits option.splits)
  have q: "queue_ok (op_step (se_ws ev) r e)" if "queue_ok r" for r e
    by (rule registry_queue.step_inv) (use that in simp_all)
  have "queue_ok r1" using q [of "kn_conns k" "CancelTimers (se_cancel ev)"] s r1 by (simp add: stage_def)
  then have "queue_ok r2" using q [of r1 "CloseAll (se_close ev)"] r2 by simp
  then have "queue_ok (initiate_shutdown r2)" using q [of r2 InitiateShutdown] by simp
  moreover have "at_ok [] ?t" using s by (simp add: stage_def at_ok_def close_admission_def owner_of_def)
  ultimately show ?thesis using s by (simp add: stage_def k' close_admission_def)
qed

lemma drain_http_stage: "stage 1 k \<Longrightarrow> drain_http_requests k = (Succeeds, k') \<Longrightarrow> stage 2 k'"
  by (auto simp: drain_http_requests_def stage_def)

lemma other_stage: "stage n k \<Longrightarrow> other_hook ev nm k = (r, k') \<Longrightarrow> stage n k'"
  by (simp add: other_hook_def)

lemma drain_async_stage:
  assumes s: "stage 2 k" and d: "drain_async_tasks ev k = (Succeeds, k')"
  shows "stage 3 k'"
proof -
  obtain t where t: "drain_loop (se_drain ev) (kn_tasks k) = (Some True, t)" "k' = k\<lparr>kn_tasks := t\<rparr>"
    using d by (auto simp: drain_async_tasks_def drain_def split: prod.splits option.splits if_splits)
  have "at_ok [] t" using s drain_loop_ok [OF _ t(1)] by (simp add: stage_def)
  moreover have "at_leases t = []" using drain_loop_True [OF t(1)] calculation by (simp add: at_ok_def quiescent_def)
  moreover have "\<not> at_accepting t" using drain_loop_closed [of "kn_tasks k" "se_drain ev"] s t(1) by (simp add: stage_def)
  ultimately show ?thesis using s t(2) by (simp add: stage_def)
qed

lemma discards_ok:
  "co_ok c \<and> live_flags c = f \<Longrightarrow> co_ok (fold (\<lambda>i c. snd (discard_batch_scope i c)) is c)
     \<and> live_flags (fold (\<lambda>i c. snd (discard_batch_scope i c)) is c) = f"
proof (induction "is" arbitrary: c)
  case (Cons i "is")
  have "live_flags (snd (discard_batch_scope i c)) = live_flags c" using co_step_flags [of undefined c "Rollback i"] by simp
  with Cons discard_batch_scope_ok show ?case by simp
qed simp

lemma flush_stage:
  assumes s: "stage 3 k" and f: "flush_database_state ev k = (Succeeds, k')"
  shows "stage 4 k'"
proof -
  let ?c = "fold (\<lambda>i c. snd (discard_batch_scope i c)) (se_batches ev) (kn_coal k)"
  obtain ok c1 where c1: "shutdown (se_co ev) (se_co_timeout ev) (se_dequeued ev) ?c = (ok, c1)"
    by (cases "shutdown (se_co ev) (se_co_timeout ev) (se_dequeued ev) ?c")
  have k': "ok" "k' = k\<lparr>kn_coal := c1\<rparr>"
    using f c1 by (auto simp: flush_database_state_def Let_def split: if_splits)
  have c: "co_ok ?c \<and> live_flags ?c = (True, True, False, True)" using s by (intro discards_ok) (simp add: stage_def)
  then have "co_ok c1 \<and> g_windows c1 = [] \<and> \<not> g_discarded_flush_failed c1"
    using shutdown_ok [OF _ _ _ c1] k'(1) by (simp add: live_flags_def)
  moreover have "g_shutting_down c1"
    using shutdown_seals [of ?c "se_co ev" "se_co_timeout ev" "se_dequeued ev"] c c1 by (simp add: live_flags_def)
  ultimately show ?thesis using s k'(2) by (simp add: stage_def closed_co_def)
qed

definition late_ok :: "(string \<Rightarrow> kernel_event list) \<Rightarrow> bool" where
  "late_ok others \<longleftrightarrow> list_all no_late_commit (others ''close_audit_gate'') \<and>
     list_all no_late_commit (others ''stop_drogon'')"

lemma stage_between:
  "stage n k \<Longrightarrow> n < 4 \<or> list_all no_late_commit es \<Longrightarrow> stage n (foldl (kernel_step ev) k es)"
  by (rule kernel_stage.run_inv) (auto simp: list_all_iff)

definition quiet :: "kernel \<Rightarrow> bool" where
  "quiet k \<longleftrightarrow> stage 4 k \<and> cr_conns (kn_conns k) = [] \<and>
     list_all (\<lambda>lt. \<not> is_release (snd lt)) (cr_queue (kn_conns k))"

lemma stop_drogon_stage:
  assumes s: "stage 4 k" and d: "stop_drogon ev k = (Succeeds, k')"
  shows "quiet k'"
proof -
  obtain r where r: "release_connections (se_ws ev) (se_release ev) (kn_conns k) = (True, r)" "k' = k\<lparr>kn_conns := r\<rparr>"
    using d by (auto simp: stop_drogon_def split: prod.splits)
  have "queue_ok (op_step (se_ws ev) (kn_conns k) (Release (se_release ev)))"
    by (rule registry_queue.step_inv) (use s in \<open>simp_all add: stage_def\<close>)
  with r have "queue_ok r" by simp
  moreover have "queue_ok (kn_conns k)" using s by (simp add: stage_def)
  ultimately show ?thesis using release_complete [OF _ r(1)] s r(2) by (simp add: quiet_def stage_def)
qed

lemma graph_stages:
  assumes "late_ok others"
  shows "stages (\<lambda>name k. foldl (kernel_step ev) k (others name)) (stage 0) (graph_steps ev)
     [stage 1, stage 2, stage 2, stage 3, stage 3, stage 3, stage 3, stage 4, stage 4, quiet]"
proof -
  have early: "stage 0 k \<Longrightarrow> stage 0 (foldl (kernel_step ev) k es)" "stage 1 k \<Longrightarrow> stage 1 (foldl (kernel_step ev) k es)"
    "stage 2 k \<Longrightarrow> stage 2 (foldl (kernel_step ev) k es)" "stage 3 k \<Longrightarrow> stage 3 (foldl (kernel_step ev) k es)" for k es
    by (simp_all add: stage_between)
  have late: "stage 4 k \<Longrightarrow> stage 4 (foldl (kernel_step ev) k (others ''close_audit_gate''))"
    "stage 4 k \<Longrightarrow> stage 4 (foldl (kernel_step ev) k (others ''stop_drogon''))" for k
    using assms by (simp_all add: stage_between late_ok_def)
  show ?thesis
    unfolding graph_steps_def stages.simps
    by (intro conjI allI impI TrueI refl)
      (erule (1) close_ingress_stage [OF early(1)] drain_http_stage [OF early(2)] other_stage [OF early(3)]
        drain_async_stage [OF early(3)] other_stage [OF early(4)] flush_stage [OF early(4)]
        other_stage [OF late(1)] stop_drogon_stage [OF late(2)])+
qed

text \<open>While the kernel serves, all of the first assertion holds except that the gate is closed.\<close>

definition serving_ok :: "kernel \<Rightarrow> bool" where
  "serving_ok k \<longleftrightarrow> stage 0 (k\<lparr>kn_accepting := False\<rparr>)"

interpretation kernel_serving: invariant_step "kernel_step ev" "\<lambda>_. True" serving_ok for ev
proof
  fix k e assume s: "serving_ok k"
  show "serving_ok (kernel_step ev k e)"
  proof (cases e)
    case Request
    with s show ?thesis by (simp add: serving_ok_def stage_def pre_handling_def)
  next
    case (Response r)
    with s show ?thesis by (auto simp: serving_ok_def stage_def post_handling_def length_remove1)
  qed (use s kernel_stage.step_inv [of 0 "k\<lparr>kn_accepting := False\<rparr>" e ev] in \<open>simp_all add: serving_ok_def stage_def\<close>)
qed

lemma initial_serving: "serving_ok (initial_kernel ms)"
  using start_ok [of ms]
  by (simp add: serving_ok_def stage_def initial_kernel_def at_ok_def initial_async_tasks_def owner_of_def queue_ok_def
      initial_conn_registry_def is_done_def)

lemma clean_graph_quiet:
  assumes "serving_ok k" and "run_graph ev others k = (res, k')" and "sr_clean res" and "late_ok others"
  shows "quiet k'"
proof -
  have "last (stage 0 # [stage 1, stage 2, stage 2, stage 3, stage 3, stage 3, stage 3, stage 4, stage 4, quiet]) k'"
    by (rule clean_run_stages [OF graph_stages [OF assms(4)]])
      (use assms(1-3) in \<open>simp_all add: serving_ok_def run_graph_def\<close>)
  then show ?thesis by simp
qed

end
