(* ===== verification/Spec2Isabelle.thy ===== *)
theory Spec2Isabelle
  imports Http_Frames Rate_Limiter Resolution Rule_Validator Cursor_Store Kernel
begin

text \<open>
  A verification development of the Plinth application kernel (C++, the sources under
  \<^verbatim>\<open>src/src/kernel\<close>). Plinth hosts extensions: packages register capabilities, callers reach them
  through a permission-checked resolver, database writes are announced on realtime channels, and
  authenticated WebSocket connections receive the announcements. The development models the parts of
  the kernel that decide (who may call, what a name means, which event is sent) and the parts whose
  correctness depends on interleavings (drains, caches, registries, shutdown).

  \<^bold>\<open>How the code is modelled.\<close> Structures are records, enumerations datatypes, operations functions over
  an explicit state. An operation that holds a mutex from its first to its last access is one atomic
  step; an operation that releases it, or suspends at a \<^verbatim>\<open>co_await\<close>, is split there, and the steps of
  other threads in between are either an argument (a list of events) or arbitrary interleavings of the
  run. Hash maps are association lists with distinct keys, whose order stands for the unspecified
  iteration order. Clocks, database outcomes, the JSON serialiser, Drogon's connections and event loops
  are arguments of the definitions that use them. Errors are values of a sum or option type. History
  variables (what was accepted, sent, dropped, closed) are recorded where a property speaks about them
  and are never read by the operations. Invariants of runs are established through the locale
  \<open>invariant_step\<close> of the theory \<^verbatim>\<open>Prelude\<close>, interpreted on the step function of each component.

  \<^bold>\<open>Theories, in the order they build on each other.\<close>
  \<^item> \<^verbatim>\<open>Prelude\<close>: names of types, fixed-width conversions, association lists, sums over tables, the
    locale of step invariants. \<^verbatim>\<open>Cpp_Strings\<close>: the string functions the source uses. \<^verbatim>\<open>Json\<close>: the
    part of JsonCpp's value type the source uses.
  \<^item> \<^verbatim>\<open>Rate_Limiter\<close> (\<^verbatim>\<open>auth/rate_limiter.cpp\<close>): the sliding window. No key is admitted more often than
    allowed in any window, and the table of keys stays bounded.
  \<^item> \<^verbatim>\<open>Capability_Names\<close> (\<^verbatim>\<open>capabilities/parser.cpp\<close>, \<^verbatim>\<open>capabilities/validation.cpp\<close>): signatures are parsed exactly as
    the grammar says, and printing is inverse to parsing.
  \<^item> \<^verbatim>\<open>Drain\<close> (\<^verbatim>\<open>capabilities/drain.cpp\<close>): an inductive step relation over
    threads that enter and leave dispatches; a fenced application admits nobody and a drain that
    returns has waited for everybody admitted before.
  \<^item> \<^verbatim>\<open>Resolution\<close> (\<^verbatim>\<open>capabilities/resolution.cpp\<close>): the two-tier resolver, synchronous, asynchronous and
    batched calls. Success requires authority, denials are audited, chains end at the depth limit, and
    the asynchronous path refines the synchronous one.
  \<^item> \<^verbatim>\<open>Channels\<close> (\<^verbatim>\<open>realtime/channel.cpp\<close>, \<^verbatim>\<open>rbac/subscribe_rule.cpp\<close>): the channel grammar, owners and
    derived subscription rules. \<^verbatim>\<open>Rule_Validator\<close> (\<^verbatim>\<open>rbac/rule_validator.cpp\<close>): the install-time checks.
  \<^item> \<^verbatim>\<open>Sql_Classify\<close> (\<^verbatim>\<open>realtime/sql_classify.cpp\<close>), \<^verbatim>\<open>Emit\<close> (\<^verbatim>\<open>realtime/emit.cpp\<close>) and \<^verbatim>\<open>Coalescer\<close>
    (\<^verbatim>\<open>realtime/coalescer.cpp\<close>): from a statement to the envelope that announces it. A ledger accounts
    for every row: accepted rows are in an open window, an undecided batch, an envelope sent, a batch
    rolled back, or a flush known to have failed; every open window has a pending timer.
  \<^item> \<^verbatim>\<open>Cursor_Store\<close> (\<^verbatim>\<open>realtime/cursor_store.cpp\<close>): the write-back cache of delivery cursors, with
    statements that land in any order or fail; the table is a monotone store (locale \<open>advancing_store\<close>).
  \<^item> \<^verbatim>\<open>Connection_Registry\<close> (\<^verbatim>\<open>ws/connection_registry.cpp\<close>): connections, event loops as task queues and
    promises. The locale \<open>promised\<close> states what a fulfilled promise proves; it is interpreted for the
    release, close and cancel tasks.
  \<^item> \<^verbatim>\<open>Async_Tasks\<close> (\<^verbatim>\<open>lifecycle/async_task_registry.cpp\<close>): leases and cleanup owners.
  \<^item> \<^verbatim>\<open>Shutdown\<close> and \<^verbatim>\<open>Kernel\<close> (\<^verbatim>\<open>lifecycle/shutdown_coordinator.cpp\<close>): the graph of shutdown steps with
    a rule for clean runs, the thread protocol as an inductive step relation, and the hooks over the
    components above.
  \<^item> \<^verbatim>\<open>Http_Utf8\<close>, \<^verbatim>\<open>Http_Text\<close>, \<^verbatim>\<open>Http_Target\<close>, \<^verbatim>\<open>Http_Base64\<close>, \<^verbatim>\<open>Http_Sax\<close> and \<^verbatim>\<open>Http_Codec\<close>
    (\<^verbatim>\<open>extension_http/codec.cpp\<close>): the wire format between the kernel and an extension's HTTP adapter.
    Each validator is shown equal to an independent grammar (UTF-8, semantic versions, base64, closed
    documents), targets mean the same before and after percent decoding, and what is written is read
    back. The JSON library is a parameter (record \<open>json_lib\<close>); only that it reads back what it wrote is assumed.
  \<^item> \<^verbatim>\<open>Http_Credits\<close> and \<^verbatim>\<open>Http_Arbiter\<close> (\<^verbatim>\<open>extension_http/ownership.cpp\<close>): admission credits and memory
    charges with exact accounting, deadlines at their 64-bit width, and the arbiter that lets
    at most one durable response reach the wire.
  \<^item> \<^verbatim>\<open>Http_Frame_Sax\<close> and \<^verbatim>\<open>Http_Frames\<close> (\<^verbatim>\<open>extension_http/frames.cpp\<close>): the frame protocol. The
    streaming prepass accepts exactly the documents of a table of record shapes; after it the reader
    never takes a missing or mistyped member; frames, header included, are read back as written;
    and every call returns the memory it reserved, except the charge its result owns.
  \<^item> This theory: what spans components. Which subscription rules can be declared at all, and what a
    clean shutdown certifies about requests, asynchronous work, connections and realtime events.

  \<^bold>\<open>Bounds and fuel.\<close> All functions are total. Loops over containers are structural recursions; the SQL
  scanner and the resolver's call chain have termination proofs (the chain by the call depth limit). The
  waiting loop of \<open>drain\<close> in \<^verbatim>\<open>Async_Tasks\<close> takes the list of its turns; the answer \<open>None\<close> says that it has
  not returned within them, and theorems about its answer are about \<open>Some\<close>. Counters are natural numbers:
  the sizes they count are far below their width. Sequence numbers of the cursor store are integers,
  as they are \<^verbatim>\<open>int64\<close> database sequences. The rate limiter's conversion to \<^verbatim>\<open>int\<close> is written out with its wrap-around.

  \<^bold>\<open>Not modelled.\<close> The JavaScript runtime and its bindings (\<^verbatim>\<open>js\<close>), the extension and package
  management (\<^verbatim>\<open>extensions\<close>, \<^verbatim>\<open>packages\<close>), the HTTP controllers (\<^verbatim>\<open>auth\<close> apart from the limiter,
  \<^verbatim>\<open>groups\<close>, \<^verbatim>\<open>frontend\<close>, \<^verbatim>\<open>shell\<close>), the durable dispatch store,
  the authentication and the QuickJS codec of \<^verbatim>\<open>extension_http\<close>, database access and schema bootstrap (\<^verbatim>\<open>db\<close>), the
  scheduled tasks, logging and process startup: they are dominated by calls into QuickJS, Drogon, libpq,
  libgit2 and the file system, whose behaviour they mostly pass on. Of the realtime and WebSocket parts
  the broker, the listener, the events writer, replay and subscription handling are not modelled yet.
\<close>

section \<open>Subscription rules against the rule grammar\<close>



section \<open>What a clean shutdown certifies\<close>


definition demo_shutdown_env :: shutdown_env where
  "demo_shutdown_env =
     \<lparr>se_ws = demo_ws_env, se_co = demo_co_env, se_cancel = [[Run 5]], se_close = [Run 5], se_release = [Run 5],
      se_retry_lock = True, se_drain = [demo_turn], se_co_timeout = 10, se_dequeued = [], se_batches = [],
      se_other = (\<lambda>_. True)\<rparr>"

definition demo_served :: "kernel_event list" where
  "demo_served = [Request, Conn (Accept 1 (demo_state 5)), Conn (Register (''session'', ''a'') 11 (Some 1)),
     Task Acquire, Task (Retain 7), Coal (Write ''notes'' ''items'' INSERT 3 [] 0)]"

definition demo_others :: "string \<Rightarrow> kernel_event list" where
  "demo_others s = (if s = ''drain_http_requests'' then [Response 0] else [])"

definition demo_outcome :: "shutdown_result \<times> kernel \<Rightarrow> bool \<times> nat \<times> nat \<times> nat" where
  "demo_outcome x =
     (sr_clean (fst x), accepted_rows (''notes'', ''items'') INSERT (co_accepted (kn_coal (snd x))),
      pending_scopes (''notes'', ''items'') INSERT (kn_coal (snd x)),
      rows_in (''notes'', ''items'') INSERT (co_rolled_back (kn_coal (snd x))))"


end
